(* ===== verification/Prelude.thy ===== *)
theory Prelude
  imports Main "HOL-Library.Word" "HOL-Library.AList"
begin

text \<open>
  What every component shares: bytes and machine words, the exceptions and the
  state-and-exception programs in which the stateful C++ code is written, and generic
  lemmas on lists and words.  \<open>wp_simps\<close> collects the equations that run such a program
  symbolically, \<open>bytes_simps\<close> the facts on slices of byte arrays.
\<close>

unbundle bit_operations_syntax

section \<open>Machine data\<close>

type_synonym byte = "8 word"
type_synonym bytes = "8 word list"
type_synonym u8 = "8 word"
type_synonym u32 = "32 word"
type_synonym u64 = "64 word"

named_theorems wp_simps \<open>equations that run a state-and-exception program\<close>
named_theorems bytes_simps \<open>slices and updates of byte arrays\<close>

section \<open>Exceptions and stateful programs\<close>

text \<open>
  The C++ exceptions the library throws, one constructor per class (with its message where
  it has one).  \<open>UndefinedBehaviour\<close> marks a call through an uninitialised pointer.  \<open>OutOfFuel\<close> is no exception either: it marks a loop of the source that did not
  stop within the bound the model gives it, so no handler of the model catches it.
\<close>

datatype exn =
    TrieException string
  | DbTrieException string
  | TrieNodeNotFoundException
  | TrieRootNotFoundException
  | StorageException string
  | RuntimeError string
  | CString string
  | IosFailure
  | UndefinedBehaviour
  | OutOfFuel

type_synonym ('s, 'a) prog = "'s \<Rightarrow> (exn + 'a) \<times> 's"

definition ret :: "'a \<Rightarrow> ('s, 'a) prog" where
  "ret x = (\<lambda>s. (Inr x, s))"

definition throw :: "exn \<Rightarrow> ('s, 'a) prog" where
  "throw e = (\<lambda>s. (Inl e, s))"

definition bindE :: "('s, 'a) prog \<Rightarrow> ('a \<Rightarrow> ('s, 'b) prog) \<Rightarrow> ('s, 'b) prog" where
  "bindE m f = (\<lambda>s. case m s of (Inl e, s') \<Rightarrow> (Inl e, s') | (Inr x, s') \<Rightarrow> f x s')"

definition liftE :: "exn + 'a \<Rightarrow> ('s, 'a) prog" where
  "liftE r = (\<lambda>s. (r, s))"

text \<open>A \<^verbatim>\<open>try ... catch\<close>: the handler sees the state the body left, as in C++.\<close>

definition catchE :: "('s, 'a) prog \<Rightarrow> (exn \<Rightarrow> ('s, 'a) prog) \<Rightarrow> ('s, 'a) prog" where
  "catchE m h = (\<lambda>s. case m s of
      (Inl e, s') \<Rightarrow> (if e = OutOfFuel then (Inl e, s') else h e s')
    | (Inr x, s') \<Rightarrow> (Inr x, s'))"

lemma ret_run [wp_simps]: "ret x s = (Inr x, s)"
  by (simp add: ret_def)

lemma throw_run [wp_simps]: "throw e s = (Inl e, s)"
  by (simp add: throw_def)

lemma liftE_run [wp_simps]: "liftE r s = (r, s)"
  by (simp add: liftE_def)

lemma bindE_Inr [wp_simps]: "m s = (Inr x, s') \<Longrightarrow> bindE m f s = f x s'"
  by (simp add: bindE_def)

lemma bindE_Inl [wp_simps]: "m s = (Inl e, s') \<Longrightarrow> bindE m f s = (Inl e, s')"
  by (simp add: bindE_def)

lemma bindE_ret [wp_simps]: "bindE (ret x) f = f x"
  by (simp add: bindE_def ret_def)

lemma catchE_Inr [wp_simps]: "m s = (Inr x, s') \<Longrightarrow> catchE m h s = (Inr x, s')"
  by (simp add: catchE_def)

lemma catchE_Inl [wp_simps]:
  "m s = (Inl e, s') \<Longrightarrow> e \<noteq> OutOfFuel \<Longrightarrow> catchE m h s = h e s'"
  by (simp add: catchE_def)

definition modify :: "('s \<Rightarrow> 's) \<Rightarrow> ('s, unit) prog" where
  "modify f = (\<lambda>s. (Inr (), f s))"

lemma modify_run [wp_simps]: "modify f s = (Inr (), f s)"
  by (simp add: modify_def)

text \<open>A loop over an index.\<close>

primrec forE :: "'i list \<Rightarrow> ('i \<Rightarrow> ('s, unit) prog) \<Rightarrow> ('s, unit) prog" where
  "forE [] f = ret ()"
| "forE (i # is) f = bindE (f i) (\<lambda>_. forE is f)"

text \<open>A loop whose body never throws is a fold over the state.\<close>

lemma forE_pure:
  assumes "\<And>i s. i \<in> set ks \<Longrightarrow> I s \<Longrightarrow> f i s = (Inr (), g i s) \<and> I (g i s)" and "I s"
  shows "forE ks f s = (Inr (), fold g ks s) \<and> I (fold g ks s)"
  using assms
proof (induction ks arbitrary: s)
  case (Cons i ks)
  then show ?case by (simp add: bindE_def)
qed (simp add: ret_def)

section \<open>Byte arrays\<close>

text \<open>
  \<open>slice off n xs\<close> is what \<^verbatim>\<open>memcpy(dst, xs + off, n)\<close> reads; \<open>memcpy_at dst off src\<close>
  the array \<open>dst\<close> after \<^verbatim>\<open>memcpy(dst + off, src, |src|)\<close>.
\<close>

definition slice :: "nat \<Rightarrow> nat \<Rightarrow> 'a list \<Rightarrow> 'a list" where
  "slice off n xs = take n (drop off xs)"

definition memcpy_at :: "'a list \<Rightarrow> nat \<Rightarrow> 'a list \<Rightarrow> 'a list" where
  "memcpy_at dst off src = take off dst @ src @ drop (off + length src) dst"

lemma length_slice [simp]: "off + n \<le> length xs \<Longrightarrow> length (slice off n xs) = n"
  by (simp add: slice_def)

lemma slice_0_append [bytes_simps]: "length a = n \<Longrightarrow> slice 0 n (a @ b) = a"
  by (simp add: slice_def)

lemma slice_skip [bytes_simps]:
  "length a \<le> off \<Longrightarrow> slice off n (a @ b) = slice (off - length a) n b"
  by (simp add: slice_def)

lemma slice_all [bytes_simps]: "length a = n \<Longrightarrow> slice 0 n a = a"
  by (simp add: slice_def)

lemma length_memcpy_at [simp]:
  "off + length src \<le> length dst \<Longrightarrow> length (memcpy_at dst off src) = length dst"
  by (simp add: memcpy_at_def)

lemma length_concat_all: "list_all (\<lambda>x. length x = hs) xs \<Longrightarrow> length (concat xs) = length xs * hs"
  by (induction xs) auto

lemma slice_concat:
  "list_all (\<lambda>x. length x = hs) xs \<Longrightarrow> i < length xs \<Longrightarrow> slice (i * hs) hs (concat xs @ r) = xs ! i"
proof (induction xs arbitrary: i)
  case (Cons x xs)
  then show ?case by (cases i) (simp_all add: slice_def)
qed simp

lemma take_memcpy_at:
  "off \<le> length dst \<Longrightarrow> take (off + length src) (memcpy_at dst off src) = take off dst @ src"
  by (simp add: memcpy_at_def)

lemma memcpy_at_0:
  "length src \<le> length dst \<Longrightarrow> take (length src) (memcpy_at dst 0 src) = src"
  "length src \<le> length dst \<Longrightarrow> length (memcpy_at dst 0 src) = length dst"
  by (simp_all add: memcpy_at_def)

section \<open>Words\<close>

lemma unat_of_nat_small: "n < 2 ^ LENGTH('a) \<Longrightarrow> unat (word_of_nat n :: 'a::len word) = n"
  by (simp add: unsigned_of_nat take_bit_nat_eq_self)

lemma unat_byte_less: "unat (w :: byte) < 256"
proof -
  have "unat w < 2 ^ LENGTH(8)" by (rule unsigned_less)
  then show ?thesis by simp
qed

lemma word_of_nat_inject_small:
  "m < 2 ^ LENGTH('a) \<Longrightarrow> n < 2 ^ LENGTH('a) \<Longrightarrow>
   (word_of_nat m :: 'a::len word) = word_of_nat n \<longleftrightarrow> m = n"
  by (metis unat_of_nat_small)

text \<open>A 64 bit integer in memory, in the byte order of the machine (little endian).\<close>

definition size_to_bytes :: "u64 \<Rightarrow> bytes" where
  "size_to_bytes w = map (\<lambda>i. ucast (drop_bit (8 * i) w)) [0..<8]"

fun size_of_bytes :: "bytes \<Rightarrow> u64" where
  "size_of_bytes [] = 0"
| "size_of_bytes (b # bs) = ucast b OR push_bit 8 (size_of_bytes bs)"

lemma bit_size_of_bytes:
  "n < 64 \<Longrightarrow> bit (size_of_bytes bs) n \<longleftrightarrow> n div 8 < length bs \<and> bit (bs ! (n div 8)) (n mod 8)"
proof (induction bs arbitrary: n)
  case (Cons b bs)
  show ?case
  proof (cases "n < 8")
    case True
    then show ?thesis by (simp add: bit_simps)
  next
    case False
    then have "n div 8 = Suc ((n - 8) div 8)" "n mod 8 = (n - 8) mod 8"
      by (simp_all add: le_div_geq le_mod_geq)
    moreover have "\<not> bit b n" using False bit_imp_le_length [of b n] by auto
    ultimately show ?thesis using Cons.prems False Cons.IH [of "n - 8"]
      by (simp add: bit_simps)
  qed
qed simp

lemma size_bytes_roundtrip: "size_of_bytes (size_to_bytes w) = w"
proof (rule bit_word_eqI)
  fix n :: nat assume "n < LENGTH(64)"
  then have n: "n < 64" "n div 8 < 8" by simp_all
  then have "bit (size_of_bytes (size_to_bytes w)) n \<longleftrightarrow> bit w (8 * (n div 8) + n mod 8)"
    by (simp add: bit_size_of_bytes size_to_bytes_def bit_simps)
  then show "bit (size_of_bytes (size_to_bytes w)) n = bit w n" by simp
qed

lemma size_to_bytes_inject [simp]: "size_to_bytes a = size_to_bytes b \<longleftrightarrow> a = b"
  by (metis size_bytes_roundtrip)

lemma length_size_to_bytes [simp]: "length (size_to_bytes a) = 8"
  by (simp add: size_to_bytes_def)

lemma size_to_bytes_of_bytes: "length k = 8 \<Longrightarrow> size_to_bytes (size_of_bytes k) = k"
proof (rule nth_equalityI)
  assume l: "length k = 8"
  then show "length (size_to_bytes (size_of_bytes k)) = length k" by simp
  fix i assume "i < length (size_to_bytes (size_of_bytes k))"
  then have i: "i < 8" by simp
  show "size_to_bytes (size_of_bytes k) ! i = k ! i"
  proof (rule bit_word_eqI)
    fix j :: nat assume "j < LENGTH(8)"
    then have j: "j < 8" by simp
    then have "8 * i + j < 64" "(8 * i + j) div 8 = i" "(8 * i + j) mod 8 = j" using i by simp_all
    then show "bit (size_to_bytes (size_of_bytes k) ! i) j = bit (k ! i) j"
      using i j l by (simp add: size_to_bytes_def bit_simps bit_size_of_bytes)
  qed
qed

section \<open>Lists\<close>

lemma takeWhile_upt_length_less:
  "i < length (takeWhile P [0..<n]) \<Longrightarrow> P i"
proof -
  assume i: "i < length (takeWhile P [0..<n])"
  then have "takeWhile P [0..<n] ! i \<in> set (takeWhile P [0..<n])" by (rule nth_mem)
  then have "P (takeWhile P [0..<n] ! i)" by (auto dest: set_takeWhileD)
  moreover have "takeWhile P [0..<n] ! i = [0..<n] ! i" using i by (rule takeWhile_nth)
  moreover have "i < n" using i length_takeWhile_le [of P "[0..<n]"] by simp
  ultimately show ?thesis by simp
qed

lemma takeWhile_upt_length_stop:
  "length (takeWhile P [0..<n]) < n \<Longrightarrow> \<not> P (length (takeWhile P [0..<n]))"
  using nth_length_takeWhile [of P "[0..<n]"] by simp

lemma takeWhile_upt_length_le: "length (takeWhile P [0..<n]) \<le> n"
  using length_takeWhile_le [of P "[0..<n]"] by simp

lemma takeWhile_upt_length_eq:
  assumes "\<And>j. j < i \<Longrightarrow> P j" and "\<not> P i" and "i < n"
  shows "length (takeWhile P [0..<n]) = i"
proof (rule linorder_cases)
  assume "length (takeWhile P [0..<n]) < i"
  then have "\<not> P (length (takeWhile P [0..<n]))"
    using assms(3) by (intro takeWhile_upt_length_stop) simp
  with assms(1) \<open>length (takeWhile P [0..<n]) < i\<close> show ?thesis by blast
next
  assume "i < length (takeWhile P [0..<n])"
  then have "P i" by (rule takeWhile_upt_length_less)
  with assms(2) show ?thesis by simp
qed

end
