(* ===== verification/BitSet.thy ===== *)
theory BitSet
  imports Prelude
begin

text \<open>
  The bit macros of \<^verbatim>\<open>setsync/utils/bitset.h\<close> on byte arrays: bit \<open>b\<close> of an array is bit
  \<open>b mod 8\<close> of its byte \<open>b div 8\<close>, least significant first.
\<close>

definition BITMASK :: "nat \<Rightarrow> byte" where
  "BITMASK b = push_bit (b mod 8) 1"

definition BITSLOT :: "nat \<Rightarrow> nat" where
  "BITSLOT b = b div 8"

definition BITTEST :: "bytes \<Rightarrow> nat \<Rightarrow> bool" where
  "BITTEST a b = (a ! BITSLOT b AND BITMASK b \<noteq> 0)"

definition BITSET :: "bytes \<Rightarrow> nat \<Rightarrow> bytes" where
  "BITSET a b = a[BITSLOT b := a ! BITSLOT b OR BITMASK b]"

definition BITCLEAR :: "bytes \<Rightarrow> nat \<Rightarrow> bytes" where
  "BITCLEAR a b = a[BITSLOT b := a ! BITSLOT b AND NOT (BITMASK b)]"

definition BITNSLOTS :: "nat \<Rightarrow> nat" where
  "BITNSLOTS nb = (nb + 8 - 1) div 8"

lemma bit_BITMASK: "bit (BITMASK b) i \<longleftrightarrow> i = b mod 8"
proof -
  have "b mod 8 < 8" by simp
  then show ?thesis unfolding BITMASK_def bit_push_bit_iff bit_1_iff by auto
qed

lemma and_BITMASK_iff: "w AND BITMASK b \<noteq> 0 \<longleftrightarrow> bit w (b mod 8)"
proof
  assume "w AND BITMASK b \<noteq> 0"
  then obtain i where "bit (w AND BITMASK b) i" by (metis bit_eqI bit_0_eq bot_apply bot_bool_def)
  then have "bit w i \<and> i = b mod 8" unfolding bit_and_iff bit_BITMASK .
  then show "bit w (b mod 8)" by blast
next
  assume "bit w (b mod 8)"
  then have "bit (w AND BITMASK b) (b mod 8)" by (simp add: bit_and_iff bit_BITMASK)
  then show "w AND BITMASK b \<noteq> 0" by auto
qed

lemma BITTEST_bit: "BITTEST a b = bit (a ! (b div 8)) (b mod 8)"
  by (simp add: BITTEST_def BITSLOT_def and_BITMASK_iff)

lemma BITTEST_BITSET:
  assumes "b div 8 < length a"
  shows "BITTEST (BITSET a b) c \<longleftrightarrow> c = b \<or> BITTEST a c"
proof (cases "c div 8 = b div 8")
  case True
  then have "c mod 8 = b mod 8 \<longleftrightarrow> c = b" by (metis div_mult_mod_eq)
  with True assms show ?thesis
    by (auto simp: BITTEST_bit BITSET_def BITSLOT_def bit_or_iff bit_BITMASK)
next
  case False
  then show ?thesis by (auto simp: BITTEST_bit BITSET_def BITSLOT_def)
qed

lemma BITTEST_BITCLEAR:
  assumes "b div 8 < length a"
  shows "BITTEST (BITCLEAR a b) c \<longleftrightarrow> c \<noteq> b \<and> BITTEST a c"
proof (cases "c div 8 = b div 8")
  case True
  then have "c mod 8 = b mod 8 \<longleftrightarrow> c = b" by (metis div_mult_mod_eq)
  moreover have "c mod 8 < 8" by simp
  ultimately show ?thesis using True assms
    by (auto simp: BITTEST_bit BITCLEAR_def BITSLOT_def bit_and_iff bit_not_iff bit_BITMASK)
next
  case False
  then show ?thesis by (auto simp: BITTEST_bit BITCLEAR_def BITSLOT_def)
qed

lemma length_BITSET [simp]: "length (BITSET a b) = length a"
  by (simp add: BITSET_def)

lemma length_BITCLEAR [simp]: "length (BITCLEAR a b) = length a"
  by (simp add: BITCLEAR_def)

text \<open>Two arrays of the same length with the same bits are the same array.\<close>

lemma bytes_eq_iff_bits:
  assumes "length a = n" and "length b = n"
  shows "a = b \<longleftrightarrow> (\<forall>i < 8 * n. BITTEST a i = BITTEST b i)"
proof
  assume bits: "\<forall>i < 8 * n. BITTEST a i = BITTEST b i"
  show "a = b"
  proof (rule nth_equalityI)
    show "length a = length b" using assms by simp
    fix j assume "j < length a"
    show "a ! j = b ! j"
    proof (rule bit_word_eqI)
      fix i assume "i < LENGTH(8)"
      then have i: "i < 8" by simp
      with \<open>j < length a\<close> assms have "8 * j + i < 8 * n" by simp
      with bits have "BITTEST a (8 * j + i) = BITTEST b (8 * j + i)" by blast
      with i show "bit (a ! j) i = bit (b ! j) i" by (simp add: BITTEST_bit)
    qed
  qed
qed simp

section \<open>Output functions\<close>

text \<open>\<^verbatim>\<open>setsync/utils/OutputFunctions.cpp\<close>: the hexadecimal and the binary text of an array.\<close>

definition hex_digit :: "nat \<Rightarrow> char" where
  "hex_digit d = ''0123456789ABCDEF'' ! d"

fun CryptoHashtoString :: "bytes \<Rightarrow> nat \<Rightarrow> string" where
  "CryptoHashtoString hash 0 = ''''"
| "CryptoHashtoString [] (Suc n) = ''''"
| "CryptoHashtoString (c # hash) (Suc n) =
     hex_digit (unat c div 16) # hex_digit (unat c mod 16) # CryptoHashtoString hash n"

definition ArrayToBitString :: "bytes \<Rightarrow> nat \<Rightarrow> string" where
  "ArrayToBitString array bitcount =
     map (\<lambda>i. if BITTEST array i then CHR ''1'' else CHR ''0'') [0..<bitcount]"

lemma hex_digit_inject: "d < 16 \<Longrightarrow> e < 16 \<Longrightarrow> hex_digit d = hex_digit e \<longleftrightarrow> d = e"
proof -
  assume "d < 16" "e < 16"
  then have "d < length ''0123456789ABCDEF''" "e < length ''0123456789ABCDEF''" by simp_all
  moreover have "distinct ''0123456789ABCDEF''" by simp
  ultimately show ?thesis unfolding hex_digit_def by (rule nth_eq_iff_index_eq [rotated])
qed

lemma length_CryptoHashtoString: "n \<le> length h \<Longrightarrow> length (CryptoHashtoString h n) = 2 * n"
  by (induction h n rule: CryptoHashtoString.induct) auto

lemma byte_hex_inject:
  "hex_digit (unat c div 16) = hex_digit (unat d div 16) \<Longrightarrow>
   hex_digit (unat c mod 16) = hex_digit (unat d mod 16) \<Longrightarrow> c = (d :: byte)"
proof -
  assume hi: "hex_digit (unat c div 16) = hex_digit (unat d div 16)"
    and lo: "hex_digit (unat c mod 16) = hex_digit (unat d mod 16)"
  have "unat c < 256" "unat d < 256" using unat_byte_less [of c] unat_byte_less [of d] by simp_all
  then have "unat c div 16 < 16" "unat d div 16 < 16" by simp_all
  with hi lo have "unat c div 16 = unat d div 16" "unat c mod 16 = unat d mod 16"
    by (simp_all add: hex_digit_inject)
  then have "unat c = unat d" by (metis div_mult_mod_eq)
  then show ?thesis by (simp add: word_unat_eq_iff)
qed

text \<open>The hexadecimal text determines the bytes it prints.\<close>

lemma CryptoHashtoString_inject:
  "n \<le> length a \<Longrightarrow> n \<le> length b \<Longrightarrow>
   CryptoHashtoString a n = CryptoHashtoString b n \<longleftrightarrow> take n a = take n b"
proof (induction a n arbitrary: b rule: CryptoHashtoString.induct)
  case (3 c hash n)
  then obtain d b' where b: "b = d # b'" by (cases b) auto
  with 3 show ?case by (auto intro: byte_hex_inject)
qed simp_all

end
