(* ===== verification/MerkleHash.thy ===== *)
theory MerkleHash
  imports MerkleTree "HOL-Library.Multiset"
begin

text \<open>
  The hashes of the tree's nodes.  The locale \<open>crypto_hash\<close> is the interface the trie uses of
  \<^verbatim>\<open>crypto::CryptoHash\<close>: a function on byte arrays whose digests have a fixed length.
  No function into digests of a fixed length is injective, so collision freedom is stated
  of the finitely many inputs a pair of trees hashes (\<open>collision_free\<close>).  Contexts (\<open>plug\<close>)
  name the way from a node up to the root, which the code walks by parent links.
\<close>

fun inner_inputs :: "(bytes \<Rightarrow> bytes) \<Rightarrow> ptree \<Rightarrow> bytes list" where
  "inner_inputs H (Tip k) = []"
| "inner_inputs H (Bin m l r) =
     (thash H l @ thash H r) # inner_inputs H l @ inner_inputs H r"

text \<open>
  No two different inputs of inner nodes have the same digest, and no inserted key is the
  digest of an inner node (leaves are not hashed again, so nothing else separates them).
\<close>

definition no_clash :: "(bytes \<Rightarrow> bytes) \<Rightarrow> bytes list \<Rightarrow> bytes list \<Rightarrow> bool" where
  "no_clash H ins ks \<longleftrightarrow>
     list_all (\<lambda>x. list_all (\<lambda>y. H x = H y \<longrightarrow> x = y) ins) ins \<and>
     list_all (\<lambda>x. H x \<notin> set ks) ins"

definition collision_free :: "(bytes \<Rightarrow> bytes) \<Rightarrow> ptree list \<Rightarrow> bool" where
  "collision_free H ts =
     no_clash H (concat (map (inner_inputs H) ts)) (concat (map key_list ts))"

lemma no_clash_mono:
  "no_clash H ins ks \<Longrightarrow> set ins' \<subseteq> set ins \<Longrightarrow> set ks' \<subseteq> set ks \<Longrightarrow> no_clash H ins' ks'"
  unfolding no_clash_def list_all_iff by blast

lemma subs_keys: "u \<in> set (subs t) \<Longrightarrow> keys u \<subseteq> keys t"
  by (induction t) auto

lemma subs_wf: "u \<in> set (subs t) \<Longrightarrow> wf_tree h t \<Longrightarrow> wf_tree h u"
  by (induction t) (auto dest: wf_BinD(2,3))

lemma subs_inputs: "u \<in> set (subs t) \<Longrightarrow> set (inner_inputs H u) \<subseteq> set (inner_inputs H t)"
  by (induction t) auto

lemma subs_self [simp]: "t \<in> set (subs t)"
  by (cases t) simp_all

lemma subs_trans: "u \<in> set (subs v) \<Longrightarrow> v \<in> set (subs t) \<Longrightarrow> u \<in> set (subs t)"
  by (induction t) auto

section \<open>The interface of the hash function\<close>

locale crypto_hash =
  fixes H :: "bytes \<Rightarrow> bytes" and n :: nat
  assumes length_H: "length (H x) = n"
begin

lemma length_thash: "wf_tree n t \<Longrightarrow> length (thash H t) = n"
  by (cases t) (simp_all add: length_H)

text \<open>Where no inputs clash, the hash of a node determines the whole subtree.\<close>

lemma thash_inj:
  assumes "no_clash H ins ks"
  shows "wf_tree n u \<Longrightarrow> wf_tree n v \<Longrightarrow> set (inner_inputs H u) \<subseteq> set ins \<Longrightarrow>
    set (inner_inputs H v) \<subseteq> set ins \<Longrightarrow> keys u \<subseteq> set ks \<Longrightarrow> keys v \<subseteq> set ks \<Longrightarrow>
    thash H u = thash H v \<Longrightarrow> u = v"
proof (induction u arbitrary: v)
  case (Tip k)
  then show ?case using assms
    by (cases v) (auto simp: no_clash_def list_all_iff)
next
  case (Bin m l r)
  show ?case
  proof (cases v)
    case (Tip k)
    with Bin.prems assms show ?thesis by (auto simp: no_clash_def list_all_iff)
  next
    case (Bin m' l' r')
    note v = this
    note wf = wf_BinD [OF Bin.prems(1)] and wf' = wf_BinD [OF Bin.prems(2) [unfolded v]]
    from Bin.prems v have "H (thash H l @ thash H r) = H (thash H l' @ thash H r')"
      and "thash H l @ thash H r \<in> set ins" "thash H l' @ thash H r' \<in> set ins" by auto
    with assms have "thash H l @ thash H r = thash H l' @ thash H r'"
      unfolding no_clash_def list_all_iff by blast
    then have "thash H l = thash H l'" "thash H r = thash H r'"
      using wf(2,3) wf'(2,3) by (simp_all add: length_thash)
    then have "l = l'" "r = r'"
      using Bin.prems v wf(2,3) wf'(2,3) by (auto intro!: Bin.IH)
    with Bin.prems(1,2) v show ?thesis by (intro wf_tree_unique) simp_all
  qed
qed

lemma thash_inj_subs:
  assumes "collision_free H ts" "t \<in> set ts" "t' \<in> set ts" "wf_tree n t" "wf_tree n t'"
    and "u \<in> set (subs t)" "v \<in> set (subs t')" "thash H u = thash H v"
  shows "u = v"
proof (rule thash_inj [OF assms(1) [unfolded collision_free_def]])
  show "wf_tree n u" "wf_tree n v" using assms subs_wf by blast+
  show "set (inner_inputs H u) \<subseteq> set (concat (map (inner_inputs H) ts))"
    using subs_inputs [OF assms(6), of H] assms(2) by auto
  show "set (inner_inputs H v) \<subseteq> set (concat (map (inner_inputs H) ts))"
    using subs_inputs [OF assms(7), of H] assms(3) by auto
  show "keys u \<subseteq> set (concat (map key_list ts))"
    using subs_keys [OF assms(6)] assms(2) by auto
  show "keys v \<subseteq> set (concat (map key_list ts))"
    using subs_keys [OF assms(7)] assms(3) by auto
qed (rule assms(8))

end

section \<open>Contexts: the way from a node to the root\<close>

text \<open>
  A context lists, from the node upwards, each ancestor's prefix length, the side the node
  is on (\<open>True\<close>: larger) and the sibling on the other side.
\<close>

type_synonym tctx = "(nat \<times> bool \<times> ptree) list"

definition mk :: "nat \<Rightarrow> bool \<Rightarrow> ptree \<Rightarrow> ptree \<Rightarrow> ptree" where
  "mk m d s b = (if d then Bin m b s else Bin m s b)"

fun plug :: "tctx \<Rightarrow> ptree \<Rightarrow> ptree" where
  "plug [] s = s"
| "plug ((m, d, b) # c) s = plug c (mk m d s b)"

fun ancs :: "tctx \<Rightarrow> ptree \<Rightarrow> ptree list" where
  "ancs [] s = []"
| "ancs ((m, d, b) # c) s = mk m d s b # ancs c (mk m d s b)"

fun sibs :: "tctx \<Rightarrow> ptree list" where
  "sibs [] = []"
| "sibs ((m, d, b) # c) = subs b @ sibs c"

lemma keys_mk [simp]: "keys (mk m d s b) = keys s \<union> keys b"
  by (auto simp: mk_def)

lemma thash_mk: "thash H (mk m d s b) = H (if d then thash H b @ thash H s else thash H s @ thash H b)"
  by (simp add: mk_def)

lemma set_subs_mk [simp]: "set (subs (mk m d s b)) = {mk m d s b} \<union> set (subs s) \<union> set (subs b)"
  by (auto simp: mk_def)

lemma wf_mkD:
  assumes "wf_tree h (mk m d s b)"
  shows "wf_tree h s" "wf_tree h b" "keys s \<inter> keys b = {}"
  using assms wf_Bin_disjoint [of h m b s] wf_Bin_disjoint [of h m s b]
  by (auto simp: mk_def dest: wf_BinD(2,3) split: if_splits)

lemma mset_subs_plug: "mset (subs (plug c s)) = mset (subs s @ ancs c s @ sibs c)"
  by (induction c s rule: plug.induct) (auto simp: mk_def)

lemma set_subs_plug: "set (subs (plug c s)) = set (subs s) \<union> set (ancs c s) \<union> set (sibs c)"
  using arg_cong [OF mset_subs_plug, of set_mset] by auto

lemma wf_plugD: "wf_tree h (plug c s) \<Longrightarrow> wf_tree h s"
  by (rule subs_wf [of s "plug c s"]) (simp_all add: set_subs_plug)

lemma keys_plug: "keys s \<subseteq> keys (plug c s)"
  by (rule subs_keys) (simp add: set_subs_plug)

lemma ancs_keys: "a \<in> set (ancs c s) \<Longrightarrow> keys s \<subseteq> keys a"
  by (induction c s rule: ancs.induct) auto

lemma ancs_keys_strict:
  "wf_tree h (plug c s) \<Longrightarrow> a \<in> set (ancs c s) \<Longrightarrow> \<not> keys a \<subseteq> keys s"
proof (induction c s rule: ancs.induct)
  case (2 m d b c s)
  then have wf: "wf_tree h (mk m d s b)" by (auto dest: wf_plugD)
  have b: "akey b \<notin> keys s" using wf_mkD(3) [OF wf] akey_in_keys [of b] by blast
  have "keys b \<subseteq> keys a" using 2(3) ancs_keys [of a c "mk m d s b"] by auto
  then have "akey b \<in> keys a" using akey_in_keys by blast
  with b show ?case by blast
qed simp

lemma sibs_disjoint:
  "wf_tree h (plug c s) \<Longrightarrow> u \<in> set (sibs c) \<Longrightarrow> keys u \<inter> keys s = {}"
proof (induction c arbitrary: s)
  case (Cons x c)
  obtain m d b where x: "x = (m, d, b)" by (cases x)
  from Cons.prems x have wf: "wf_tree h (mk m d s b)" by (auto dest: wf_plugD)
  from Cons.prems x consider "u \<in> set (subs b)" | "u \<in> set (sibs c)" by auto
  then show ?case
  proof cases
    case 1
    then show ?thesis using wf_mkD(3) [OF wf] subs_keys by blast
  next
    case 2
    with Cons.prems x have "keys u \<inter> keys (mk m d s b) = {}" by (intro Cons.IH) simp_all
    then show ?thesis by auto
  qed
qed simp

text \<open>Every subtree has a context; deletion cuts out the node's parent.\<close>

lemma plug_append: "plug (c @ c') s = plug c' (plug c s)"
  by (induction c s rule: plug.induct) auto

lemma subs_plug_ex: "u \<in> set (subs t) \<Longrightarrow> \<exists>c. t = plug c u"
proof (induction t)
  case (Bin m l r)
  then consider "u = Bin m l r" | "u \<in> set (subs l)" | "u \<in> set (subs r)" by auto
  then show ?case
  proof cases
    case 1
    then have "Bin m l r = plug [] u" by simp
    then show ?thesis by blast
  next
    case 2
    then obtain c where "l = plug c u" using Bin.IH by blast
    then have "Bin m l r = plug (c @ [(m, False, r)]) u" by (simp add: plug_append mk_def)
    then show ?thesis by blast
  next
    case 3
    then obtain c where "r = plug c u" using Bin.IH by blast
    then have "Bin m l r = plug (c @ [(m, True, l)]) u" by (simp add: plug_append mk_def)
    then show ?thesis by blast
  qed
qed (auto intro: exI [of _ "[]"])

lemma key_Tip_subs: "k \<in> keys t \<longleftrightarrow> Tip k \<in> set (subs t)"
  by (induction t) auto

fun cut :: "tctx \<Rightarrow> ptree option" where
  "cut [] = None"
| "cut ((m, d, b) # c) = Some (plug c b)"

lemma pt_delete_plug:
  "wf_tree h (plug c s) \<Longrightarrow> k \<in> keys s \<Longrightarrow>
   pt_delete k (plug c s) = (case pt_delete k s of None \<Rightarrow> cut c | Some s' \<Rightarrow> Some (plug c s'))"
proof (induction c arbitrary: s)
  case (Cons x c)
  obtain m d b where x: "x = (m, d, b)" by (cases x)
  from Cons.prems x have wf: "wf_tree h (mk m d s b)" by (auto dest: wf_plugD)
  have side: "BITTEST k m = d"
    using wf Cons.prems(2) by (auto simp: mk_def dest: wf_BinD(5,6) split: if_splits)
  have step: "pt_delete k (mk m d s b) =
      (case pt_delete k s of None \<Rightarrow> Some b | Some s' \<Rightarrow> Some (mk m d s' b))"
    using side by (simp add: mk_def split: option.split)
  have "pt_delete k (plug c (mk m d s b)) =
      (case pt_delete k (mk m d s b) of None \<Rightarrow> cut c | Some s' \<Rightarrow> Some (plug c s'))"
    using Cons.prems x by (intro Cons.IH) simp_all
  with step x show ?case by (simp split: option.split)
qed (simp split: option.split)

lemma pt_delete_cut:
  "wf_tree h (plug c (Tip k)) \<Longrightarrow> pt_delete k (plug c (Tip k)) = cut c"
  by (simp add: pt_delete_plug)

text \<open>Insertion replaces one subtree by its \<open>join\<close> with the new key.\<close>

lemma pt_insert_plug:
  "k \<notin> keys t \<Longrightarrow> \<exists>c s. t = plug c s \<and> pt_insert h k t = plug c (join h k s)"
proof (induction t)
  case (Tip k')
  then show ?case by (auto intro!: exI [of _ "[]"])
next
  case (Bin m l r)
  show ?case
  proof (cases "agree m (akey l) k")
    case False
    then have "pt_insert h k (Bin m l r) = plug [] (join h k (Bin m l r))" by simp
    then show ?thesis by (metis plug.simps(1))
  next
    case ag: True
    show ?thesis
    proof (cases "BITTEST k m")
      case True
      from Bin obtain c s where "r = plug c s" "pt_insert h k r = plug c (join h k s)" by auto
      with True ag have "Bin m l r = plug (c @ [(m, True, l)]) s"
        "pt_insert h k (Bin m l r) = plug (c @ [(m, True, l)]) (join h k s)"
        by (simp_all add: plug_append mk_def)
      then show ?thesis by blast
    next
      case False
      from Bin obtain c s where "l = plug c s" "pt_insert h k l = plug c (join h k s)" by auto
      with False ag have "Bin m l r = plug (c @ [(m, False, r)]) s"
        "pt_insert h k (Bin m l r) = plug (c @ [(m, False, r)]) (join h k s)"
        by (simp_all add: plug_append mk_def)
      then show ?thesis by blast
    qed
  qed
qed

lemma pt_insert_id: "wf_tree h t \<Longrightarrow> k \<in> keys t \<Longrightarrow> pt_insert h k t = t"
proof (induction t)
  case (Bin m l r)
  note wf = wf_BinD [OF Bin.prems(1)]
  have "agree m (akey l) k" using Bin.prems(2) by (intro wf(4)) simp_all
  moreover have "k \<in> keys r" if "BITTEST k m" using that Bin.prems(2) wf(5) by auto
  moreover have "k \<in> keys l" if "\<not> BITTEST k m" using that Bin.prems(2) wf(6) by auto
  ultimately show ?case using Bin.IH wf(2,3) by simp
qed simp

end
