(* ===== verification/KeyValueStorage.thy ===== *)
theory KeyValueStorage
  imports Prelude
begin

text \<open>
  The key-value storage interface (\<^verbatim>\<open>setsync/storage/KeyValueStorage.h\<close>) that the trie,
  the counting Bloom filter and the index are written against.  Berkeley DB and LevelDB
  themselves are not part of the repository; what the library relies on is the documented
  contract of \<^verbatim>\<open>AbstractKeyValueStorage\<close>, stated as the locale \<open>kv_storage\<close>, and
  given here by an association list in the order an iterator visits the keys.  The one
  point where the two back ends differ is kept: deleting an absent key throws on Berkeley DB
  (\<^verbatim>\<open>BdbStorage::del\<close> turns \<^verbatim>\<open>DB_NOTFOUND\<close> into an exception) and succeeds on LevelDB.
  Input/output failures are left to theory \<open>Backends\<close>, which models the classes themselves.
\<close>

record kvstore =
  kv_entries :: "(bytes \<times> bytes) list"
  kv_strict :: bool \<comment> \<open>Berkeley DB: deleting an absent key is an error\<close>

definition storage_get :: "kvstore \<Rightarrow> bytes \<Rightarrow> bytes option" where
  "storage_get s key = map_of (kv_entries s) key"

definition storage_put :: "kvstore \<Rightarrow> bytes \<Rightarrow> bytes \<Rightarrow> kvstore" where
  "storage_put s key value = s\<lparr>kv_entries := AList.update key value (kv_entries s)\<rparr>"

definition storage_del :: "kvstore \<Rightarrow> bytes \<Rightarrow> exn + kvstore" where
  "storage_del s key =
     (if kv_strict s \<and> storage_get s key = None then Inl (StorageException ''DbException'')
      else Inr (s\<lparr>kv_entries := AList.delete key (kv_entries s)\<rparr>))"

definition storage_clear :: "kvstore \<Rightarrow> kvstore" where
  "storage_clear s = s\<lparr>kv_entries := []\<rparr>"

text \<open>The keys in the order \<^verbatim>\<open>seekToFirst\<close>, \<^verbatim>\<open>valid\<close>, \<^verbatim>\<open>next\<close> visit them.\<close>

definition storage_keys :: "kvstore \<Rightarrow> bytes list" where
  "storage_keys s = map fst (kv_entries s)"

definition new_storage :: "bool \<Rightarrow> kvstore" where
  "new_storage strict = \<lparr>kv_entries = [], kv_strict = strict\<rparr>"

section \<open>The contract\<close>

locale kv_storage =
  fixes get :: "'s \<Rightarrow> bytes \<Rightarrow> bytes option"
    and put :: "'s \<Rightarrow> bytes \<Rightarrow> bytes \<Rightarrow> 's"
    and del :: "'s \<Rightarrow> bytes \<Rightarrow> exn + 's"
    and clear :: "'s \<Rightarrow> 's"
    and all_keys :: "'s \<Rightarrow> bytes list"
  assumes get_put: "get (put s k v) = (get s)(k \<mapsto> v)"
    and get_del: "del s k = Inr s' \<Longrightarrow> get s' = (get s)(k := None)"
    and del_present: "get s k \<noteq> None \<Longrightarrow> \<exists>s'. del s k = Inr s'"
    and get_clear: "get (clear s) = Map.empty"
    and keys_dom: "set (all_keys s) = dom (get s)"
begin

lemma get_put_same: "get (put s k v) k = Some v"
  by (simp add: get_put)

lemma get_put_other: "k' \<noteq> k \<Longrightarrow> get (put s k v) k' = get s k'"
  by (simp add: get_put)

lemma put_put_same: "get (put (put s k v) k w) = get (put s k w)"
  by (simp add: get_put)

lemma del_result: "get s k \<noteq> None \<Longrightarrow> \<exists>s'. del s k = Inr s' \<and> get s' = (get s)(k := None)"
  using del_present get_del by blast

lemma del_put: "\<exists>s'. del (put s k v) k = Inr s' \<and> get s' = (get s)(k := None)"
  using del_result [of "put s k v" k] by (simp add: get_put)

lemma finite_dom_get: "finite (dom (get s))"
  by (metis List.finite_set keys_dom)

text \<open>Deleting a list of present, pairwise different keys succeeds and removes just them.\<close>

fun del_list :: "'s \<Rightarrow> bytes list \<Rightarrow> exn + 's" where
  "del_list s [] = Inr s"
| "del_list s (k # ks) = (case del s k of Inl e \<Rightarrow> Inl e | Inr s' \<Rightarrow> del_list s' ks)"

lemma del_list_result:
  "distinct ks \<Longrightarrow> \<forall>k \<in> set ks. get s k \<noteq> None \<Longrightarrow>
   \<exists>s'. del_list s ks = Inr s' \<and> get s' = get s |` (- set ks)"
proof (induction ks arbitrary: s)
  case (Cons k ks)
  then obtain s1 where s1: "del s k = Inr s1" "get s1 = (get s)(k := None)"
    using del_result [of s k] by auto
  moreover have "\<forall>k \<in> set ks. get s1 k \<noteq> None" using Cons.prems s1(2) by auto
  ultimately obtain s2 where s2: "del_list s1 ks = Inr s2" "get s2 = get s1 |` (- set ks)"
    using Cons.IH [of s1] Cons.prems(1) by (metis distinct.simps(2))
  have "get s2 = get s |` (- set (k # ks))" unfolding s2(2) s1(2)
    by (auto simp: restrict_map_def fun_eq_iff)
  with s1(1) s2(1) show ?case by simp
qed (simp add: restrict_map_def)

end

lemma map_of_AList_update: "map_of (AList.update k v xs) = (map_of xs)(k \<mapsto> v)"
  by (rule update_conv')

lemma map_of_AList_delete: "map_of (AList.delete k xs) = (map_of xs)(k := None)"
  by (rule delete_conv')

interpretation kv: kv_storage storage_get storage_put storage_del storage_clear storage_keys
proof unfold_locales
  show "storage_get (storage_put s k v) = (storage_get s)(k \<mapsto> v)" for s k v
    by (simp add: storage_get_def storage_put_def map_of_AList_update fun_eq_iff)
  show "storage_get s' = (storage_get s)(k := None)" if "storage_del s k = Inr s'" for s k s'
    using that
    by (auto simp: storage_get_def storage_del_def map_of_AList_delete fun_eq_iff split: if_splits)
  show "\<exists>s'. storage_del s k = Inr s'" if "storage_get s k \<noteq> None" for s k
    using that by (simp add: storage_del_def)
  show "storage_get (storage_clear s) = Map.empty" for s
    by (simp add: storage_get_def storage_clear_def fun_eq_iff)
  show "set (storage_keys s) = dom (storage_get s)" for s
    unfolding storage_keys_def storage_get_def dom_map_of_conv_image_fst by simp
qed

lemma storage_get_new [simp]: "storage_get (new_storage b) = Map.empty"
  by (simp add: storage_get_def new_storage_def fun_eq_iff)

lemma kv_strict_put [simp]: "kv_strict (storage_put s k v) = kv_strict s"
  by (simp add: storage_put_def)

end
