(* ===== verification/TrieNode.thy ===== *)
theory TrieNode
  imports MerkleHash KeyValueStorage
begin

text \<open>
  Class \<^verbatim>\<open>TrieNode\<close> and class \<^verbatim>\<open>KeyValueRootNode\<close> of \<^verbatim>\<open>setsync/trie/KeyValueTrie.cpp\<close>:
  the in-memory copy of a node, its marshalled form in the storage, and the small
  operations of which insertion and erasure are made.  A method that reads or writes the
  storage is a program over the storage; a node is passed by value, as the C++ copies it.
  \<open>te_junk\<close> stands for whatever \<^verbatim>\<open>malloc\<close> left in the three hash fields a fresh leaf
  does not set.
\<close>

record trie_env =
  te_hash :: "bytes \<Rightarrow> bytes" \<comment> \<open>the cryptographic hash function\<close>
  te_size :: nat \<comment> \<open>its digest size in bytes\<close>
  te_junk :: bytes

record trie_node =
  tn_hash :: bytes
  tn_parent :: bytes
  tn_smaller :: bytes
  tn_larger :: bytes
  tn_prefix :: bytes
  tn_hasChildren :: bool
  tn_hasParent :: bool
  tn_prefix_mask :: u8
  tn_dirty :: bool

type_synonym 'a nprog = "(kvstore, 'a) prog"

section \<open>The marshalled form\<close>

definition HAS_PARENT :: u8 where "HAS_PARENT = 0x01"
definition HAS_CHILDREN :: u8 where "HAS_CHILDREN = 0x02"
definition DIRTY :: u8 where "DIRTY = 0x04"

definition getMarshallBufferSize :: "trie_env \<Rightarrow> nat" where
  "getMarshallBufferSize env = 4 * te_size env + 2"

definition getFlags :: "trie_node \<Rightarrow> u8" where
  "getFlags n =
     (let flags = 0;
          flags = (if tn_hasChildren n then HAS_CHILDREN else flags);
          flags = (if tn_hasParent n then flags OR HAS_PARENT else flags)
      in if tn_dirty n then flags OR DIRTY else flags)"

definition marshall :: "trie_env \<Rightarrow> trie_node \<Rightarrow> bytes" where
  "marshall env n =
     (let hashsize = te_size env in
      slice 0 hashsize (tn_parent n) @ slice 0 hashsize (tn_smaller n) @
      slice 0 hashsize (tn_larger n) @ slice 0 hashsize (tn_prefix n) @
      [tn_prefix_mask n, getFlags n])"

definition unmarshall :: "trie_env \<Rightarrow> bytes \<Rightarrow> bytes \<Rightarrow> trie_node" where
  "unmarshall env hash v =
     (let hashsize = te_size env; flags = v ! (4 * hashsize + 1) in
      \<lparr>tn_hash = hash,
       tn_parent = slice 0 hashsize v,
       tn_smaller = slice hashsize hashsize v,
       tn_larger = slice (2 * hashsize) hashsize v,
       tn_prefix = slice (3 * hashsize) hashsize v,
       tn_hasChildren = (flags AND HAS_CHILDREN = HAS_CHILDREN),
       tn_hasParent = (flags AND HAS_PARENT = HAS_PARENT),
       tn_prefix_mask = v ! (4 * hashsize),
       tn_dirty = (flags AND DIRTY = DIRTY)\<rparr>)"

section \<open>Construction, saving and loading\<close>

definition new_node :: "trie_env \<Rightarrow> bytes \<Rightarrow> trie_node" where
  "new_node env hash =
     \<lparr>tn_hash = hash, tn_parent = te_junk env, tn_smaller = te_junk env,
      tn_larger = te_junk env, tn_prefix = hash,
      tn_hasChildren = False, tn_hasParent = False,
      tn_prefix_mask = word_of_nat (8 * te_size env), tn_dirty = False\<rparr>"

definition load_node :: "trie_env \<Rightarrow> bytes \<Rightarrow> trie_node nprog" where
  "load_node env hash = (\<lambda>s.
     case storage_get s hash of
       Some result \<Rightarrow> (Inr (unmarshall env hash result), s)
     | None \<Rightarrow> (Inl TrieNodeNotFoundException, s))"

definition toDb :: "trie_env \<Rightarrow> trie_node \<Rightarrow> bool nprog" where
  "toDb env n = (\<lambda>s. (Inr True, storage_put s (tn_hash n) (marshall env n)))"

definition deleteFromDb :: "trie_node \<Rightarrow> bool nprog" where
  "deleteFromDb n = (\<lambda>s.
     case storage_del s (tn_hash n) of Inl e \<Rightarrow> (Inl e, s) | Inr s' \<Rightarrow> (Inr True, s'))"

definition getSmaller :: "trie_env \<Rightarrow> trie_node \<Rightarrow> trie_node nprog" where
  "getSmaller env n =
     (if tn_hasChildren n then load_node env (tn_smaller n)
      else throw (DbTrieException ''THERE ARE NO CHILDREN''))"

definition getLarger :: "trie_env \<Rightarrow> trie_node \<Rightarrow> trie_node nprog" where
  "getLarger env n =
     (if tn_hasChildren n then load_node env (tn_larger n)
      else throw (DbTrieException ''THERE ARE NO CHILDREN''))"

definition getParent :: "trie_env \<Rightarrow> trie_node \<Rightarrow> trie_node nprog" where
  "getParent env n =
     (if tn_hasParent n then load_node env (tn_parent n)
      else throw (DbTrieException ''THERE IS NO PARENT''))"

section \<open>Prefixes\<close>

definition similar :: "trie_node \<Rightarrow> trie_node \<Rightarrow> bool" where
  "similar this node =
     list_all (\<lambda>i. BITTEST (tn_prefix this) i = BITTEST (tn_prefix node) i)
       [0..<unat (tn_prefix_mask this)]"

text \<open>
  The loop of \<^verbatim>\<open>commonPrefixSize\<close> counts in a \<^verbatim>\<open>uint8_t\<close>, so with digests of 32 bytes
  or more it would not stop on equal prefixes.
\<close>

partial_function (option) commonPrefix_loop ::
    "nat \<Rightarrow> bytes \<Rightarrow> bytes \<Rightarrow> u8 \<Rightarrow> u8 \<Rightarrow> u8 option" where
  "commonPrefix_loop h p q i common =
     (if unat i < 8 * h
      then (if BITTEST p (unat i) \<noteq> BITTEST q (unat i) then Some common
            else commonPrefix_loop h p q (i + 1) (common + 1))
      else Some common)"

definition commonPrefixSize :: "trie_env \<Rightarrow> trie_node \<Rightarrow> trie_node \<Rightarrow> u8 option" where
  "commonPrefixSize env this other =
     commonPrefix_loop (te_size env) (tn_prefix this) (tn_prefix other) 0 0"

definition isSmaller :: "trie_env \<Rightarrow> trie_node \<Rightarrow> trie_node \<Rightarrow> bool" where
  "isSmaller env this smaller =
     (if unat (tn_prefix_mask this) = 8 * te_size env then False
      else \<not> BITTEST (tn_prefix smaller) (unat (tn_prefix_mask this)))"

definition isLarger :: "trie_env \<Rightarrow> trie_node \<Rightarrow> trie_node \<Rightarrow> bool" where
  "isLarger env this larger =
     (if unat (tn_prefix_mask this) = 8 * te_size env then False
      else BITTEST (tn_prefix larger) (unat (tn_prefix_mask this)))"

section \<open>Links and hashes\<close>

definition setChildren :: "trie_node \<Rightarrow> trie_node \<Rightarrow> trie_node \<Rightarrow> trie_node" where
  "setChildren this smaller larger =
     this\<lparr>tn_hasChildren := True, tn_smaller := tn_hash smaller, tn_larger := tn_hash larger,
          tn_dirty := True\<rparr>"

definition setParent :: "trie_node \<Rightarrow> trie_node \<Rightarrow> trie_node" where
  "setParent this parent = this\<lparr>tn_hasParent := True, tn_parent := tn_hash parent\<rparr>"

definition setSmaller :: "trie_node \<Rightarrow> trie_node \<Rightarrow> exn + trie_node" where
  "setSmaller this smaller =
     (if \<not> tn_hasChildren this
      then Inl (DbTrieException ''ERROR this node does not have any children'')
      else Inr (this\<lparr>tn_smaller := tn_hash smaller, tn_dirty := True\<rparr>))"

definition setLarger :: "trie_node \<Rightarrow> trie_node \<Rightarrow> exn + trie_node" where
  "setLarger this larger =
     (if \<not> tn_hasChildren this
      then Inl (DbTrieException ''ERROR this node does not have any children'')
      else Inr (this\<lparr>tn_larger := tn_hash larger, tn_dirty := True\<rparr>))"

definition isEqualToSmaller :: "trie_node \<Rightarrow> trie_node \<Rightarrow> bool" where
  "isEqualToSmaller this node = (tn_hash node = tn_smaller this)"

definition isEqualToLarger :: "trie_node \<Rightarrow> trie_node \<Rightarrow> bool" where
  "isEqualToLarger this node = (tn_hash node = tn_larger this)"

definition updateHash :: "trie_env \<Rightarrow> trie_node \<Rightarrow> trie_node" where
  "updateHash env this =
     (if tn_hasChildren this
      then this\<lparr>tn_hash := te_hash env (tn_smaller this @ tn_larger this), tn_dirty := False\<rparr>
      else this)"

section \<open>Comparison\<close>

definition node_eq :: "trie_node \<Rightarrow> trie_node \<Rightarrow> bool" where
  "node_eq this other =
     (if tn_prefix_mask this \<noteq> tn_prefix_mask other then False
      else if tn_dirty this \<noteq> tn_dirty other then False
      else if tn_hasChildren this \<noteq> tn_hasChildren other then False
      else if tn_hasParent this \<noteq> tn_hasParent other then False
      else if tn_hash this \<noteq> tn_hash other then False
      else if tn_hasParent this \<and> tn_parent this \<noteq> tn_parent other then False
      else if tn_dirty this \<and> tn_smaller this \<noteq> tn_smaller other then False
      else if tn_dirty this \<and> tn_larger this \<noteq> tn_larger other then False
      else True)"

definition node_less :: "trie_env \<Rightarrow> trie_node \<Rightarrow> trie_node \<Rightarrow> bool" where
  "node_less env this other =
     (if unat (tn_prefix_mask this) = 8 * te_size env then False
      else BITTEST (tn_prefix other) (unat (tn_prefix_mask this)))"

definition node_greater :: "trie_env \<Rightarrow> trie_node \<Rightarrow> trie_node \<Rightarrow> bool" where
  "node_greater env this other =
     (if unat (tn_prefix_mask this) = 8 * te_size env then False
      else \<not> BITTEST (tn_prefix other) (unat (tn_prefix_mask this)))"

section \<open>The root entry\<close>

text \<open>The key \<^verbatim>\<open>"root"\<close> of the storage holds the hash of the root node.\<close>

definition root_name :: bytes where
  "root_name = [0x72, 0x6F, 0x6F, 0x74]"

definition root_get :: "trie_env \<Rightarrow> trie_node nprog" where
  "root_get env = (\<lambda>s.
     case storage_get s root_name of
       Some rootHash \<Rightarrow>
         (if length rootHash \<noteq> te_size env
          then (Inl (TrieException ''wrong root key size''), s)
          else load_node env rootHash s)
     | None \<Rightarrow> (Inl TrieRootNotFoundException, s))"

definition root_set :: "bytes \<Rightarrow> unit nprog" where
  "root_set hash = (\<lambda>s. (Inr (), storage_put s root_name hash))"

definition root_del :: "unit nprog" where
  "root_del = (\<lambda>s. case storage_del s root_name of Inl e \<Rightarrow> (Inl e, s) | Inr s' \<Rightarrow> (Inr (), s'))"

section \<open>Lemmas\<close>

text \<open>A node whose hash fields all have the digest's size: what marshalling preserves.\<close>

definition node_sized :: "trie_env \<Rightarrow> trie_node \<Rightarrow> bool" where
  "node_sized env n \<longleftrightarrow>
     length (tn_hash n) = te_size env \<and> length (tn_parent n) = te_size env \<and>
     length (tn_smaller n) = te_size env \<and> length (tn_larger n) = te_size env \<and>
     length (tn_prefix n) = te_size env"

lemma flags_roundtrip:
  "getFlags n AND HAS_CHILDREN = HAS_CHILDREN \<longleftrightarrow> tn_hasChildren n"
  "getFlags n AND HAS_PARENT = HAS_PARENT \<longleftrightarrow> tn_hasParent n"
  "getFlags n AND DIRTY = DIRTY \<longleftrightarrow> tn_dirty n"
  by (simp_all add: getFlags_def HAS_CHILDREN_def HAS_PARENT_def DIRTY_def)

lemma length_marshall: "node_sized env n \<Longrightarrow> length (marshall env n) = getMarshallBufferSize env"
  by (simp add: marshall_def node_sized_def getMarshallBufferSize_def Let_def)

lemma unmarshall_marshall:
  "node_sized env n \<Longrightarrow> unmarshall env (tn_hash n) (marshall env n) = n"
  by (rule trie_node.equality)
    (simp_all add: marshall_def unmarshall_def node_sized_def Let_def bytes_simps nth_append
      flags_roundtrip)

text \<open>The loop returns, and returns the first differing bit, whenever it can stop in a byte.\<close>

lemma commonPrefix_loop_from:
  assumes "first_diff h p q < 256" and "first_diff h p q < 8 * h \<or> 8 * h < 256"
  shows "d + i = first_diff h p q \<Longrightarrow>
    commonPrefix_loop h p q (word_of_nat i) (word_of_nat i) = Some (word_of_nat (first_diff h p q))"
proof (induction d arbitrary: i)
  case 0
  then have i: "unat (word_of_nat i :: u8) = i" using assms(1) by (intro unat_of_nat_small) simp
  have "\<not> i < 8 * h \<or> BITTEST p i \<noteq> BITTEST q i" using 0 first_diff_bit [of h p q] by auto
  with i 0 show ?case by (subst commonPrefix_loop.simps) auto
next
  case (Suc d)
  then have "i < first_diff h p q" by simp
  moreover have "first_diff h p q \<le> 8 * h"
    unfolding first_diff_def by (rule takeWhile_upt_length_le)
  ultimately have i: "unat (word_of_nat i :: u8) = i" "i < 8 * h" "BITTEST p i = BITTEST q i"
    using assms(1) first_diff_agree [of h p q] by (simp_all add: unat_of_nat_small agree_iff)
  have "commonPrefix_loop h p q (word_of_nat (Suc i)) (word_of_nat (Suc i)) =
      Some (word_of_nat (first_diff h p q))"
    using Suc.prems by (intro Suc.IH) simp
  with i show ?case by (subst commonPrefix_loop.simps) (simp add: add.commute)
qed

lemma commonPrefixSize_eq:
  assumes "first_diff (te_size env) (tn_prefix a) (tn_prefix b) < 256"
    and "first_diff (te_size env) (tn_prefix a) (tn_prefix b) < 8 * te_size env \<or> 8 * te_size env < 256"
  shows "commonPrefixSize env a b =
    Some (word_of_nat (first_diff (te_size env) (tn_prefix a) (tn_prefix b)))"
  using commonPrefix_loop_from [OF assms, of _ 0] by (simp add: commonPrefixSize_def)

section \<open>The node view of the storage\<close>

text \<open>\<open>nodes env s\<close> reads the storage as a map from hashes to nodes.\<close>

definition nodes :: "trie_env \<Rightarrow> kvstore \<Rightarrow> bytes \<rightharpoonup> trie_node" where
  "nodes env s = (\<lambda>k. map_option (unmarshall env k) (storage_get s k))"

definition put_node :: "trie_env \<Rightarrow> trie_node \<Rightarrow> kvstore \<Rightarrow> kvstore" where
  "put_node env n s = storage_put s (tn_hash n) (marshall env n)"

lemma load_node_Some [wp_simps]: "nodes env s k = Some n \<Longrightarrow> load_node env k s = (Inr n, s)"
  by (auto simp: nodes_def load_node_def)

lemma load_node_None [wp_simps]:
  "nodes env s k = None \<Longrightarrow> load_node env k s = (Inl TrieNodeNotFoundException, s)"
  by (auto simp: nodes_def load_node_def)

lemma toDb_run [wp_simps]: "toDb env n s = (Inr True, put_node env n s)"
  by (simp add: toDb_def put_node_def)

lemma root_set_run [wp_simps]: "root_set h s = (Inr (), storage_put s root_name h)"
  by (simp add: root_set_def)

lemma nodes_put_node [simp]:
  "node_sized env n \<Longrightarrow> nodes env (put_node env n s) = (nodes env s)(tn_hash n \<mapsto> n)"
  by (auto simp: nodes_def put_node_def kv.get_put unmarshall_marshall fun_eq_iff)

lemma nodes_put_other [simp]:
  "length k \<noteq> length k' \<Longrightarrow> nodes env (storage_put s k v) k' = nodes env s k'"
  by (auto simp: nodes_def kv.get_put)

lemma get_put_node [simp]:
  "k \<noteq> tn_hash n \<Longrightarrow> storage_get (put_node env n s) k = storage_get s k"
  by (simp add: put_node_def kv.get_put)

lemma kv_strict_put_node [simp]: "kv_strict (put_node env n s) = kv_strict s"
  by (simp add: put_node_def)

lemma deleteFromDb_run:
  assumes "nodes env s (tn_hash n) \<noteq> None"
  shows "\<exists>s'. deleteFromDb n s = (Inr True, s') \<and> storage_get s' = (storage_get s)(tn_hash n := None)"
proof -
  have "storage_get s (tn_hash n) \<noteq> None" using assms by (auto simp: nodes_def)
  then obtain s' where "storage_del s (tn_hash n) = Inr s'"
    "storage_get s' = (storage_get s)(tn_hash n := None)" using kv.del_result by blast
  then show ?thesis by (simp add: deleteFromDb_def)
qed

lemma nodes_upd_None: "storage_get s' = (storage_get s)(k := None) \<Longrightarrow> nodes env s' = (nodes env s)(k := None)"
  by (auto simp: nodes_def fun_eq_iff)

end
