(* ===== verification/TrieOps.thy ===== *)
theory TrieOps
  imports TrieNode
begin

text \<open>
  \<^verbatim>\<open>TrieNode::insert\<close> and \<^verbatim>\<open>TrieNode::erase\<close>, statement by statement.  The descent of
  \<^verbatim>\<open>insert\<close> and the two \<^verbatim>\<open>while (...hasParent_)\<close> loops follow links in the storage, so
  they are given the bound \<open>loop_fuel\<close>: the prefix length is a \<^verbatim>\<open>uint8_t\<close> that grows on every
  way down, so no path of a well-formed trie has more than 256 nodes (proved in
  \<open>KeyValueTrie\<close>, where the bound is shown never to be reached).
\<close>

definition loop_fuel :: nat where
  "loop_fuel = 257"

fun delete_nodes :: "trie_node list \<Rightarrow> unit nprog" where
  "delete_nodes [] = ret ()"
| "delete_nodes (d # ds) = bindE (deleteFromDb d) (\<lambda>_. delete_nodes ds)"

section \<open>Insertion\<close>

text \<open>
  The loop that rebuilds the ancestors: \<open>oldchild\<close> and \<open>child\<close> are the same position before
  and after the change; the result is the hash of the new root and the replaced nodes.
\<close>

fun insert_up :: "trie_env \<Rightarrow> nat \<Rightarrow> trie_node \<Rightarrow> trie_node \<Rightarrow> bytes \<Rightarrow> trie_node list \<Rightarrow>
    (bytes \<times> trie_node list) nprog" where
  "insert_up env 0 oldchild child roothash toBeDeleted = throw OutOfFuel"
| "insert_up env (Suc fuel) oldchild child roothash toBeDeleted =
     (if tn_hasParent oldchild then
        bindE (getParent env oldchild) (\<lambda>oldparent.
        bindE (getLarger env oldparent) (\<lambda>otherchild.
        bindE (if isEqualToSmaller oldparent oldchild then
                 bindE (liftE (setSmaller oldparent child)) (\<lambda>parent. ret (otherchild, parent))
               else if isEqualToLarger oldparent oldchild then
                 bindE (getSmaller env oldparent) (\<lambda>otherchild.
                 bindE (liftE (setLarger oldparent child)) (\<lambda>parent. ret (otherchild, parent)))
               else throw (DbTrieException ''Child hasn't been correct child of parent''))
        (\<lambda>(otherchild, parent).
          let parent = updateHash env parent;
              otherchild = setParent otherchild parent;
              child = setParent child parent;
              roothash = (if \<not> tn_hasParent parent then tn_hash parent else roothash)
          in bindE (toDb env otherchild) (\<lambda>_.
             bindE (toDb env child) (\<lambda>_.
             bindE (toDb env parent) (\<lambda>_.
             insert_up env fuel oldparent parent roothash (toBeDeleted @ [oldparent])))))))
      else ret (roothash, toBeDeleted))"

text \<open>The part of \<^verbatim>\<open>insert\<close> after the descent: the node is split.\<close>

definition node_split :: "trie_env \<Rightarrow> trie_node \<Rightarrow> trie_node \<Rightarrow> bool \<Rightarrow> bool nprog" where
  "node_split env this node performHash =
     (case commonPrefixSize env this node of
        None \<Rightarrow> throw OutOfFuel
      | Some common \<Rightarrow>
     (let intermediate = this\<lparr>tn_prefix_mask := common\<rparr>;
          oldnode = this
      in bindE (if isLarger env intermediate node then ret (setChildren intermediate oldnode node)
                else if isSmaller env intermediate node then ret (setChildren intermediate node oldnode)
                else throw (DbTrieException ''ERROR''))
         (\<lambda>intermediate.
            let intermediate = updateHash env intermediate;
                node = setParent node intermediate;
                oldnode = setParent oldnode intermediate
            in bindE (toDb env node) (\<lambda>_.
               bindE (toDb env oldnode) (\<lambda>_.
               bindE (if \<not> tn_hasParent intermediate then toDb env intermediate else ret True) (\<lambda>_.
               if performHash then
                 bindE (insert_up env loop_fuel this intermediate (tn_hash intermediate) [])
                   (\<lambda>(roothash, toBeDeleted).
                 bindE (root_set roothash) (\<lambda>_.
                 bindE (delete_nodes toBeDeleted) (\<lambda>_. ret True)))
               else
                 bindE (if tn_hasParent intermediate then
                          bindE (getParent env intermediate) (\<lambda>parent.
                          let parent = parent\<lparr>tn_dirty := True\<rparr> in
                          bindE (if isEqualToSmaller parent oldnode then
                                   liftE (setSmaller parent intermediate)
                                 else if isEqualToLarger parent oldnode then
                                   liftE (setLarger parent intermediate)
                                 else throw (DbTrieException ''Old Node hasn't been correct child''))
                          (\<lambda>parent. bindE (toDb env parent) (\<lambda>_. ret ())))
                        else root_set (tn_hash intermediate)) (\<lambda>_.
                 bindE (toDb env intermediate) (\<lambda>_. ret True))))))))"

fun node_insert :: "trie_env \<Rightarrow> nat \<Rightarrow> trie_node \<Rightarrow> trie_node \<Rightarrow> bool \<Rightarrow> bool nprog" where
  "node_insert env 0 this node performHash = throw OutOfFuel"
| "node_insert env (Suc fuel) this node performHash =
     (if similar this node then
        (if isLarger env this node then
           bindE (getLarger env this) (\<lambda>c. node_insert env fuel c node performHash)
         else if isSmaller env this node then
           bindE (getSmaller env this) (\<lambda>c. node_insert env fuel c node performHash)
         else if unat (tn_prefix_mask this) = 8 * te_size env then ret False
         else throw (DbTrieException ''Missing Child!''))
      else node_split env this node performHash)"

definition insert_hash :: "trie_env \<Rightarrow> trie_node \<Rightarrow> bytes \<Rightarrow> bool \<Rightarrow> bool nprog" where
  "insert_hash env this hash performHash =
     node_insert env loop_fuel this (new_node env hash) performHash"

section \<open>Erasure\<close>

fun erase_up :: "trie_env \<Rightarrow> nat \<Rightarrow> trie_node \<Rightarrow> trie_node \<Rightarrow> trie_node list \<Rightarrow>
    (trie_node \<times> trie_node list) nprog" where
  "erase_up env 0 oldgrandparent newgrandparent oldnodes = throw OutOfFuel"
| "erase_up env (Suc fuel) oldgrandparent newgrandparent oldnodes =
     (if tn_hasParent oldgrandparent then
        bindE (getParent env oldgrandparent) (\<lambda>oldgrandgrandparent.
        bindE (if isEqualToLarger oldgrandgrandparent oldgrandparent then
                 bindE (liftE (setLarger oldgrandgrandparent newgrandparent)) (\<lambda>newgrandgrandparent.
                 bindE (getSmaller env oldgrandgrandparent) (\<lambda>otherchild.
                 ret (newgrandgrandparent, otherchild)))
               else if isEqualToSmaller oldgrandgrandparent oldgrandparent then
                 bindE (liftE (setSmaller oldgrandgrandparent newgrandparent)) (\<lambda>newgrandgrandparent.
                 bindE (getLarger env oldgrandgrandparent) (\<lambda>otherchild.
                 ret (newgrandgrandparent, otherchild)))
               else throw (DbTrieException ''a old grandparent hasn't been child of a old grandgrandparent''))
        (\<lambda>(newgrandgrandparent, otherchild).
          let newgrandgrandparent = updateHash env newgrandgrandparent;
              newgrandparent = setParent newgrandparent newgrandgrandparent;
              otherchild = setParent otherchild newgrandgrandparent
          in bindE (toDb env newgrandgrandparent) (\<lambda>_.
             bindE (toDb env newgrandparent) (\<lambda>_.
             bindE (toDb env otherchild) (\<lambda>_.
             erase_up env fuel oldgrandgrandparent newgrandgrandparent
               (oldnodes @ [oldgrandgrandparent]))))))
      else ret (newgrandparent, oldnodes))"

text \<open>The node has a parent, and the parent is the root: the other child becomes the root.\<close>

definition erase_below_root :: "trie_env \<Rightarrow> trie_node \<Rightarrow> trie_node \<Rightarrow> unit nprog" where
  "erase_below_root env toBeDeleted parent =
     bindE (if isEqualToLarger parent toBeDeleted then getSmaller env parent
            else getLarger env parent) (\<lambda>childOfParent.
     let childOfParent = childOfParent\<lparr>tn_hasParent := False\<rparr> in
     bindE (toDb env childOfParent) (\<lambda>_.
     bindE (root_set (tn_hash childOfParent)) (\<lambda>_.
     bindE (deleteFromDb parent) (\<lambda>_.
     bindE (deleteFromDb toBeDeleted) (\<lambda>_. ret ())))))"

text \<open>The node has a grandparent: the node and its parent go, the grandparent is rebuilt.\<close>

definition erase_deep :: "trie_env \<Rightarrow> trie_node \<Rightarrow> trie_node \<Rightarrow> bool \<Rightarrow> unit nprog" where
  "erase_deep env toBeDeleted parent performHash =
     bindE (getParent env parent) (\<lambda>oldgrandparent.
     bindE (if isEqualToLarger parent toBeDeleted then getSmaller env parent
            else if isEqualToSmaller parent toBeDeleted then getLarger env parent
            else throw (DbTrieException ''Parent has wrong children'')) (\<lambda>childOfParent.
     bindE (if isEqualToLarger oldgrandparent parent then
              bindE (getSmaller env oldgrandparent) (\<lambda>childOfGrandParent.
              bindE (liftE (setLarger oldgrandparent childOfParent)) (\<lambda>newgrandparent.
              ret (childOfGrandParent, newgrandparent)))
            else if isEqualToSmaller oldgrandparent parent then
              bindE (getLarger env oldgrandparent) (\<lambda>childOfGrandParent.
              bindE (liftE (setSmaller oldgrandparent childOfParent)) (\<lambda>newgrandparent.
              ret (childOfGrandParent, newgrandparent)))
            else throw (DbTrieException ''Grandparent has wrong children''))
     (\<lambda>(childOfGrandParent, newgrandparent).
       let newgrandparent = updateHash env newgrandparent;
           childOfParent = setParent childOfParent newgrandparent;
           childOfGrandParent = setParent childOfGrandParent newgrandparent;
           oldnodes = [parent, toBeDeleted]
       in bindE (toDb env newgrandparent) (\<lambda>_.
          bindE (toDb env childOfParent) (\<lambda>_.
          bindE (toDb env childOfGrandParent) (\<lambda>_.
          bindE (if \<not> tn_hasParent oldgrandparent then
                   bindE (root_set (tn_hash newgrandparent)) (\<lambda>_. ret (oldnodes @ [oldgrandparent]))
                 else if performHash then
                   bindE (erase_up env loop_fuel oldgrandparent newgrandparent (oldnodes @ [oldgrandparent]))
                     (\<lambda>(newgrandparent, oldnodes).
                   bindE (root_set (tn_hash newgrandparent)) (\<lambda>_. ret oldnodes))
                 else
                   bindE (getParent env oldgrandparent) (\<lambda>oldgrandgrandparent.
                   bindE (if isEqualToLarger oldgrandgrandparent oldgrandparent then
                            liftE (setLarger oldgrandgrandparent newgrandparent)
                          else if isEqualToSmaller oldgrandgrandparent oldgrandparent then
                            liftE (setSmaller oldgrandgrandparent newgrandparent)
                          else throw (DbTrieException ''grandparent hasn't been child of grandgrandparent''))
                   (\<lambda>oldgrandgrandparent.
                   bindE (toDb env oldgrandgrandparent) (\<lambda>_. ret (oldnodes @ [oldgrandparent])))))
          (\<lambda>oldnodes. delete_nodes oldnodes)))))))"

definition erase_hash :: "trie_env \<Rightarrow> bytes \<Rightarrow> bool \<Rightarrow> bool nprog" where
  "erase_hash env hash performHash =
     catchE
       (bindE (load_node env hash) (\<lambda>toBeDeleted.
        if tn_hasChildren toBeDeleted then throw (DbTrieException ''This node is not a leaf'')
        else
          bindE (if \<not> tn_hasParent toBeDeleted then
                   bindE root_del (\<lambda>_. bindE (deleteFromDb toBeDeleted) (\<lambda>_. ret ()))
                 else
                   bindE (getParent env toBeDeleted) (\<lambda>parent.
                   if \<not> tn_hasParent parent then erase_below_root env toBeDeleted parent
                   else erase_deep env toBeDeleted parent performHash))
          (\<lambda>_. ret True)))
       (\<lambda>e. if e = TrieNodeNotFoundException then ret False else throw e)"

end
