(* ===== verification/TrieRep.thy ===== *)
theory TrieRep
  imports TrieOps
begin

text \<open>
  What it means for a storage to hold a Patricia tree: every subtree's node is stored under
  its hash, with the hash of its parent (\<open>rep\<close>), and the same for everything outside one
  subtree (\<open>crep\<close>).  \<open>trie_hash\<close> is what the trie needs of its hash function: the interface
  \<open>crypto_hash\<close>, digests short enough for the \<^verbatim>\<open>uint8_t\<close> prefix length, and of a size that
  keeps node keys apart from the entries \<^verbatim>\<open>"root"\<close> and \<^verbatim>\<open>"triesize"\<close>.
\<close>

locale trie_hash = crypto_hash "te_hash env" "te_size env" for env :: trie_env +
  assumes size_byte: "8 * te_size env < 256"
    and size_not_root: "te_size env \<noteq> 4"
    and size_not_triesize: "te_size env \<noteq> 8"
    and size_pos: "0 < te_size env"
    and junk_size: "length (te_junk env) = te_size env"

abbreviation th :: "trie_env \<Rightarrow> ptree \<Rightarrow> bytes" where
  "th env \<equiv> thash (te_hash env)"

fun node_core :: "trie_env \<Rightarrow> ptree \<Rightarrow> trie_node \<Rightarrow> bool" where
  "node_core env (Tip k) n \<longleftrightarrow>
     node_sized env n \<and> \<not> tn_dirty n \<and> tn_hash n = k \<and> \<not> tn_hasChildren n \<and>
     unat (tn_prefix_mask n) = 8 * te_size env \<and> tn_prefix n = k"
| "node_core env (Bin m l r) n \<longleftrightarrow>
     node_sized env n \<and> \<not> tn_dirty n \<and> tn_hash n = th env (Bin m l r) \<and> tn_hasChildren n \<and>
     tn_smaller n = th env l \<and> tn_larger n = th env r \<and>
     unat (tn_prefix_mask n) = m \<and> (\<forall>k \<in> keys (Bin m l r). agree m (tn_prefix n) k)"

fun parent_is :: "bytes option \<Rightarrow> trie_node \<Rightarrow> bool" where
  "parent_is None n = (\<not> tn_hasParent n)"
| "parent_is (Some p) n = (tn_hasParent n \<and> tn_parent n = p)"

definition nodeat :: "trie_env \<Rightarrow> (bytes \<rightharpoonup> trie_node) \<Rightarrow> bytes option \<Rightarrow> ptree \<Rightarrow> bool" where
  "nodeat env N q u \<longleftrightarrow> (\<exists>n. N (th env u) = Some n \<and> node_core env u n \<and> parent_is q n)"

fun rep :: "trie_env \<Rightarrow> (bytes \<rightharpoonup> trie_node) \<Rightarrow> bytes option \<Rightarrow> ptree \<Rightarrow> bool" where
  "rep env N q (Tip k) = nodeat env N q (Tip k)"
| "rep env N q (Bin m l r) \<longleftrightarrow>
     nodeat env N q (Bin m l r) \<and> rep env N (Some (th env (Bin m l r))) l \<and>
     rep env N (Some (th env (Bin m l r))) r"

text \<open>Everything below the root of the subtree.\<close>

fun srep :: "trie_env \<Rightarrow> (bytes \<rightharpoonup> trie_node) \<Rightarrow> ptree \<Rightarrow> bool" where
  "srep env N (Tip k) = True"
| "srep env N (Bin m l r) \<longleftrightarrow>
     rep env N (Some (th env (Bin m l r))) l \<and> rep env N (Some (th env (Bin m l r))) r"

fun parent_of :: "trie_env \<Rightarrow> tctx \<Rightarrow> ptree \<Rightarrow> bytes option" where
  "parent_of env [] s = None"
| "parent_of env ((m, d, b) # c) s = Some (th env (mk m d s b))"

fun crep :: "trie_env \<Rightarrow> (bytes \<rightharpoonup> trie_node) \<Rightarrow> tctx \<Rightarrow> ptree \<Rightarrow> bool" where
  "crep env N [] s = True"
| "crep env N ((m, d, b) # c) s \<longleftrightarrow>
     (let a = mk m d s b in
      nodeat env N (parent_of env c a) a \<and> rep env N (Some (th env a)) b \<and> crep env N c a)"

section \<open>Framing\<close>

lemma rep_split: "rep env N q t \<longleftrightarrow> nodeat env N q t \<and> srep env N t"
  by (cases t) auto

lemma nodeat_cong: "N (th env u) = N' (th env u) \<Longrightarrow> nodeat env N q u = nodeat env N' q u"
  by (simp add: nodeat_def)

lemma rep_frame:
  "\<forall>u \<in> set (subs t). N (th env u) = N' (th env u) \<Longrightarrow> rep env N q t = rep env N' q t"
proof (induction t arbitrary: q)
  case (Tip k)
  then show ?case using nodeat_cong [of N env "Tip k" N'] by simp
next
  case (Bin m l r)
  then have "rep env N p l = rep env N' p l" "rep env N p r = rep env N' p r" for p by simp_all
  moreover have "nodeat env N q (Bin m l r) = nodeat env N' q (Bin m l r)"
    using Bin.prems by (intro nodeat_cong) simp
  ultimately show ?case by simp
qed

lemma crep_frame:
  "\<forall>u \<in> set (ancs c s) \<union> set (sibs c). N (th env u) = N' (th env u) \<Longrightarrow>
   crep env N c s = crep env N' c s"
proof (induction c arbitrary: s)
  case (Cons x c)
  obtain m d b where x: "x = (m, d, b)" by (cases x)
  let ?a = "mk m d s b"
  from Cons.prems x have "rep env N q b = rep env N' q b" for q by (intro rep_frame) simp
  moreover have "crep env N c ?a = crep env N' c ?a"
    using Cons.prems unfolding x by (intro Cons.IH) auto
  moreover from Cons.prems x have "nodeat env N q ?a = nodeat env N' q ?a" for q
    by (intro nodeat_cong) simp
  ultimately show ?case by (simp add: x Let_def)
qed simp

lemma rep_plug: "rep env N None (plug c s) \<longleftrightarrow> crep env N c s \<and> rep env N (parent_of env c s) s"
proof (induction c arbitrary: s)
  case (Cons x c)
  obtain m d b where x: "x = (m, d, b)" by (cases x)
  show ?case unfolding x using Cons.IH [of "mk m d s b"]
    by (auto simp: Let_def mk_def split: if_splits)
qed simp

lemma node_core_hash: "node_core env u n \<Longrightarrow> tn_hash n = th env u"
  by (cases u) auto

lemma node_core_sized: "node_core env u n \<Longrightarrow> node_sized env n"
  by (cases u) auto

lemma node_core_parent_upd:
  "node_core env u n \<Longrightarrow> length p = te_size env \<Longrightarrow>
   node_core env u (n\<lparr>tn_hasParent := hp, tn_parent := p\<rparr>)"
  by (cases u) (auto simp: node_sized_def)

lemma node_core_setParentI:
  "node_core env u n \<Longrightarrow> length (tn_hash p) = te_size env \<Longrightarrow> node_core env u (setParent n p)"
  unfolding setParent_def by (rule node_core_parent_upd)

lemma parent_is_setParent [simp]: "parent_is (Some (tn_hash p)) (setParent n p)"
  by (simp add: setParent_def)

lemma setParent_simps [simp]:
  "tn_hash (setParent n p) = tn_hash n" "tn_hasParent (setParent n p)" "tn_parent (setParent n p) = tn_hash p"
  "tn_hasChildren (setParent n p) = tn_hasChildren n"
  by (simp_all add: setParent_def)

text \<open>Giving the root of a represented subtree a new parent.\<close>

lemma srep_frame:
  assumes "\<forall>u \<in> set (tl (subs t)). N (th env u) = N' (th env u)"
  shows "srep env N t = srep env N' t"
proof (cases t)
  case (Bin m l r)
  with assms have "rep env N q l = rep env N' q l" "rep env N q r = rep env N' q r" for q
    by (auto intro!: rep_frame)
  with Bin show ?thesis by simp
qed simp

lemma subs_Cons: "subs t = t # tl (subs t)"
  by (cases t) auto

lemma rep_reparent:
  assumes "srep env N b" "node_core env b nb" "parent_is q nb"
    and "distinct (map (th env) (subs b))"
  shows "rep env (N(th env b \<mapsto> nb)) q b"
proof -
  have "distinct (map (th env) (b # tl (subs b)))" using assms(4) subs_Cons [of b] by simp
  then have "th env b \<notin> th env ` set (tl (subs b))" by simp
  then have "th env u \<noteq> th env b" if "u \<in> set (tl (subs b))" for u using that by (metis imageI)
  then have "\<forall>u \<in> set (tl (subs b)). N (th env u) = (N(th env b \<mapsto> nb)) (th env u)" by simp
  with assms(1) have "srep env (N(th env b \<mapsto> nb)) b" using srep_frame by blast
  with assms(2,3) show ?thesis by (auto simp: rep_split nodeat_def)
qed

section \<open>One step upwards\<close>

text \<open>
  \<open>sep env c s s'\<close>: in the tree where \<open>s\<close> is replaced by \<open>s'\<close> all nodes have different
  hashes, and none has the hash of a replaced ancestor.
\<close>

definition new_subs :: "tctx \<Rightarrow> ptree \<Rightarrow> ptree list" where
  "new_subs c s' = subs s' @ ancs c s' @ sibs c"

definition sep :: "trie_env \<Rightarrow> tctx \<Rightarrow> ptree \<Rightarrow> ptree \<Rightarrow> bool" where
  "sep env c s s' \<longleftrightarrow> distinct (map (th env) (new_subs c s')) \<and>
     (\<forall>a \<in> set (ancs c s). \<forall>u \<in> set (new_subs c s'). th env a \<noteq> th env u)"

lemma set_new_subs: "set (new_subs c s) = set (subs (plug c s))"
  by (auto simp: new_subs_def set_subs_plug)

lemma mset_new_subs_step:
  "mset (new_subs ((m, d, b) # c) s) = mset (new_subs c (mk m d s b))"
  by (auto simp: new_subs_def mk_def)

lemma distinct_map_mset: "mset xs = mset ys \<Longrightarrow> distinct (map f xs) = distinct (map f ys)"
  by (metis mset_eq_imp_distinct_iff mset_map)

lemma sep_step: "sep env ((m, d, b) # c) s s' \<Longrightarrow> sep env c (mk m d s b) (mk m d s' b)"
  unfolding sep_def
  using distinct_map_mset [OF mset_new_subs_step [of m d b c s'], of "th env"]
    mset_eq_setD [OF mset_new_subs_step [of m d b c s']]
  by simp

text \<open>The rebuilt parent: a copy of the old one with one link and the hash replaced.\<close>

definition rebuilt :: "trie_env \<Rightarrow> bool \<Rightarrow> trie_node \<Rightarrow> trie_node \<Rightarrow> trie_node" where
  "rebuilt env d oldparent child =
     updateHash env (if d then oldparent\<lparr>tn_larger := tn_hash child, tn_dirty := True\<rparr>
                     else oldparent\<lparr>tn_smaller := tn_hash child, tn_dirty := True\<rparr>)"

lemma rebuilt_parent [simp]:
  "parent_is q (rebuilt env d op ch) = parent_is q op" "tn_hasParent (rebuilt env d op ch) = tn_hasParent op"
  by (cases q) (auto simp: rebuilt_def updateHash_def)

text \<open>Hashes of different parts of the new tree differ.\<close>

lemma distinct_map_appendD:
  assumes "distinct (map f (xs @ ys))" "u \<in> set xs" "v \<in> set ys"
  shows "f u \<noteq> f v"
proof
  assume eq: "f u = f v"
  have "f u \<in> f ` set xs" using assms(2) by (rule imageI)
  moreover have "f u \<in> f ` set ys" unfolding eq using assms(3) by (rule imageI)
  ultimately have "f u \<in> f ` set xs \<inter> f ` set ys" by (rule IntI)
  moreover have "f ` set xs \<inter> f ` set ys = {}" using assms(1) by simp
  ultimately show False by simp
qed

lemma distinct_map_parts:
  assumes d: "distinct (map f (xs @ a # ys @ bs @ cs))"
  shows "u \<in> set xs \<Longrightarrow> v \<in> set (a # bs @ cs) \<Longrightarrow> f u \<noteq> f v"
    and "u \<in> set bs \<Longrightarrow> v \<in> set (a # cs) \<Longrightarrow> f u \<noteq> f v"
    and "u \<in> set cs \<Longrightarrow> f u \<noteq> f a"
proof -
  show "f u \<noteq> f v" if "u \<in> set xs" "v \<in> set (a # bs @ cs)" for u v
    by (rule distinct_map_appendD [OF d]) (use that in auto)
  have d2: "distinct (map f ([a] @ ys @ bs @ cs))" "distinct (map f (bs @ cs))" using d by simp_all
  have a: "f a \<noteq> f u" if "u \<in> set bs \<union> set cs" for u
    by (rule distinct_map_appendD [OF d2(1)]) (use that in auto)
  show "f u \<noteq> f v" if "u \<in> set bs" "v \<in> set (a # cs)" for u v
  proof (cases "v = a")
    case True
    then show ?thesis using a [of u] that(1) by (metis UnI1)
  next
    case False
    with that show ?thesis by (intro distinct_map_appendD [OF d2(2)]) simp_all
  qed
  show "f u \<noteq> f a" if "u \<in> set cs" for u
    using a [of u] that by (metis UnI2)
qed

context trie_hash
begin

lemma node_core_rebuilt:
  assumes "node_core env (mk m d s b) op" and ch: "node_core env s' ch"
    and wf': "wf_tree (te_size env) (mk m d s' b)"
  shows "node_core env (mk m d s' b) (rebuilt env d op ch)"
proof -
  have pre: "agree m (tn_prefix op) (akey b)"
    using assms(1) by (auto simp: mk_def split: if_splits)
  have "agree m (akey b) k" if "k \<in> keys (mk m d s' b)" for k
    using wf' that by (auto simp: mk_def wf_Bin_iff split: if_splits)
  with pre have "agree m (tn_prefix op) k" if "k \<in> keys (mk m d s' b)" for k
    using that agree_trans by blast
  with assms(1) ch wf_mkD(1) [OF wf'] show ?thesis
    by (auto simp: mk_def rebuilt_def updateHash_def node_sized_def length_H node_core_hash
        length_thash split: if_splits)
qed

text \<open>
  The storage after one round of either loop: the sibling and the new child have the rebuilt
  parent as parent, the rebuilt parent is stored.  Then one more level is represented.
\<close>

lemma rebuild_step:
  fixes N :: "bytes \<rightharpoonup> trie_node"
  assumes wf': "wf_tree (te_size env) (plug ((m, d, b) # c) s')"
    and cr: "crep env N ((m, d, b) # c) s" and sr: "srep env N s'"
    and ch: "node_core env s' ch" and sp: "sep env ((m, d, b) # c) s s'"
    and op: "N (th env (mk m d s b)) = Some op"
    and nb: "N (th env b) = Some nb"
  defines "p \<equiv> rebuilt env d op ch"
  defines "N1 \<equiv> N(th env b \<mapsto> setParent nb p, th env s' \<mapsto> setParent ch p,
    th env (mk m d s' b) \<mapsto> p)"
  shows "crep env N1 c (mk m d s b)" "srep env N1 (mk m d s' b)"
    "node_core env (mk m d s' b) p" "parent_is (parent_of env c (mk m d s b)) p"
    "N1 (th env (mk m d s' b)) = Some p"
proof -
  let ?a = "mk m d s b" and ?a' = "mk m d s' b"
  have wfa': "wf_tree (te_size env) ?a'" using wf' by (auto dest: wf_plugD)
  have na: "nodeat env N (parent_of env c ?a) ?a" and rb: "rep env N (Some (th env ?a)) b"
    and crc: "crep env N c ?a" using cr by (simp_all add: Let_def)
  from na op have opc: "node_core env ?a op" "parent_is (parent_of env c ?a) op"
    by (auto simp: nodeat_def)
  from rb nb have nbc: "node_core env b nb" by (auto simp: rep_split nodeat_def)
  show pc: "node_core env ?a' p" unfolding p_def using opc(1) ch wfa' by (rule node_core_rebuilt)
  show "parent_is (parent_of env c ?a) p" unfolding p_def using opc(2) by simp
  show "N1 (th env ?a') = Some p" by (simp add: N1_def)
  have ph: "tn_hash p = th env ?a'" "length (tn_hash p) = te_size env"
    using pc wfa' by (simp_all add: node_core_hash length_thash)
  have dist: "distinct (map (th env) (subs s' @ ?a' # ancs c ?a' @ subs b @ sibs c))"
    using sp unfolding sep_def new_subs_def by simp
  have anc: "th env x \<noteq> th env u" if "x \<in> set (ancs c ?a)" "u \<in> {?a', s', b}" for x u
    using sp that unfolding sep_def new_subs_def by auto
  note d_s' = distinct_map_parts(1) [OF dist] and d_b = distinct_map_parts(2) [OF dist]
    and d_a' = distinct_map_parts(3) [OF dist]
  have ds: "distinct (map (th env) (subs s'))" "distinct (map (th env) (subs b))"
    using dist by simp_all
  have ne: "th env s' \<noteq> th env ?a'" "th env s' \<noteq> th env b" "th env b \<noteq> th env ?a'"
    by (rule d_s' d_b; simp)+
  have keep: "N (th env u) = N1 (th env u)" if u: "u \<in> set (ancs c ?a) \<union> set (sibs c)" for u
  proof (cases "u \<in> set (ancs c ?a)")
    case True
    with anc show ?thesis by (simp add: N1_def)
  next
    case False
    with u have u: "u \<in> set (sibs c)" by simp
    have "th env s' \<noteq> th env u" "th env b \<noteq> th env u" using u by (intro d_s' d_b; simp)+
    with d_a' [OF u] show ?thesis by (simp add: N1_def)
  qed
  then show "crep env N1 c ?a" using crc crep_frame by blast
  let ?Nb = "N(th env b \<mapsto> setParent nb p)"
  let ?Ns = "?Nb(th env s' \<mapsto> setParent ch p)"
  have srb: "srep env N b" using rb by (simp add: rep_split)
  have pb: "parent_is (Some (th env ?a')) (setParent x p)" for x using ph(1) by (simp add: setParent_def)
  have "rep env ?Nb (Some (th env ?a')) b"
    by (rule rep_reparent [OF srb node_core_setParentI [OF nbc ph(2)] pb ds(2)])
  moreover have "\<forall>u \<in> set (subs b). ?Nb (th env u) = N1 (th env u)"
  proof
    fix u assume u: "u \<in> set (subs b)"
    have "th env s' \<noteq> th env u" "th env u \<noteq> th env ?a'" using u by (intro d_s' d_b; simp)+
    then show "?Nb (th env u) = N1 (th env u)" by (simp add: N1_def)
  qed
  ultimately have rep_b: "rep env N1 (Some (th env ?a')) b" using rep_frame by blast
  have "\<forall>u \<in> set (tl (subs s')). N (th env u) = ?Nb (th env u)"
  proof
    fix u assume "u \<in> set (tl (subs s'))"
    then have "u \<in> set (subs s')" using subs_Cons [of s'] by (metis list.set_intros(2))
    then have "th env u \<noteq> th env b" by (rule d_s') simp
    then show "N (th env u) = ?Nb (th env u)" by simp
  qed
  with sr have "srep env ?Nb s'" using srep_frame by blast
  then have "rep env ?Ns (Some (th env ?a')) s'"
    by (rule rep_reparent [OF _ node_core_setParentI [OF ch ph(2)] pb ds(1)])
  moreover have "\<forall>u \<in> set (subs s'). ?Ns (th env u) = N1 (th env u)"
  proof
    fix u assume "u \<in> set (subs s')"
    then have "th env u \<noteq> th env ?a'" by (rule d_s') simp
    then show "?Ns (th env u) = N1 (th env u)" by (simp add: N1_def)
  qed
  ultimately have "rep env N1 (Some (th env ?a')) s'" using rep_frame by blast
  with rep_b show "srep env N1 ?a'" by (cases d) (simp_all add: mk_def)
qed


end

section \<open>The loop of \<open>insert\<close>\<close>

text \<open>The three writes of a round, and what they leave.\<close>

definition put_round :: "trie_env \<Rightarrow> trie_node \<Rightarrow> trie_node \<Rightarrow> trie_node \<Rightarrow> kvstore \<Rightarrow> kvstore" where
  "put_round env p nb ch st = put_node env p (put_node env (setParent ch p) (put_node env (setParent nb p) st))"

lemma setParent_sized:
  "node_sized env x \<Longrightarrow> length (tn_hash p) = te_size env \<Longrightarrow> node_sized env (setParent x p)"
  by (simp add: node_sized_def setParent_def)

lemma nodes_put_round:
  assumes "node_sized env p" "node_sized env nb" "node_sized env ch"
  shows "nodes env (put_round env p nb ch st) = (nodes env st)(tn_hash nb \<mapsto> setParent nb p,
    tn_hash ch \<mapsto> setParent ch p, tn_hash p \<mapsto> p)"
proof -
  have "length (tn_hash p) = te_size env" using assms(1) by (simp add: node_sized_def)
  with assms show ?thesis by (simp add: put_round_def setParent_sized)
qed

lemma get_put_round:
  "k \<notin> {tn_hash nb, tn_hash ch, tn_hash p} \<Longrightarrow> storage_get (put_round env p nb ch st) k = storage_get st k"
  by (simp add: put_round_def)

context trie_hash
begin

lemma insert_up_step:
  fixes ch :: trie_node
  assumes op: "nodes env st (tn_parent oc) = Some op" and hp: "tn_hasParent oc"
    and opc: "node_core env (mk m d s b) op"
    and nb: "nodes env st (th env b) = Some nb" and ns: "nodes env st (th env s) \<noteq> None"
    and oc: "tn_hash oc = th env s" and ne: "th env s \<noteq> th env b"
  defines "p \<equiv> rebuilt env d op ch"
  shows "insert_up env (Suc fuel) oc ch rh ds st =
    insert_up env fuel op p (if \<not> tn_hasParent p then tn_hash p else rh) (ds @ [op])
      (put_round env p nb ch st)"
proof -
  obtain os where os: "nodes env st (th env s) = Some os" using ns by blast
  have gp: "getParent env oc st = (Inr op, st)" using op hp by (simp add: getParent_def wp_simps)
  have kids: "tn_hasChildren op" "tn_smaller op = th env (if d then b else s)"
    "tn_larger op = th env (if d then s else b)"
    using opc by (auto simp: mk_def split: if_splits)
  show ?thesis
  proof (cases d)
    case True
    with kids oc have eq: "\<not> isEqualToSmaller op oc" "isEqualToLarger op oc"
      using ne by (simp_all add: isEqualToSmaller_def isEqualToLarger_def)
    have gl: "getLarger env op st = (Inr os, st)" "getSmaller env op st = (Inr nb, st)"
      using kids True os nb by (simp_all add: getLarger_def getSmaller_def wp_simps)
    have sl: "setLarger op ch = Inr (op\<lparr>tn_larger := tn_hash ch, tn_dirty := True\<rparr>)"
      using kids by (simp add: setLarger_def)
    show ?thesis using True hp
      by (simp add: bindE_Inr [where m = "getParent env oc", OF gp]
          bindE_Inr [where m = "getLarger env op", OF gl(1)]
          bindE_Inr [where m = "getSmaller env op", OF gl(2)] eq sl
          wp_simps Let_def p_def rebuilt_def put_round_def)
  next
    case False
    with kids oc have eq: "isEqualToSmaller op oc"
      by (simp_all add: isEqualToSmaller_def isEqualToLarger_def)
    have gl: "getLarger env op st = (Inr nb, st)"
      using kids False nb by (simp_all add: getLarger_def getSmaller_def wp_simps)
    have sl: "setSmaller op ch = Inr (op\<lparr>tn_smaller := tn_hash ch, tn_dirty := True\<rparr>)"
      using kids by (simp add: setSmaller_def)
    show ?thesis using False hp
      by (simp add: bindE_Inr [where m = "getParent env oc", OF gp]
          bindE_Inr [where m = "getLarger env op", OF gl] eq sl
          wp_simps Let_def p_def rebuilt_def put_round_def)
  qed
qed

text \<open>
  The loop returns when its fuel exceeds the number of ancestors; then the whole new tree is
  represented, the result is its root hash and the replaced ancestors, and nothing else has
  changed.
\<close>

lemma insert_up_run:
  "length c < fuel \<Longrightarrow> wf_tree (te_size env) (plug c s') \<Longrightarrow> crep env (nodes env st) c s \<Longrightarrow>
   srep env (nodes env st) s' \<Longrightarrow> node_core env s' ch \<Longrightarrow> parent_is (parent_of env c s) ch \<Longrightarrow>
   sep env c s s' \<Longrightarrow> tn_hash oc = th env s \<Longrightarrow> parent_is (parent_of env c s) oc \<Longrightarrow>
   nodes env st (th env s) \<noteq> None \<Longrightarrow> \<forall>b \<in> set (sibs c). th env s \<noteq> th env b \<Longrightarrow>
   (c = [] \<longrightarrow> nodes env st (th env s') = Some ch \<and> rh = th env s') \<Longrightarrow>
   \<exists>st' as. insert_up env fuel oc ch rh ds st = (Inr (th env (plug c s'), ds @ as), st') \<and>
     rep env (nodes env st') None (plug c s') \<and> map tn_hash as = map (th env) (ancs c s) \<and>
     (\<forall>k. k \<notin> th env ` set (new_subs c s') \<longrightarrow> storage_get st' k = storage_get st k)"
proof (induction c arbitrary: fuel s s' oc ch rh ds st)
  case Nil
  then obtain f where "fuel = Suc f" by (cases fuel) auto
  with Nil show ?case by (auto simp: wp_simps rep_split nodeat_def)
next
  case (Cons x c)
  obtain m d b where x: "x = (m, d, b)" by (cases x)
  obtain f where f: "fuel = Suc f" "length c < f" using Cons.prems(1) by (cases fuel) auto
  let ?a = "mk m d s b" and ?a' = "mk m d s' b"
  note P = Cons.prems [unfolded x]
  have wfa': "wf_tree (te_size env) ?a'" using P(2) by (auto dest: wf_plugD)
  from P(3) have "nodeat env (nodes env st) (parent_of env c ?a) ?a"
    and rb: "rep env (nodes env st) (Some (th env ?a)) b" by (simp_all add: Let_def)
  then obtain op where op: "nodes env st (th env ?a) = Some op" "node_core env ?a op"
    "parent_is (parent_of env c ?a) op" by (auto simp: nodeat_def)
  from rb obtain nb where nb: "nodes env st (th env b) = Some nb" "node_core env b nb"
    by (auto simp: rep_split nodeat_def)
  define p where "p = rebuilt env d op ch"
  define st1 where "st1 = put_round env p nb ch st"
  have oc: "tn_hasParent oc" "tn_parent oc = th env ?a" using P(9) by simp_all
  have ne: "th env s \<noteq> th env b" using P(11) by simp
  have step: "insert_up env fuel oc ch rh ds st =
      insert_up env f op p (if \<not> tn_hasParent p then tn_hash p else rh) (ds @ [op]) st1"
    unfolding f p_def st1_def
    by (rule insert_up_step [OF _ oc(1) op(2) nb(1) P(10,8) ne]) (simp add: oc op)
  note rb = rebuild_step [OF P(2,3,4,5,7) op(1) nb(1), folded p_def]
  have ph: "tn_hash p = th env ?a'" using rb(3) by (rule node_core_hash)
  have N1: "nodes env st1 = (nodes env st)(th env b \<mapsto> setParent nb p, th env s' \<mapsto> setParent ch p,
      th env ?a' \<mapsto> p)"
    unfolding st1_def
    by (simp add: nodes_put_round node_core_sized [OF rb(3)] node_core_sized [OF nb(2)]
        node_core_sized [OF P(5)] ph node_core_hash [OF nb(2)] node_core_hash [OF P(5)])
  note rb' = rb [folded N1]
  have sp: "sep env c ?a ?a'" using P(7) by (rule sep_step)
  have anc: "th env ?a \<noteq> th env u" if "u \<in> set (new_subs ((m, d, b) # c) s')" for u
    using P(7) that by (auto simp: sep_def)
  have "th env ?a \<noteq> th env u" if "u \<in> {b, s', ?a'} \<union> set (sibs c)" for u
    using that by (intro anc) (auto simp: new_subs_def)
  then have old: "nodes env st1 (th env ?a) \<noteq> None" "\<forall>u \<in> set (sibs c). th env ?a \<noteq> th env u"
    by (simp_all add: N1 op)
  have "parent_of env c ?a = None" if "c = []" using that by simp
  then have base: "c = [] \<longrightarrow> nodes env st1 (th env ?a') = Some p \<and>
      (if \<not> tn_hasParent p then tn_hash p else rh) = th env ?a'"
    using rb'(4,5) ph by auto
  have pl: "wf_tree (te_size env) (plug c ?a')" using P(2) by simp
  obtain st' as where IH: "insert_up env f op p (if \<not> tn_hasParent p then tn_hash p else rh)
      (ds @ [op]) st1 = (Inr (th env (plug c ?a'), (ds @ [op]) @ as), st')"
    "rep env (nodes env st') None (plug c ?a')" "map tn_hash as = map (th env) (ancs c ?a)"
    "\<forall>k. k \<notin> th env ` set (new_subs c ?a') \<longrightarrow> storage_get st' k = storage_get st1 k"
    using Cons.IH [OF f(2) pl rb'(1-4) sp node_core_hash [OF op(2)] op(3) old base] by blast
  have sub: "set (new_subs c ?a') = set (new_subs ((m, d, b) # c) s')"
    by (simp add: set_new_subs)
  have "storage_get st' k = storage_get st k" if k: "k \<notin> th env ` set (new_subs ((m, d, b) # c) s')" for k
  proof -
    have "u \<in> set (new_subs ((m, d, b) # c) s')" if "u \<in> {b, s', ?a'}" for u
      using that by (auto simp: new_subs_def)
    then have "k \<notin> {th env b, th env s', th env ?a'}" using k by blast
    then have "storage_get st1 k = storage_get st k" unfolding st1_def
      by (intro get_put_round) (simp add: ph node_core_hash [OF nb(2)] node_core_hash [OF P(5)])
    with IH(4) k sub show ?thesis by simp
  qed
  with IH(1-3) show ?case unfolding step x using node_core_hash [OF op(2)]
    by (intro exI [of _ st'] exI [of _ "op # as"]) simp
qed

end

end
