(* ===== verification/TrieInsert.thy ===== *)
theory TrieInsert
  imports TrieRep
begin

text \<open>
  \<^verbatim>\<open>TrieNode::insert\<close> on a stored tree is \<open>pt_insert\<close>: the descent finds the subtree that has to
  be split, the split stores the new leaf, the loop rebuilds the ancestors, and the replaced
  ancestors are deleted.  \<open>stored\<close> is the invariant of the storage: it holds the nodes of one
  tree and no other key of a digest's size.
\<close>

section \<open>The storage invariant\<close>

definition node_hashes :: "trie_env \<Rightarrow> ptree \<Rightarrow> bytes set" where
  "node_hashes env t = th env ` set (subs t)"

fun stored :: "trie_env \<Rightarrow> kvstore \<Rightarrow> ptree option \<Rightarrow> bool" where
  "stored env st None \<longleftrightarrow>
     storage_get st root_name = None \<and> (\<forall>k. length k = te_size env \<longrightarrow> storage_get st k = None)"
| "stored env st (Some t) \<longleftrightarrow>
     storage_get st root_name = Some (th env t) \<and> wf_tree (te_size env) t \<and>
     rep env (nodes env st) None t \<and>
     (\<forall>k. length k = te_size env \<longrightarrow> (storage_get st k \<noteq> None \<longleftrightarrow> k \<in> node_hashes env t))"

text \<open>The number of bits a node's keys agree on, and the height, bounded by it.\<close>

fun mask_of :: "nat \<Rightarrow> ptree \<Rightarrow> nat" where
  "mask_of h (Tip k) = 8 * h"
| "mask_of h (Bin m l r) = m"

fun height :: "ptree \<Rightarrow> nat" where
  "height (Tip k) = 0"
| "height (Bin m l r) = Suc (max (height l) (height r))"

lemma height_le: "wf_tree h t \<Longrightarrow> height t + mask_of h t \<le> 8 * h"
proof (induction t)
  case (Bin m l r)
  note wf = wf_BinD [OF Bin.prems]
  have "m < mask_of h c" if "c = l \<or> c = r" for c
    using that wf(1) child_mask_less [OF Bin.prems] by (cases c) auto
  then have "m < mask_of h l" "m < mask_of h r" by blast+
  with Bin.IH wf(2,3) show ?case by (simp add: max_def)
qed simp

lemma length_ctx_le: "length c \<le> height (plug c s)"
proof -
  have "height s + length c \<le> height (plug c s)"
  proof (induction c arbitrary: s)
    case (Cons x c)
    obtain m d b where x: "x = (m, d, b)" by (cases x)
    have "height (mk m d s b) + length c \<le> height (plug c (mk m d s b))" by (rule Cons.IH)
    moreover have "Suc (height s) \<le> height (mk m d s b)" by (simp add: mk_def)
    ultimately show ?case by (simp add: x)
  qed simp
  then show ?thesis by simp
qed

lemma distinct_subs: "wf_tree h t \<Longrightarrow> distinct (subs t)"
proof (induction t)
  case (Bin m l r)
  note wf = wf_BinD [OF Bin.prems]
  have dis: "keys l \<inter> keys r = {}" using Bin.prems by (rule wf_Bin_disjoint)
  have "\<not> keys l \<union> keys r \<subseteq> keys l" "\<not> keys l \<union> keys r \<subseteq> keys r"
    using dis akey_in_keys [of l] akey_in_keys [of r] by blast+
  then have "Bin m l r \<notin> set (subs l)" "Bin m l r \<notin> set (subs r)"
    using subs_keys [of "Bin m l r" l] subs_keys [of "Bin m l r" r] unfolding key_list.simps set_append
    by blast+
  moreover have "set (subs l) \<inter> set (subs r) = {}"
  proof (rule equals0I)
    fix u assume "u \<in> set (subs l) \<inter> set (subs r)"
    then have "keys u \<subseteq> keys l \<inter> keys r" using subs_keys by blast
    with dis akey_in_keys [of u] show False by blast
  qed
  ultimately show ?case using Bin.IH wf(2,3) by simp
qed simp

lemma mset_new_subs: "mset (new_subs c s) = mset (subs (plug c s))"
  by (simp add: new_subs_def mset_subs_plug)

lemma inj_on_distinct_map: "distinct xs \<Longrightarrow> inj_on f (set xs) \<Longrightarrow> distinct (map f xs)"
  by (simp add: distinct_map)

text \<open>Deleting nodes.\<close>

lemma delete_nodes_del_list:
  "kv.del_list st (map tn_hash ds) = Inr st' \<Longrightarrow> delete_nodes ds st = (Inr (), st')"
proof (induction ds arbitrary: st)
  case (Cons d ds)
  then obtain s1 where s1: "storage_del st (tn_hash d) = Inr s1"
    "kv.del_list s1 (map tn_hash ds) = Inr st'" by (auto split: sum.splits)
  then have "deleteFromDb d st = (Inr True, s1)" by (simp add: deleteFromDb_def)
  with Cons.IH [OF s1(2)] show ?case by (simp add: bindE_Inr [where m = "deleteFromDb d"])
qed (simp add: wp_simps)

lemma delete_nodes_run:
  assumes "distinct (map tn_hash ds)" "\<forall>d \<in> set ds. storage_get st (tn_hash d) \<noteq> None"
  shows "\<exists>st'. delete_nodes ds st = (Inr (), st') \<and>
    storage_get st' = storage_get st |` (- tn_hash ` set ds)"
proof -
  obtain st' where st': "kv.del_list st (map tn_hash ds) = Inr st'"
    "storage_get st' = storage_get st |` (- set (map tn_hash ds))"
    using kv.del_list_result [OF assms(1)] assms(2) by auto
  with delete_nodes_del_list [OF st'(1)] show ?thesis by auto
qed

lemma nodes_get_cong: "storage_get s k = storage_get s' k \<Longrightarrow> nodes env s k = nodes env s' k"
  by (simp add: nodes_def)

lemma nodes_None_iff: "nodes env s k = None \<longleftrightarrow> storage_get s k = None"
  by (simp add: nodes_def)

context trie_hash
begin

lemma distinct_hashes:
  assumes "collision_free (te_hash env) ts" "t \<in> set ts" "wf_tree (te_size env) t"
  shows "distinct (map (th env) (subs t))"
  by (rule inj_on_distinct_map [OF distinct_subs [OF assms(3)]])
    (auto intro!: inj_onI thash_inj_subs [OF assms(1,2,2,3,3)])

lemma sepI:
  assumes cf: "collision_free (te_hash env) [plug c s, plug c s']"
    and wf: "wf_tree (te_size env) (plug c s)" "wf_tree (te_size env) (plug c s')"
    and ne: "\<forall>a \<in> set (ancs c s). a \<notin> set (subs (plug c s'))"
  shows "sep env c s s'"
  unfolding sep_def
proof
  have "distinct (map (th env) (subs (plug c s')))" using cf _ wf(2) by (rule distinct_hashes) simp
  then show "distinct (map (th env) (new_subs c s'))"
    using distinct_map_mset [OF mset_new_subs] by blast
  show "\<forall>a \<in> set (ancs c s). \<forall>u \<in> set (new_subs c s'). th env a \<noteq> th env u"
  proof (intro ballI notI)
    fix a u assume a: "a \<in> set (ancs c s)" and u: "u \<in> set (new_subs c s')"
      and eq: "th env a = th env u"
    have "a \<in> set (subs (plug c s))" using a by (simp add: set_subs_plug)
    moreover have u': "u \<in> set (subs (plug c s'))" using u by (simp add: set_new_subs)
    ultimately have "a = u" using eq by (intro thash_inj_subs [OF cf _ _ wf]) simp_all
    with ne a u' show False by blast
  qed
qed

lemma length_node_hash: "wf_tree (te_size env) t \<Longrightarrow> k \<in> node_hashes env t \<Longrightarrow> length k = te_size env"
  by (auto simp: node_hashes_def length_thash dest: subs_wf)

lemma root_name_not_node: "wf_tree (te_size env) t \<Longrightarrow> root_name \<notin> node_hashes env t"
  using length_node_hash [of t root_name] size_not_root by (auto simp: root_name_def)

text \<open>How \<open>similar\<close>, \<open>isLarger\<close> and \<open>isSmaller\<close> read a stored node.\<close>

lemma node_core_prefix:
  assumes "node_core env t n"
  shows "unat (tn_prefix_mask n) = mask_of (te_size env) t"
    "k \<in> keys t \<Longrightarrow> agree (mask_of (te_size env) t) (tn_prefix n) k"
  using assms by (cases t; auto)+

lemma mask_of_le: "wf_tree h t \<Longrightarrow> mask_of h t \<le> 8 * h"
  by (cases t) (auto dest: wf_BinD(1))

lemma unat_full_mask: "unat (word_of_nat (8 * te_size env) :: u8) = 8 * te_size env"
  using size_byte by (intro unat_of_nat_small) simp

lemmas unat_full_mask_simp [simp] = unat_full_mask [simplified]

lemma similar_new_node:
  assumes "node_core env t n" "wf_tree (te_size env) t"
  shows "similar n (new_node env k) \<longleftrightarrow> agree (mask_of (te_size env) t) (akey t) k"
proof -
  have "similar n (new_node env k) \<longleftrightarrow> agree (mask_of (te_size env) t) (tn_prefix n) k"
    using node_core_prefix(1) [OF assms(1)] by (simp add: similar_def agree_def new_node_def)
  also have "\<dots> \<longleftrightarrow> agree (mask_of (te_size env) t) (akey t) k"
    using node_core_prefix(2) [OF assms(1) akey_in_keys] by (auto simp: agree_iff)
  finally show ?thesis .
qed

lemma new_node_core: "length k = te_size env \<Longrightarrow> node_core env (Tip k) (new_node env k)"
  by (simp add: new_node_def node_sized_def junk_size unat_full_mask)

section \<open>The split\<close>

lemma first_diff_cong:
  assumes "agree m a b" "first_diff h b k < m" "m \<le> 8 * h"
  shows "first_diff h a k = first_diff h b k"
proof -
  let ?d = "first_diff h b k"
  have "BITTEST a i = BITTEST k i" if "i < ?d" for i
    using that assms(1,2) first_diff_agree [of h b k] by (simp add: agree_iff)
  moreover have "BITTEST a ?d \<noteq> BITTEST k ?d"
    using assms first_diff_bit [of h b k] by (simp add: agree_iff)
  ultimately show ?thesis
    unfolding first_diff_def [of h a k] using assms(2,3) by (intro takeWhile_upt_length_eq) simp_all
qed

text \<open>The new inner node that \<open>node_split\<close> builds, and its two children.\<close>

definition prefix_size :: "trie_node \<Rightarrow> bytes \<Rightarrow> u8" where
  "prefix_size n k = word_of_nat (first_diff (te_size env) (tn_prefix n) k)"

definition split_node :: "trie_node \<Rightarrow> bytes \<Rightarrow> trie_node" where
  "split_node n k =
     (let i = n\<lparr>tn_prefix_mask := prefix_size n k\<rparr>
      in updateHash env (if isLarger env i (new_node env k) then setChildren i n (new_node env k)
                         else setChildren i (new_node env k) n))"

lemma prefix_size_new_node:
  assumes nc: "node_core env s n" and wf: "wf_tree (te_size env) s"
    and ns: "\<not> agree (mask_of (te_size env) s) (akey s) k"
  shows "unat (prefix_size n k) = first_diff (te_size env) (akey s) k"
    "commonPrefixSize env n (new_node env k) = Some (prefix_size n k)"
    "first_diff (te_size env) (akey s) k < mask_of (te_size env) s"
proof -
  let ?h = "te_size env" and ?m = "mask_of (te_size env) s"
  show less: "first_diff ?h (akey s) k < ?m" using ns by (rule first_diff_less)
  have fd: "first_diff ?h (tn_prefix n) k = first_diff ?h (akey s) k"
    using node_core_prefix(2) [OF nc akey_in_keys] less mask_of_le [OF wf] by (rule first_diff_cong)
  have bnd: "first_diff ?h (akey s) k < 256"
    using less mask_of_le [OF wf] size_byte by simp
  show "unat (prefix_size n k) = first_diff ?h (akey s) k"
    using fd bnd by (simp add: prefix_size_def unat_of_nat_small)
  show "commonPrefixSize env n (new_node env k) = Some (prefix_size n k)"
    using commonPrefixSize_eq [of env n "new_node env k"] fd bnd size_byte
    by (simp add: prefix_size_def new_node_def)
qed

lemma split_node_core:
  assumes nc: "node_core env s n" and wf: "wf_tree (te_size env) s"
    and ns: "\<not> agree (mask_of (te_size env) s) (akey s) k"
    and k: "length k = te_size env" and q: "parent_is q n"
  shows "node_core env (join (te_size env) k s) (split_node n k)" "parent_is q (split_node n k)"
proof -
  note mask = prefix_size_new_node [OF nc wf ns]
  let ?d = "first_diff (te_size env) (akey s) k"
  have d: "?d < 8 * te_size env" using mask(3) mask_of_le [OF wf] by simp
  have ag_s: "agree ?d (tn_prefix n) x" if "x \<in> keys s" for x
    using node_core_prefix(2) [OF nc that] mask(3) by (auto intro: agree_mono)
  moreover have "agree ?d (tn_prefix n) k"
    using ag_s [OF akey_in_keys] first_diff_agree by (rule agree_trans)
  moreover have "node_sized env n" "tn_hash n = th env s" "tn_hash (new_node env k) = k"
    using nc node_core_sized node_core_hash by (auto simp: new_node_def)
  moreover have "length (th env s) = te_size env" using wf by (rule length_thash)
  ultimately show "node_core env (join (te_size env) k s) (split_node n k)"
    using d mask(1) k
    by (simp add: join_def split_node_def Let_def isLarger_def setChildren_def updateHash_def
        node_sized_def length_H) (auto simp: new_node_def)
  show "parent_is q (split_node n k)" using q
    by (cases q) (simp_all add: split_node_def Let_def setChildren_def updateHash_def)
qed

text \<open>The storage once the split nodes are saved.\<close>

definition split_store :: "trie_node \<Rightarrow> bytes \<Rightarrow> kvstore \<Rightarrow> kvstore" where
  "split_store n k st =
     (let p = split_node n k;
          st = put_node env (setParent n p) (put_node env (setParent (new_node env k) p) st)
      in if \<not> tn_hasParent p then put_node env p st else st)"

lemma node_split_eq:
  assumes nc: "node_core env s n" and wf: "wf_tree (te_size env) s"
    and ns: "\<not> agree (mask_of (te_size env) s) (akey s) k"
  shows "node_split env n (new_node env k) True st =
    bindE (insert_up env loop_fuel n (split_node n k) (tn_hash (split_node n k)) [])
      (\<lambda>(roothash, toBeDeleted).
       bindE (root_set roothash) (\<lambda>_. bindE (delete_nodes toBeDeleted) (\<lambda>_. ret True)))
      (split_store n k st)"
proof -
  let ?nk = "new_node env k"
  let ?i = "n\<lparr>tn_prefix_mask := prefix_size n k\<rparr>"
  note common = prefix_size_new_node(2) [OF nc wf ns]
  have "unat (prefix_size n k) \<noteq> 8 * te_size env"
    using prefix_size_new_node [OF nc wf ns] mask_of_le [OF wf] by simp
  then have sides: "\<not> isLarger env ?i ?nk \<Longrightarrow> isSmaller env ?i ?nk"
    by (simp add: isLarger_def isSmaller_def)
  then have kids: "(if isLarger env ?i ?nk then ret (setChildren ?i n ?nk)
      else if isSmaller env ?i ?nk then ret (setChildren ?i ?nk n)
      else throw (DbTrieException ''ERROR'')) =
      ret (if isLarger env ?i ?nk then setChildren ?i n ?nk else setChildren ?i ?nk n)"
    by simp
  show ?thesis
    unfolding node_split_def common option.case Let_def kids bindE_ret
    by (simp add: split_store_def split_node_def Let_def bindE_def toDb_run ret_run)
qed

lemma nodes_split_store:
  fixes st :: kvstore
  assumes nc: "node_core env s n" and wf: "wf_tree (te_size env) s"
    and ns: "\<not> agree (mask_of (te_size env) s) (akey s) k" and k: "length k = te_size env"
  defines "p \<equiv> split_node n k"
  defines "N1 \<equiv> (nodes env st)(k \<mapsto> setParent (new_node env k) p, th env s \<mapsto> setParent n p)"
  shows "nodes env (split_store n k st) =
    (if \<not> tn_hasParent p then N1(th env (join (te_size env) k s) \<mapsto> p) else N1)"
proof -
  have "parent_is (if tn_hasParent n then Some (tn_parent n) else None) n" by simp
  then have pc: "node_core env (join (te_size env) k s) p"
    unfolding p_def by (intro split_node_core [OF nc wf ns k])
  have "node_sized env p" "tn_hash p = th env (join (te_size env) k s)" "length (tn_hash p) = te_size env"
    using node_core_sized [OF pc] node_core_hash [OF pc] by (simp_all add: node_sized_def)
  moreover have "node_sized env n" "tn_hash n = th env s"
    using node_core_sized [OF nc] node_core_hash [OF nc] by simp_all
  moreover have "node_sized env (new_node env k)" "tn_hash (new_node env k) = k"
    using node_core_sized [OF new_node_core [OF k]] by (simp_all add: new_node_def)
  ultimately show ?thesis
    by (simp add: split_store_def Let_def N1_def setParent_sized flip: p_def)
qed

lemma get_split_store:
  "x \<notin> {k, tn_hash n, tn_hash (split_node n k)} \<Longrightarrow>
   storage_get (split_store n k st) x = storage_get st x"
  by (simp add: split_store_def Let_def new_node_def)

section \<open>From one stored tree to the next\<close>

lemma rep_present: "rep env N q t \<Longrightarrow> u \<in> set (subs t) \<Longrightarrow> N (th env u) \<noteq> None"
  by (induction t arbitrary: q) (auto simp: nodeat_def)

lemma stored_finish:
  assumes st: "stored env st (Some t)" and wf': "wf_tree (te_size env) t'"
    and rep': "rep env (nodes env st1) None t'"
    and D: "D \<inter> node_hashes env t' = {}" "node_hashes env t \<subseteq> D \<union> node_hashes env t'"
      "\<forall>x \<in> D. length x = te_size env"
    and fr: "\<forall>x. x \<notin> node_hashes env t' \<longrightarrow> x \<noteq> root_name \<longrightarrow> storage_get st1 x = storage_get st x"
    and fin: "storage_get st' = (storage_get st1)(root_name \<mapsto> th env t') |` (- D)"
  shows "stored env st' (Some t')"
    and "length x \<noteq> te_size env \<Longrightarrow> x \<noteq> root_name \<Longrightarrow> storage_get st' x = storage_get st x"
proof -
  have rootD: "root_name \<notin> D" using D(3) size_not_root by (auto simp: root_name_def)
  have root: "root_name \<notin> node_hashes env t'" using wf' by (rule root_name_not_node)
  have same: "storage_get st' x = storage_get st1 x" if "x \<in> node_hashes env t'" for x
    using that D(1) root fin by (auto simp: restrict_map_def)
  have "rep env (nodes env st') None t'"
    using rep' by (subst rep_frame [where N' = "nodes env st1"])
      (auto intro!: nodes_get_cong same simp: node_hashes_def)
  moreover have "storage_get st' x \<noteq> None \<longleftrightarrow> x \<in> node_hashes env t'" if x: "length x = te_size env" for x
  proof
    assume *: "storage_get st' x \<noteq> None"
    show "x \<in> node_hashes env t'"
    proof (rule ccontr)
      assume n: "x \<notin> node_hashes env t'"
      have "x \<noteq> root_name" using x size_not_root by (auto simp: root_name_def)
      with * n fin fr have "x \<notin> D" "storage_get st x \<noteq> None"
        by (auto simp: restrict_map_def split: if_splits)
      with st x have "x \<in> node_hashes env t" by simp
      with D(2) n \<open>x \<notin> D\<close> show False by blast
    qed
  next
    assume x: "x \<in> node_hashes env t'"
    then have "nodes env st1 x \<noteq> None" using rep_present [OF rep'] by (auto simp: node_hashes_def)
    then show "storage_get st' x \<noteq> None" using same [OF x] by (simp add: nodes_None_iff)
  qed
  moreover have "storage_get st' root_name = Some (th env t')" using fin rootD by simp
  ultimately show "stored env st' (Some t')" using wf' by simp
  show "storage_get st' x = storage_get st x" if x: "length x \<noteq> te_size env" "x \<noteq> root_name" for x
  proof -
    have "x \<notin> D" "x \<notin> node_hashes env t'" using x D(3) length_node_hash [OF wf'] by auto
    with fin fr x(2) show ?thesis by simp
  qed
qed

text \<open>The common end of both operations: the root entry is set, the replaced nodes are deleted.\<close>

lemma swap_finish:
  assumes st: "stored env st (Some t)" and wf': "wf_tree (te_size env) t'"
    and rep': "rep env (nodes env st1) None t'"
    and ds: "distinct (map tn_hash ds)" "tn_hash ` set ds \<subseteq> node_hashes env t"
    and D: "tn_hash ` set ds \<inter> node_hashes env t' = {}"
      "node_hashes env t \<subseteq> tn_hash ` set ds \<union> node_hashes env t'"
    and fr: "\<And>x. x \<notin> node_hashes env t' \<Longrightarrow> storage_get st1 x = storage_get st x"
  shows "\<exists>st'. delete_nodes ds (storage_put st1 root_name (th env t')) = (Inr (), st') \<and>
    stored env st' (Some t') \<and>
    (\<forall>x. length x \<noteq> te_size env \<longrightarrow> x \<noteq> root_name \<longrightarrow> storage_get st' x = storage_get st x)"
proof -
  let ?D = "tn_hash ` set ds"
  have wf: "wf_tree (te_size env) t" using st by simp
  have "storage_get (storage_put st1 root_name (th env t')) (tn_hash x) \<noteq> None" if "x \<in> set ds" for x
  proof -
    have x: "tn_hash x \<in> ?D" "tn_hash x \<in> node_hashes env t" using that ds(2) by auto
    then have "storage_get st (tn_hash x) \<noteq> None" using st length_node_hash [OF wf] by simp
    moreover have "storage_get st1 (tn_hash x) = storage_get st (tn_hash x)"
      using x D(1) by (intro fr) blast
    ultimately show ?thesis by (simp add: kv.get_put)
  qed
  then obtain st' where del: "delete_nodes ds (storage_put st1 root_name (th env t')) = (Inr (), st')"
    "storage_get st' = storage_get (storage_put st1 root_name (th env t')) |` (- ?D)"
    using delete_nodes_run [OF ds(1)] by metis
  have fin: "storage_get st' = (storage_get st1)(root_name \<mapsto> th env t') |` (- ?D)"
    by (simp add: del(2) kv.get_put)
  have D3: "\<forall>x \<in> ?D. length x = te_size env" using ds(2) length_node_hash [OF wf] by blast
  have fr': "\<forall>x. x \<notin> node_hashes env t' \<longrightarrow> x \<noteq> root_name \<longrightarrow> storage_get st1 x = storage_get st x"
    using fr by blast
  note finish = stored_finish [OF st wf' rep' D D3 fr' fin]
  show ?thesis using del(1) finish by blast
qed

text \<open>What is stored of one subtree.\<close>

lemma stored_subtree:
  assumes "stored env st (Some (plug c s))" "nodes env st (th env s) = Some n"
  shows "node_core env s n" "parent_is (parent_of env c s) n" "crep env (nodes env st) c s"
    "srep env (nodes env st) s" "wf_tree (te_size env) s" "length c \<le> 8 * te_size env"
proof -
  from assms(1) have "rep env (nodes env st) None (plug c s)" and wf: "wf_tree (te_size env) (plug c s)"
    by simp_all
  then have "crep env (nodes env st) c s" "rep env (nodes env st) (parent_of env c s) s"
    by (simp_all add: rep_plug)
  with assms(2) show "node_core env s n" "parent_is (parent_of env c s) n"
    "crep env (nodes env st) c s" "srep env (nodes env st) s"
    by (auto simp: rep_split nodeat_def)
  show "wf_tree (te_size env) s" using wf by (rule wf_plugD)
  show "length c \<le> 8 * te_size env" using height_le [OF wf] length_ctx_le [of c s] by simp
qed

lemma subs_join: "set (subs (join h k s)) = {join h k s, Tip k} \<union> set (subs s)"
  by (auto simp: join_def Let_def)

lemma anc_not_new:
  assumes wf: "wf_tree (te_size env) (plug c s)" and k: "k \<notin> keys (plug c s)"
    and a: "a \<in> set (ancs c s)"
  shows "a \<notin> set (subs (plug c (join (te_size env) k s)))"
proof
  assume u: "a \<in> set (subs (plug c (join (te_size env) k s)))"
  have ka: "k \<notin> keys a" using k subs_keys [of a "plug c s"] a by (auto simp: set_subs_plug)
  have sa: "keys s \<subseteq> keys a" "\<not> keys a \<subseteq> keys s"
    using ancs_keys [OF a] ancs_keys_strict [OF wf a] by blast+
  from u consider "a \<in> set (subs (join (te_size env) k s))" | "a \<in> set (ancs c (join (te_size env) k s))"
    | "a \<in> set (sibs c)" by (auto simp: set_subs_plug)
  then show False
  proof cases
    case 1
    then have "a = join (te_size env) k s \<or> a = Tip k \<or> a \<in> set (subs s)" by (auto simp: subs_join)
    with ka sa(2) show False using subs_keys [of a s] by auto
  next
    case 2
    then show False using ancs_keys ka by fastforce
  next
    case 3
    have "keys a \<inter> keys s = {}" using wf 3 by (rule sibs_disjoint)
    with sa(1) akey_in_keys [of s] show False by blast
  qed
qed

lemma split_store_rep:
  assumes st: "stored env st (Some (plug c s))" and n: "nodes env st (th env s) = Some n"
    and k: "length k = te_size env" and ns: "\<not> agree (mask_of (te_size env) s) (akey s) k"
    and sp: "sep env c s (join (te_size env) k s)"
  shows "crep env (nodes env (split_store n k st)) c s"
    "srep env (nodes env (split_store n k st)) (join (te_size env) k s)"
    "nodes env (split_store n k st) (th env s) \<noteq> None"
    "\<not> tn_hasParent (split_node n k) \<Longrightarrow>
       nodes env (split_store n k st) (th env (join (te_size env) k s)) = Some (split_node n k)"
proof -
  note sub = stored_subtree [OF st n]
  let ?j = "join (te_size env) k s" and ?N = "nodes env st"
  define p where "p = split_node n k"
  note N2 = nodes_split_store [OF sub(1,5) ns k, of st, folded p_def]
  have pc: "node_core env ?j p" unfolding p_def by (rule split_node_core(1) [OF sub(1,5) ns k sub(2)])
  have ph: "tn_hash p = th env ?j" "length (tn_hash p) = te_size env"
    using node_core_hash [OF pc] node_core_sized [OF pc] by (simp_all add: node_sized_def)
  have d: "distinct (map (th env) (subs ?j @ ancs c ?j @ sibs c))"
    using sp by (simp add: sep_def new_subs_def)
  have dj: "distinct (map (th env) (subs ?j))" using d by simp
  have nk: "k \<notin> th env ` set (subs s)" "th env ?j \<notin> th env ` set (subs s)" "th env ?j \<noteq> k"
    and dss: "distinct (map (th env) (subs s))"
    using dj by (auto simp: join_def Let_def simp del: thash.simps(2) split: if_splits)
  have nks: "th env u \<noteq> k" "th env ?j \<noteq> th env u" if "u \<in> set (subs s)" for u
    using that nk(1,2) by (metis imageI)+
  have tl_s: "set (tl (subs s)) \<subseteq> set (subs s)" using subs_Cons [of s] by (metis set_subset_Cons)
  have ne: "th env s \<noteq> k" "th env ?j \<noteq> th env s" "th env ?j \<noteq> k"
    "\<forall>u \<in> set (tl (subs s)). th env u \<notin> {k, th env ?j}"
    using nks(1,2) [THEN not_sym] nks(1,2) nk(3) subsetD [OF tl_s] by auto
  have keep: "?N (th env u) = nodes env (split_store n k st) (th env u)"
    if u: "u \<in> set (ancs c s) \<union> set (sibs c)" for u
  proof -
    have nv: "th env u \<noteq> th env v" if "v \<in> set (subs ?j)" for v
    proof (cases "u \<in> set (ancs c s)")
      case True
      with sp that show ?thesis by (simp add: sep_def new_subs_def)
    next
      case False
      with u have "u \<in> set (ancs c ?j @ sibs c)" by simp
      from distinct_map_appendD [OF d that this] show ?thesis by (rule not_sym)
    qed
    show ?thesis using nv [of ?j] nv [of "Tip k"] nv [of s] by (simp add: N2 subs_join)
  qed
  then show "crep env (nodes env (split_store n k st)) c s"
    using sub(3) crep_frame by blast
  have "srep env (?N(k \<mapsto> setParent (new_node env k) p)) s"
    using sub(4) ne(4) by (subst srep_frame [where N' = ?N]) auto
  moreover have ps: "parent_is (Some (th env ?j)) (setParent x p)" for x
    using ph by simp
  ultimately have "rep env (?N(k \<mapsto> setParent (new_node env k) p, th env s \<mapsto> setParent n p))
      (Some (th env ?j)) s"
    using node_core_setParentI [OF sub(1) ph(2)] dss by (intro rep_reparent)
  then have "rep env (nodes env (split_store n k st)) (Some (th env ?j)) s"
    by (subst rep_frame [where N' = "?N(k \<mapsto> setParent (new_node env k) p, th env s \<mapsto> setParent n p)"])
      (use nks(2) [THEN not_sym] in \<open>auto simp: N2\<close>)
  moreover have "nodeat env (nodes env (split_store n k st)) (Some (th env ?j)) (Tip k)"
    using node_core_setParentI [OF new_node_core [OF k] ph(2)] ps ne
    by (auto simp: nodeat_def N2)
  moreover have kids: "srep env N ?j \<longleftrightarrow>
      rep env N (Some (th env ?j)) s \<and> rep env N (Some (th env ?j)) (Tip k)" for N
    by (auto simp: join_def Let_def)
  ultimately show "srep env (nodes env (split_store n k st)) ?j" by simp
  show "nodes env (split_store n k st) (th env s) \<noteq> None" using ne by (simp add: N2)
  show "nodes env (split_store n k st) (th env ?j) = Some (split_node n k)"
    if "\<not> tn_hasParent (split_node n k)" using that by (simp add: N2 p_def)
qed

lemma node_split_correct:
  assumes st: "stored env st (Some (plug c s))" and n: "nodes env st (th env s) = Some n"
    and k: "length k = te_size env" "k \<notin> keys (plug c s)"
    and ns: "\<not> agree (mask_of (te_size env) s) (akey s) k"
    and wf': "wf_tree (te_size env) (plug c (join (te_size env) k s))"
    and cf: "collision_free (te_hash env) [plug c s, plug c (join (te_size env) k s)]"
  shows "\<exists>st'. node_split env n (new_node env k) True st = (Inr True, st') \<and>
    stored env st' (Some (plug c (join (te_size env) k s))) \<and>
    (\<forall>x. length x \<noteq> te_size env \<longrightarrow> x \<noteq> root_name \<longrightarrow> storage_get st' x = storage_get st x)"
proof -
  let ?j = "join (te_size env) k s" and ?T = "plug c s"
  let ?T' = "plug c ?j"
  note sub = stored_subtree [OF st n]
  have wf: "wf_tree (te_size env) ?T" using st by simp
  define p where "p = split_node n k"
  define st2 where "st2 = split_store n k st"
  have sp: "sep env c s ?j"
    using cf wf wf' by (rule sepI) (use anc_not_new [OF wf k(2)] in blast)
  note ready = split_store_rep [OF st n k(1) ns sp, folded p_def st2_def]
  have pc: "node_core env ?j p" "parent_is (parent_of env c s) p"
    unfolding p_def by (rule split_node_core [OF sub(1,5) ns k(1) sub(2)])+
  have ph: "tn_hash p = th env ?j" using pc(1) by (rule node_core_hash)
  have d: "distinct (map (th env) (subs ?T))" using cf _ wf by (rule distinct_hashes) simp
  then have dd: "distinct (map (th env) (subs s @ ancs c s @ sibs c))"
    using distinct_map_mset [OF mset_new_subs, of "th env" c s] by (simp add: new_subs_def)
  have sib: "\<forall>b \<in> set (sibs c). th env s \<noteq> th env b"
    by (intro ballI distinct_map_appendD [OF dd]) simp_all
  have base: "c = [] \<longrightarrow> nodes env st2 (th env ?j) = Some p \<and> tn_hash p = th env ?j"
    using pc(2) ready(4) ph by auto
  have fuel: "length c < loop_fuel" using sub(6) size_byte by (simp add: loop_fuel_def)
  obtain st3 ds where loop: "insert_up env loop_fuel n p (tn_hash p) [] st2 = (Inr (th env ?T', ds), st3)"
    "rep env (nodes env st3) None ?T'" "map tn_hash ds = map (th env) (ancs c s)"
    "\<forall>x. x \<notin> th env ` set (new_subs c ?j) \<longrightarrow> storage_get st3 x = storage_get st2 x"
    using insert_up_run [OF fuel wf' ready(1,2) pc sp node_core_hash [OF sub(1)] sub(2) ready(3) sib base,
        of "[]"] by auto
  let ?D = "th env ` set (ancs c s)"
  have new: "th env ` set (new_subs c ?j) = node_hashes env ?T'"
    by (simp add: set_new_subs node_hashes_def)
  have dsD: "tn_hash ` set ds = ?D" using arg_cong [OF loop(3), of set] by simp
  have D: "tn_hash ` set ds \<inter> node_hashes env ?T' = {}"
    "node_hashes env ?T \<subseteq> tn_hash ` set ds \<union> node_hashes env ?T'"
    "tn_hash ` set ds \<subseteq> node_hashes env ?T"
  proof -
    show "tn_hash ` set ds \<inter> node_hashes env ?T' = {}"
      using sp unfolding dsD new [symmetric] sep_def by auto
    show "node_hashes env ?T \<subseteq> tn_hash ` set ds \<union> node_hashes env ?T'"
      unfolding dsD by (auto simp: node_hashes_def set_subs_plug subs_join)
    show "tn_hash ` set ds \<subseteq> node_hashes env ?T"
      unfolding dsD by (auto simp: node_hashes_def set_subs_plug)
  qed
  have "{k, tn_hash n, tn_hash p} \<subseteq> node_hashes env ?T'"
    using ph node_core_hash [OF sub(1)]
    by (force simp: node_hashes_def set_subs_plug subs_join)
  then have fr: "storage_get st3 x = storage_get st x" if "x \<notin> node_hashes env ?T'" for x
    using that loop(4) get_split_store [of x k n st] unfolding new p_def st2_def by auto
  have dis: "distinct (map tn_hash ds)" unfolding loop(3) using dd by simp
  obtain st' where fin: "delete_nodes ds (storage_put st3 root_name (th env ?T')) = (Inr (), st')"
    "stored env st' (Some ?T')"
    "\<forall>x. length x \<noteq> te_size env \<longrightarrow> x \<noteq> root_name \<longrightarrow> storage_get st' x = storage_get st x"
    using swap_finish [OF st wf' loop(2) dis D(3,1,2) fr] by blast
  have run: "node_split env n (new_node env k) True st = (Inr True, st')"
    unfolding node_split_eq [OF sub(1,5) ns] p_def [symmetric] st2_def [symmetric]
    by (simp add: bindE_def loop(1) root_set_run fin(1) ret_run)
  with fin(2,3) show ?thesis by blast
qed

section \<open>The descent\<close>

lemma node_insert_child:
  assumes n: "node_core env (Bin m l r) n" and m: "m < 8 * te_size env"
    and sim: "similar n (new_node env k)"
    and ch: "nodes env st (th env (if BITTEST k m then r else l)) = Some ch"
  shows "node_insert env (Suc fuel) n (new_node env k) ph st =
    node_insert env fuel ch (new_node env k) ph st"
proof -
  have mask: "unat (tn_prefix_mask n) = m" and kids: "tn_hasChildren n" using n by simp_all
  have pre: "tn_prefix (new_node env k) = k" by (simp add: new_node_def)
  show ?thesis
  proof (cases "BITTEST k m")
    case True
    then have "getLarger env n st = (Inr ch, st)"
      using n ch kids by (simp add: getLarger_def wp_simps)
    with True sim mask m show ?thesis
      by (simp add: isLarger_def pre bindE_Inr [where m = "getLarger env n"])
  next
    case False
    then have "getSmaller env n st = (Inr ch, st)"
      using n ch kids by (simp add: getSmaller_def wp_simps)
    with False sim mask m show ?thesis
      by (simp add: isLarger_def isSmaller_def pre bindE_Inr [where m = "getSmaller env n"])
  qed
qed

lemma agree_keys:
  assumes "wf_tree h (Bin m l r)" "agree m (akey l) k" shows "akey (Bin m l r) = akey l" "m < 8 * h"
  using assms by (auto dest: wf_BinD(1))

lemma node_insert_descend:
  "rep env (nodes env st) q t \<Longrightarrow> wf_tree (te_size env) t \<Longrightarrow> k \<notin> keys t \<Longrightarrow>
   length k = te_size env \<Longrightarrow> nodes env st (th env t) = Some n \<Longrightarrow> height t < fuel \<Longrightarrow>
   \<exists>c s n'. t = plug c s \<and> pt_insert (te_size env) k t = plug c (join (te_size env) k s) \<and>
     nodes env st (th env s) = Some n' \<and> \<not> agree (mask_of (te_size env) s) (akey s) k \<and>
     node_insert env fuel n (new_node env k) ph st = node_split env n' (new_node env k) ph st"
proof (induction t arbitrary: q n fuel)
  case (Tip k')
  from Tip(6) obtain f where f: "fuel = Suc f" by (cases fuel) auto
  have nc: "node_core env (Tip k') n" using Tip.prems by (auto simp: nodeat_def)
  have ag: "\<not> agree (8 * te_size env) k' k" using Tip.prems by (simp add: agree_all_eq)
  then have "\<not> similar n (new_node env k)" using similar_new_node [OF nc] Tip.prems(2) by simp
  then have "node_insert env fuel n (new_node env k) ph st = node_split env n (new_node env k) ph st"
    by (simp add: f)
  moreover have "Tip k' = plug [] (Tip k')" "pt_insert (te_size env) k (Tip k') = plug [] (join (te_size env) k (Tip k'))"
    using Tip.prems(3) by simp_all
  ultimately show ?case using Tip.prems(5) ag by (metis mask_of.simps(1) akey.simps(1))
next
  case (Bin m l r)
  from Bin(8) obtain f where f: "fuel = Suc f" "height l < f" "height r < f" by (cases fuel) auto
  have nc: "node_core env (Bin m l r) n" using Bin.prems(1,5) by (auto simp: nodeat_def)
  note wf = wf_BinD [OF Bin.prems(2)]
  have sim: "similar n (new_node env k) \<longleftrightarrow> agree m (akey l) k"
    using similar_new_node [OF nc Bin.prems(2)] by simp
  show ?case
  proof (cases "agree m (akey l) k")
    case False
    then have "node_insert env fuel n (new_node env k) ph st = node_split env n (new_node env k) ph st"
      using sim by (simp add: f)
    moreover have "Bin m l r = plug [] (Bin m l r)"
      "pt_insert (te_size env) k (Bin m l r) = plug [] (join (te_size env) k (Bin m l r))"
      using False by simp_all
    moreover have "\<not> agree (mask_of (te_size env) (Bin m l r)) (akey (Bin m l r)) k" using False by simp
    ultimately show ?thesis using Bin.prems(5) by blast
  next
    case ag: True
    let ?ch = "if BITTEST k m then r else l"
    let ?q = "Some (th env (Bin m l r))"
    have rc: "rep env (nodes env st) ?q ?ch" using Bin.prems(1) by simp
    then obtain ch where ch: "nodes env st (th env ?ch) = Some ch"
      using rep_present subs_self by blast
    have step: "node_insert env fuel n (new_node env k) ph st = node_insert env f ch (new_node env k) ph st"
      unfolding f(1) using ag sim by (intro node_insert_child [OF nc wf(1) _ ch]) simp
    have "\<exists>c s n'. ?ch = plug c s \<and> pt_insert (te_size env) k ?ch = plug c (join (te_size env) k s) \<and>
        nodes env st (th env s) = Some n' \<and> \<not> agree (mask_of (te_size env) s) (akey s) k \<and>
        node_insert env f ch (new_node env k) ph st = node_split env n' (new_node env k) ph st"
    proof (cases "BITTEST k m")
      case True
      show ?thesis using rc ch Bin.prems(3,4) wf(3) f(3) unfolding if_P [OF True]
        by (intro Bin.IH(2)) simp_all
    next
      case False
      show ?thesis using rc ch Bin.prems(3,4) wf(2) f(2) unfolding if_not_P [OF False]
        by (intro Bin.IH(1)) simp_all
    qed
    then obtain c s n' where IH: "?ch = plug c s"
      "pt_insert (te_size env) k ?ch = plug c (join (te_size env) k s)"
      "nodes env st (th env s) = Some n'" "\<not> agree (mask_of (te_size env) s) (akey s) k"
      "node_insert env f ch (new_node env k) ph st = node_split env n' (new_node env k) ph st" by blast
    let ?c = "c @ [(m, BITTEST k m, if BITTEST k m then l else r)]"
    have "Bin m l r = plug ?c s"
      "pt_insert (te_size env) k (Bin m l r) = plug ?c (join (te_size env) k s)"
      using IH(1,2) ag by (auto simp: plug_append mk_def)
    with IH(3-5) step show ?thesis by metis
  qed
qed

lemma node_insert_present:
  "rep env (nodes env st) q t \<Longrightarrow> wf_tree (te_size env) t \<Longrightarrow> k \<in> keys t \<Longrightarrow>
   nodes env st (th env t) = Some n \<Longrightarrow> height t < fuel \<Longrightarrow>
   node_insert env fuel n (new_node env k) ph st = (Inr False, st)"
proof (induction t arbitrary: q n fuel)
  case (Tip k')
  from Tip(5) obtain f where f: "fuel = Suc f" by (cases fuel) auto
  have nc: "node_core env (Tip k') n" using Tip.prems by (auto simp: nodeat_def)
  have "similar n (new_node env k)" using similar_new_node [OF nc Tip.prems(2)] Tip.prems(3) by simp
  then show ?case using nc by (simp add: f isLarger_def isSmaller_def ret_run)
next
  case (Bin m l r)
  from Bin(7) obtain f where f: "fuel = Suc f" "height l < f" "height r < f" by (cases fuel) auto
  have nc: "node_core env (Bin m l r) n" using Bin.prems(1,4) by (auto simp: nodeat_def)
  note wf = wf_BinD [OF Bin.prems(2)]
  have "agree m (akey l) k" using Bin.prems(3) by (intro wf(4)) auto
  then have sim: "similar n (new_node env k)" using similar_new_node [OF nc Bin.prems(2)] by simp
  let ?ch = "if BITTEST k m then r else l"
  have kc: "k \<in> keys ?ch" using Bin.prems(3) wf(5,6) by auto
  have rc: "rep env (nodes env st) (Some (th env (Bin m l r))) ?ch" using Bin.prems(1) by simp
  then obtain ch where ch: "nodes env st (th env ?ch) = Some ch"
    using rep_present subs_self by blast
  have "node_insert env f ch (new_node env k) ph st = (Inr False, st)"
  proof (cases "BITTEST k m")
    case True
    show ?thesis using rc ch kc wf(3) f(3) unfolding if_P [OF True] by (intro Bin.IH(2))
  next
    case False
    show ?thesis using rc ch kc wf(2) f(2) unfolding if_not_P [OF False] by (intro Bin.IH(1))
  qed
  then show ?case unfolding f(1) using node_insert_child [OF nc wf(1) sim ch] by simp
qed

section \<open>Insertion\<close>

theorem insert_hash_correct:
  assumes st: "stored env st (Some t)" and k: "length k = te_size env"
    and cf: "collision_free (te_hash env) [t, pt_insert (te_size env) k t]"
    and n: "nodes env st (th env t) = Some n"
  shows "\<exists>st'. insert_hash env n k True st = (Inr (k \<notin> keys t), st') \<and>
    stored env st' (Some (pt_insert (te_size env) k t)) \<and>
    (\<forall>x. length x \<noteq> te_size env \<longrightarrow> x \<noteq> root_name \<longrightarrow> storage_get st' x = storage_get st x)"
proof -
  have wf: "wf_tree (te_size env) t" and rep: "rep env (nodes env st) None t" using st by simp_all
  have fuel: "height t < loop_fuel" using height_le [OF wf] size_byte by (simp add: loop_fuel_def)
  show ?thesis
  proof (cases "k \<in> keys t")
    case True
    then show ?thesis using node_insert_present [OF rep wf True n fuel] st pt_insert_id [OF wf True]
      by (auto simp: insert_hash_def)
  next
    case False
    obtain c s n' where d: "t = plug c s" "pt_insert (te_size env) k t = plug c (join (te_size env) k s)"
      "nodes env st (th env s) = Some n'" "\<not> agree (mask_of (te_size env) s) (akey s) k"
      "node_insert env loop_fuel n (new_node env k) True st = node_split env n' (new_node env k) True st"
      using node_insert_descend [OF rep wf False k n fuel] by blast
    have "wf_tree (te_size env) (pt_insert (te_size env) k t)" using wf k by (rule wf_pt_insert)
    with node_split_correct [OF st [unfolded d(1)] d(3) k False [unfolded d(1)] d(4)] cf False
    show ?thesis unfolding insert_hash_def d(5) d(2) unfolding d(1) by simp
  qed
qed

end

end
