(* ===== verification/TrieErase.thy ===== *)
theory TrieErase
  imports TrieInsert
begin

text \<open>
  \<^verbatim>\<open>TrieNode::erase\<close> on a stored tree is \<open>pt_delete\<close>: the leaf and its parent go, the sibling
  moves up, the ancestors above are rebuilt.  The three cases of the code (the leaf is the
  root, its parent is the root, it has a grandparent) are the three shapes of the context of
  the leaf.
\<close>

section \<open>The loop of \<open>erase\<close>\<close>

definition put_round_up :: "trie_env \<Rightarrow> trie_node \<Rightarrow> trie_node \<Rightarrow> trie_node \<Rightarrow> kvstore \<Rightarrow> kvstore" where
  "put_round_up env p nb ch st =
     put_node env (setParent nb p) (put_node env (setParent ch p) (put_node env p st))"

lemma nodes_put_round_up:
  assumes "node_sized env p" "node_sized env nb" "node_sized env ch"
    and "tn_hash ch \<noteq> tn_hash nb" "tn_hash ch \<noteq> tn_hash p" "tn_hash nb \<noteq> tn_hash p"
  shows "nodes env (put_round_up env p nb ch st) = (nodes env st)(tn_hash nb \<mapsto> setParent nb p,
    tn_hash ch \<mapsto> setParent ch p, tn_hash p \<mapsto> p)"
proof -
  have "length (tn_hash p) = te_size env" using assms(1) by (simp add: node_sized_def)
  with assms show ?thesis
    by (simp add: put_round_up_def setParent_sized) (metis fun_upd_twist)
qed

lemma get_put_round_up:
  "k \<notin> {tn_hash nb, tn_hash ch, tn_hash p} \<Longrightarrow>
   storage_get (put_round_up env p nb ch st) k = storage_get st k"
  by (simp add: put_round_up_def)

lemma sep_head_ne:
  assumes "sep env ((m, d, b) # c) s s'"
  shows "th env s' \<noteq> th env b" "th env s' \<noteq> th env (mk m d s' b)" "th env b \<noteq> th env (mk m d s' b)"
proof -
  have dist: "distinct (map (th env) (subs s' @ mk m d s' b # ancs c (mk m d s' b) @ subs b @ sibs c))"
    using assms by (simp add: sep_def new_subs_def)
  show "th env s' \<noteq> th env b" "th env s' \<noteq> th env (mk m d s' b)" "th env b \<noteq> th env (mk m d s' b)"
    using distinct_map_parts [OF dist, of s'] distinct_map_parts(2) [OF dist, of b "mk m d s' b"]
    by simp_all
qed

context trie_hash
begin

lemma erase_up_step:
  fixes ch :: trie_node
  assumes op: "nodes env st (tn_parent oc) = Some op" and hp: "tn_hasParent oc"
    and opc: "node_core env (mk m d s b) op"
    and nb: "nodes env st (th env b) = Some nb"
    and oc: "tn_hash oc = th env s" and ne: "th env s \<noteq> th env b"
  defines "p \<equiv> rebuilt env d op ch"
  shows "erase_up env (Suc fuel) oc ch ds st =
    erase_up env fuel op p (ds @ [op]) (put_round_up env p nb ch st)"
proof -
  have gp: "getParent env oc st = (Inr op, st)" using op hp by (simp add: getParent_def wp_simps)
  have kids: "tn_hasChildren op" "tn_smaller op = th env (if d then b else s)"
    "tn_larger op = th env (if d then s else b)"
    using opc by (auto simp: mk_def split: if_splits)
  show ?thesis
  proof (cases d)
    case True
    with kids oc have eq: "isEqualToLarger op oc" by (simp add: isEqualToLarger_def)
    have gl: "getSmaller env op st = (Inr nb, st)"
      using kids True nb by (simp add: getSmaller_def wp_simps)
    have sl: "setLarger op ch = Inr (op\<lparr>tn_larger := tn_hash ch, tn_dirty := True\<rparr>)"
      using kids by (simp add: setLarger_def)
    show ?thesis using True hp
      by (simp add: bindE_Inr [where m = "getParent env oc", OF gp]
          bindE_Inr [where m = "getSmaller env op", OF gl] eq sl
          wp_simps Let_def p_def rebuilt_def put_round_up_def)
  next
    case False
    with kids oc have eq: "\<not> isEqualToLarger op oc" "isEqualToSmaller op oc"
      using ne by (simp_all add: isEqualToSmaller_def isEqualToLarger_def)
    have gl: "getLarger env op st = (Inr nb, st)"
      using kids False nb by (simp add: getLarger_def wp_simps)
    have sl: "setSmaller op ch = Inr (op\<lparr>tn_smaller := tn_hash ch, tn_dirty := True\<rparr>)"
      using kids by (simp add: setSmaller_def)
    show ?thesis using False hp
      by (simp add: bindE_Inr [where m = "getParent env oc", OF gp]
          bindE_Inr [where m = "getLarger env op", OF gl] eq sl
          wp_simps Let_def p_def rebuilt_def put_round_up_def)
  qed
qed

lemma erase_up_run:
  "length c < fuel \<Longrightarrow> wf_tree (te_size env) (plug c s') \<Longrightarrow> crep env (nodes env st) c s \<Longrightarrow>
   srep env (nodes env st) s' \<Longrightarrow> node_core env s' ch \<Longrightarrow>
   sep env c s s' \<Longrightarrow> tn_hash oc = th env s \<Longrightarrow> parent_is (parent_of env c s) oc \<Longrightarrow>
   \<forall>b \<in> set (sibs c). th env s \<noteq> th env b \<Longrightarrow>
   (c = [] \<longrightarrow> nodes env st (th env s') = Some ch \<and> \<not> tn_hasParent ch) \<Longrightarrow>
   \<exists>st' as ch'. erase_up env fuel oc ch ds st = (Inr (ch', ds @ as), st') \<and>
     tn_hash ch' = th env (plug c s') \<and>
     rep env (nodes env st') None (plug c s') \<and> map tn_hash as = map (th env) (ancs c s) \<and>
     (\<forall>k. k \<notin> th env ` set (new_subs c s') \<longrightarrow> storage_get st' k = storage_get st k)"
proof (induction c arbitrary: fuel s s' oc ch ds st)
  case Nil
  then obtain f where "fuel = Suc f" by (cases fuel) auto
  with Nil show ?case by (auto simp: wp_simps rep_split nodeat_def node_core_hash)
next
  case (Cons x c)
  obtain m d b where x: "x = (m, d, b)" by (cases x)
  obtain f where f: "fuel = Suc f" "length c < f" using Cons.prems(1) by (cases fuel) auto
  let ?a = "mk m d s b" and ?a' = "mk m d s' b"
  note P = Cons.prems [unfolded x]
  from P(3) have "nodeat env (nodes env st) (parent_of env c ?a) ?a"
    and rb: "rep env (nodes env st) (Some (th env ?a)) b" by (simp_all add: Let_def)
  then obtain op where op: "nodes env st (th env ?a) = Some op" "node_core env ?a op"
    "parent_is (parent_of env c ?a) op" by (auto simp: nodeat_def)
  from rb obtain nb where nb: "nodes env st (th env b) = Some nb" "node_core env b nb"
    by (auto simp: rep_split nodeat_def)
  define p where "p = rebuilt env d op ch"
  define st1 where "st1 = put_round_up env p nb ch st"
  have oc: "tn_hasParent oc" "tn_parent oc = th env ?a" using P(8) by simp_all
  have ne: "th env s \<noteq> th env b" using P(9) by simp
  have step: "erase_up env fuel oc ch ds st = erase_up env f op p (ds @ [op]) st1"
    unfolding f p_def st1_def
    by (rule erase_up_step [OF _ oc(1) op(2) nb(1) P(7) ne]) (simp add: oc op)
  note rb = rebuild_step [OF P(2,3,4,5,6) op(1) nb(1), folded p_def]
  have ph: "tn_hash p = th env ?a'" using rb(3) by (rule node_core_hash)
  have N1: "nodes env st1 = (nodes env st)(th env b \<mapsto> setParent nb p, th env s' \<mapsto> setParent ch p,
      th env ?a' \<mapsto> p)"
    using sep_head_ne [OF P(6)] unfolding st1_def
    by (simp add: nodes_put_round_up node_core_sized [OF rb(3)] node_core_sized [OF nb(2)]
        node_core_sized [OF P(5)] ph node_core_hash [OF nb(2)] node_core_hash [OF P(5)])
  note rb' = rb [folded N1]
  have sp: "sep env c ?a ?a'" using P(6) by (rule sep_step)
  have "th env ?a \<noteq> th env u" if "u \<in> set (new_subs ((m, d, b) # c) s')" for u
    using P(6) that by (auto simp: sep_def)
  then have old: "\<forall>u \<in> set (sibs c). th env ?a \<noteq> th env u" by (simp add: new_subs_def)
  have base: "c = [] \<longrightarrow> nodes env st1 (th env ?a') = Some p \<and> \<not> tn_hasParent p"
    using rb'(4,5) by auto
  have pl: "wf_tree (te_size env) (plug c ?a')" using P(2) by simp
  obtain st' as ch' where IH: "erase_up env f op p (ds @ [op]) st1 = (Inr (ch', (ds @ [op]) @ as), st')"
    "tn_hash ch' = th env (plug c ?a')"
    "rep env (nodes env st') None (plug c ?a')" "map tn_hash as = map (th env) (ancs c ?a)"
    "\<forall>k. k \<notin> th env ` set (new_subs c ?a') \<longrightarrow> storage_get st' k = storage_get st1 k"
    using Cons.IH [OF f(2) pl rb'(1-3) sp node_core_hash [OF op(2)] op(3) old base] by blast
  have sub: "set (new_subs c ?a') = set (new_subs ((m, d, b) # c) s')"
    by (simp add: set_new_subs)
  have "storage_get st' k = storage_get st k" if k: "k \<notin> th env ` set (new_subs ((m, d, b) # c) s')" for k
  proof -
    have "u \<in> set (new_subs ((m, d, b) # c) s')" if "u \<in> {b, s', ?a'}" for u
      using that by (auto simp: new_subs_def)
    then have "k \<notin> {th env b, th env s', th env ?a'}" using k by blast
    then have "storage_get st1 k = storage_get st k" unfolding st1_def
      by (intro get_put_round_up) (simp add: ph node_core_hash [OF nb(2)] node_core_hash [OF P(5)])
    with IH(5) k sub show ?thesis by simp
  qed
  with IH(1-4) show ?case unfolding step x using node_core_hash [OF op(2)]
    by (intro exI [of _ st'] exI [of _ "op # as"] exI [of _ ch']) simp
qed

section \<open>The three cases\<close>

text \<open>The replaced nodes are the leaf and its ancestors: they alone contain the key.\<close>

lemma erased_nodes:
  assumes wf: "wf_tree (te_size env) (plug ((m, d, b) # c) (Tip k))"
    and wf': "wf_tree (te_size env) (plug c b)"
    and cf: "collision_free (te_hash env) [plug ((m, d, b) # c) (Tip k), plug c b]"
    and k: "k \<notin> keys (plug c b)"
    and D: "D = th env ` ({Tip k} \<union> set (ancs ((m, d, b) # c) (Tip k)))"
  shows "D \<inter> node_hashes env (plug c b) = {}"
    "node_hashes env (plug ((m, d, b) # c) (Tip k)) \<subseteq> D \<union> node_hashes env (plug c b)"
    "D \<subseteq> node_hashes env (plug ((m, d, b) # c) (Tip k))"
    "sep env c (mk m d (Tip k) b) b"
proof -
  let ?T = "plug ((m, d, b) # c) (Tip k)"
  let ?A = "{Tip k} \<union> set (ancs ((m, d, b) # c) (Tip k))"
  have kA: "k \<in> keys a" if "a \<in> ?A" for a
    using that ancs_keys [of a "(m, d, b) # c" "Tip k"] by auto
  have AT: "?A \<subseteq> set (subs ?T)" by (auto simp: set_subs_plug)
  have kT': "k \<notin> keys u" if "u \<in> set (subs (plug c b))" for u
    using that k subs_keys [of u "plug c b"] by blast
  have "th env a \<noteq> th env u" if "a \<in> ?A" "u \<in> set (subs (plug c b))" for a u
  proof
    assume "th env a = th env u"
    then have "a = u"
      using that AT by (intro thash_inj_subs [OF cf _ _ wf wf']) auto
    with kA [OF that(1)] kT' [OF that(2)] show False by simp
  qed
  then show "D \<inter> node_hashes env (plug c b) = {}"
    unfolding D node_hashes_def by blast
  show "node_hashes env ?T \<subseteq> D \<union> node_hashes env (plug c b)"
    unfolding D node_hashes_def by (auto simp: set_subs_plug)
  show "D \<subseteq> node_hashes env ?T" unfolding D node_hashes_def using AT by blast
  have cf': "collision_free (te_hash env) [plug c (mk m d (Tip k) b), plug c b]" using cf by simp
  show "sep env c (mk m d (Tip k) b) b"
  proof (rule sepI [OF cf' _ wf'])
    show "wf_tree (te_size env) (plug c (mk m d (Tip k) b))" using wf by simp
    show "\<forall>a \<in> set (ancs c (mk m d (Tip k) b)). a \<notin> set (subs (plug c b))"
      using kA kT' by auto
  qed
qed

lemma erase_root_run:
  assumes st: "stored env st (Some (Tip k))"
  shows "\<exists>st'. erase_hash env k ph st = (Inr True, st') \<and> stored env st' None \<and>
    (\<forall>x. length x \<noteq> te_size env \<longrightarrow> x \<noteq> root_name \<longrightarrow> storage_get st' x = storage_get st x)"
proof -
  obtain n where n: "nodes env st k = Some n" "node_core env (Tip k) n" "\<not> tn_hasParent n"
    using st by (auto simp: nodeat_def)
  have nh: "tn_hash n = k" and len: "length k = te_size env" using n(2) st by simp_all
  have nr: "k \<noteq> root_name" using len size_not_root by (auto simp: root_name_def)
  have "storage_get st root_name \<noteq> None" using st by simp
  then obtain s1 where s1: "storage_del st root_name = Inr s1"
    "storage_get s1 = (storage_get st)(root_name := None)" using kv.del_result by blast
  have "nodes env s1 (tn_hash n) \<noteq> None" using n nh nr s1(2) by (auto simp: nodes_def)
  then obtain s2 where s2: "deleteFromDb n s1 = (Inr True, s2)"
    "storage_get s2 = (storage_get s1)(k := None)" using deleteFromDb_run nh by blast
  have run: "erase_hash env k ph st = (Inr True, s2)"
    using n nh s1(1) s2(1)
    by (simp add: erase_hash_def catchE_def bindE_def load_node_Some root_del_def ret_run)
  have "storage_get s2 x = None" if "length x = te_size env" for x
  proof -
    have "x = k \<or> storage_get st x = None" using st that by (auto simp: node_hashes_def)
    then show ?thesis using s1(2) s2(2) by auto
  qed
  with s1(2) s2(2) nr len run show ?thesis
    by (intro exI [of _ s2]) (auto simp: fun_eq_iff)
qed

lemma stored_leaf:
  assumes st: "stored env st (Some (plug ((m, d, b) # c) (Tip k)))"
    and cf: "collision_free (te_hash env) ts" "plug ((m, d, b) # c) (Tip k) \<in> set ts"
  obtains n pn nb where "load_node env k st = (Inr n, st)" "\<not> tn_hasChildren n" "tn_hasParent n" "tn_hash n = k"
    "getParent env n st = (Inr pn, st)" "nodes env st (th env (mk m d (Tip k) b)) = Some pn"
    "nodes env st (th env b) = Some nb" "node_core env b nb" "srep env (nodes env st) b"
    "isEqualToLarger pn n \<longleftrightarrow> d" "isEqualToSmaller pn n \<longleftrightarrow> \<not> d"
    "(if d then getSmaller env pn else getLarger env pn) st = (Inr nb, st)"
proof -
  let ?a = "mk m d (Tip k) b"
  let ?T = "plug ((m, d, b) # c) (Tip k)"
  have wf: "wf_tree (te_size env) ?T" using st by simp
  have "rep env (nodes env st) None ?T" using st by simp
  then have r: "crep env (nodes env st) ((m, d, b) # c) (Tip k)"
    "rep env (nodes env st) (parent_of env ((m, d, b) # c) (Tip k)) (Tip k)"
    unfolding rep_plug by simp_all
  from r(2) obtain n where n: "nodes env st k = Some n" "node_core env (Tip k) n"
    "tn_hasParent n" "tn_parent n = th env ?a" by (auto simp: nodeat_def)
  from r(1) obtain pn where pn: "nodes env st (th env ?a) = Some pn" "node_core env ?a pn"
    by (auto simp: Let_def nodeat_def)
  from r(1) obtain nb where nb: "nodes env st (th env b) = Some nb" "node_core env b nb"
    "srep env (nodes env st) b" by (auto simp: Let_def rep_split nodeat_def)
  have d: "distinct (map (th env) (subs ?T))" using cf wf by (rule distinct_hashes)
  then have dd: "distinct (map (th env) (subs (Tip k) @ ancs ((m, d, b) # c) (Tip k) @ sibs ((m, d, b) # c)))"
    using distinct_map_mset [OF mset_new_subs, of "th env" "(m, d, b) # c" "Tip k"]
    by (simp add: new_subs_def)
  have "th env (Tip k) \<noteq> th env b"
    by (rule distinct_map_appendD [OF dd]) simp_all
  then have ne: "k \<noteq> th env b" by simp
  have kids: "tn_hasChildren pn" "tn_smaller pn = (if d then th env b else k)"
    "tn_larger pn = (if d then k else th env b)"
    using pn(2) by (auto simp: mk_def split: if_splits)
  show thesis
  proof (rule that)
    show "load_node env k st = (Inr n, st)" using n(1) by (rule load_node_Some)
    show "\<not> tn_hasChildren n" "tn_hash n = k" using n(2) by simp_all
    show "tn_hasParent n" by (rule n(3))
    show "getParent env n st = (Inr pn, st)"
      using n pn by (simp add: getParent_def load_node_Some)
    show "isEqualToLarger pn n \<longleftrightarrow> d" "isEqualToSmaller pn n \<longleftrightarrow> \<not> d"
      using kids n(2) ne by (auto simp: isEqualToLarger_def isEqualToSmaller_def)
    show "(if d then getSmaller env pn else getLarger env pn) st = (Inr nb, st)"
      using kids nb(1) by (simp add: getSmaller_def getLarger_def load_node_Some)
  qed (use pn(1) nb in simp_all)
qed

lemma ctx_hashes_distinct:
  assumes "collision_free (te_hash env) ts" "plug c s \<in> set ts" "wf_tree (te_size env) (plug c s)"
  shows "distinct (map (th env) (s # ancs c s))"
proof -
  have "distinct (map (th env) (new_subs c s))"
    using distinct_hashes [OF assms] distinct_map_mset [OF mset_new_subs] by blast
  then have d: "distinct (map (th env) (subs s @ ancs c s @ sibs c))" by (simp add: new_subs_def)
  have "th env s \<noteq> th env a" if "a \<in> set (ancs c s)" for a
    by (rule distinct_map_appendD [OF d]) (use that in simp_all)
  with d show ?thesis by auto
qed

lemma erase_below_root_run:
  assumes st: "stored env st (Some (plug [(m, d, b)] (Tip k)))"
    and wf': "wf_tree (te_size env) b" and k: "k \<notin> keys b"
    and cf: "collision_free (te_hash env) [plug [(m, d, b)] (Tip k), b]"
  shows "\<exists>st'. erase_hash env k ph st = (Inr True, st') \<and> stored env st' (Some b) \<and>
    (\<forall>x. length x \<noteq> te_size env \<longrightarrow> x \<noteq> root_name \<longrightarrow> storage_get st' x = storage_get st x)"
proof -
  let ?a = "mk m d (Tip k) b"
  have wf: "wf_tree (te_size env) (plug [(m, d, b)] (Tip k))" using st by simp
  obtain n pn nb where L: "load_node env k st = (Inr n, st)" "\<not> tn_hasChildren n" "tn_hasParent n"
    "tn_hash n = k"
    "getParent env n st = (Inr pn, st)" "nodes env st (th env ?a) = Some pn"
    "nodes env st (th env b) = Some nb" "node_core env b nb" "srep env (nodes env st) b"
    "isEqualToLarger pn n \<longleftrightarrow> d" "isEqualToSmaller pn n \<longleftrightarrow> \<not> d"
    "(if d then getSmaller env pn else getLarger env pn) st = (Inr nb, st)"
    using stored_leaf [OF st cf] by auto
  have pn: "node_core env ?a pn" "\<not> tn_hasParent pn"
    using stored_subtree [of st "[]" ?a] st L(6) by simp_all
  let ?nb = "nb\<lparr>tn_hasParent := False\<rparr>"
  let ?D = "th env ` ({Tip k} \<union> set (ancs [(m, d, b)] (Tip k)))"
  have nbc: "node_core env b ?nb" using L(8) by (cases b) (auto simp: node_sized_def)
  have nbh: "tn_hash ?nb = th env b" using nbc by (rule node_core_hash)
  define st1 where "st1 = put_node env ?nb st"
  have N1: "nodes env st1 = (nodes env st)(th env b \<mapsto> ?nb)"
    unfolding st1_def using node_core_sized [OF nbc] nbh by simp
  have cfb: "collision_free (te_hash env) [plug [(m, d, b)] (Tip k), plug [] b]" using cf by simp
  have e: "?D \<inter> node_hashes env b = {}" "node_hashes env (plug [(m, d, b)] (Tip k)) \<subseteq> ?D \<union> node_hashes env b"
    "?D \<subseteq> node_hashes env (plug [(m, d, b)] (Tip k))"
    using erased_nodes [OF wf _ cfb, of ?D] wf' k by simp_all
  have rep1: "rep env (nodes env st1) None b"
    unfolding N1 using L(9) nbc _ distinct_hashes [OF cf _ wf'] by (rule rep_reparent) simp_all
  have ph: "tn_hash pn = th env ?a" using pn(1) by (rule node_core_hash)
  have dsD: "tn_hash ` set [pn, n] = ?D" using ph L(4) by auto
  have dis: "distinct (map tn_hash [pn, n])"
    using ctx_hashes_distinct [OF cf _ wf] ph L(4) by auto
  have fr: "storage_get st1 x = storage_get st x" if "x \<notin> node_hashes env b" for x
    unfolding st1_def using that nbh by (intro get_put_node) (auto simp: node_hashes_def)
  obtain st' where fin: "delete_nodes [pn, n] (storage_put st1 root_name (th env b)) = (Inr (), st')"
    "stored env st' (Some b)"
    "\<forall>x. length x \<noteq> te_size env \<longrightarrow> x \<noteq> root_name \<longrightarrow> storage_get st' x = storage_get st x"
    using swap_finish [OF st wf' rep1 dis _ _ _ fr] e unfolding dsD [symmetric] by blast
  have ebr: "erase_below_root env n pn st = (Inr (), st')"
    using fin(1) L(12) L(10) nbh st1_def
    by (simp add: erase_below_root_def bindE_def toDb_run root_set_run Let_def split: if_splits)
  have "erase_hash env k ph st = (Inr True, st')"
    using L(1-5) pn(2) ebr
    by (simp add: erase_hash_def catchE_def bindE_def ret_run)
  with fin(2,3) show ?thesis by blast
qed

text \<open>With a grandparent, the code's first round is a round of its loop.\<close>

lemma erase_up_noparent:
  "0 < fuel \<Longrightarrow> \<not> tn_hasParent oc \<Longrightarrow> erase_up env fuel oc ch ds = ret (ch, ds)"
  by (cases fuel) simp_all

lemma loop_fuel_pos: "0 < loop_fuel"
  by (simp add: loop_fuel_def)

lemma erase_deep_eq:
  assumes pn: "tn_hasParent pn" "tn_parent pn = th env (mk m2 d2 a b2)" "tn_hash pn = th env a"
    and gp: "nodes env st (th env (mk m2 d2 a b2)) = Some ogp" "node_core env (mk m2 d2 a b2) ogp"
    and nb: "(if d then getSmaller env pn else getLarger env pn) st = (Inr nb, st)"
    and eq: "isEqualToLarger pn n \<longleftrightarrow> d" "isEqualToSmaller pn n \<longleftrightarrow> \<not> d"
    and nb2: "nodes env st (th env b2) = Some nb2" and ne: "th env a \<noteq> th env b2"
  shows "erase_deep env n pn True st =
    bindE (erase_up env (Suc loop_fuel) pn nb [pn, n])
      (\<lambda>(newgp, ds). bindE (root_set (tn_hash newgp)) (\<lambda>_. delete_nodes ds)) st"
proof -
  define p where "p = rebuilt env d2 ogp nb"
  define st1 where "st1 = put_round_up env p nb2 nb st"
  have getgp: "getParent env pn st = (Inr ogp, st)" using pn gp(1) by (simp add: getParent_def load_node_Some)
  have kids: "tn_hasChildren ogp" "tn_smaller ogp = th env (if d2 then b2 else a)"
    "tn_larger ogp = th env (if d2 then a else b2)"
    using gp(2) by (auto simp: mk_def split: if_splits)
  have ogp: "isEqualToLarger ogp pn \<longleftrightarrow> d2" "isEqualToSmaller ogp pn \<longleftrightarrow> \<not> d2"
    using kids pn(3) ne by (auto simp: isEqualToLarger_def isEqualToSmaller_def)
  have other: "(if d2 then getSmaller env ogp else getLarger env ogp) st = (Inr nb2, st)"
    using kids nb2 by (simp add: getSmaller_def getLarger_def load_node_Some)
  have sets: "setLarger ogp nb = Inr (ogp\<lparr>tn_larger := tn_hash nb, tn_dirty := True\<rparr>)"
    "setSmaller ogp nb = Inr (ogp\<lparr>tn_smaller := tn_hash nb, tn_dirty := True\<rparr>)"
    using kids by (simp_all add: setLarger_def setSmaller_def)
  have up: "erase_up env (Suc loop_fuel) pn nb [pn, n] st = erase_up env loop_fuel ogp p [pn, n, ogp] st1"
    using erase_up_step [OF _ pn(1) gp(2) nb2 pn(3) ne, of loop_fuel nb "[pn, n]"] pn(2) gp(1)
    by (simp add: p_def st1_def)
  let ?F = "if isEqualToLarger pn n then getSmaller env pn
      else if isEqualToSmaller pn n then getLarger env pn
      else throw (DbTrieException ''Parent has wrong children'')"
  let ?S = "if isEqualToLarger ogp pn then
        bindE (getSmaller env ogp) (\<lambda>x. bindE (liftE (setLarger ogp nb)) (\<lambda>y. ret (x, y)))
      else if isEqualToSmaller ogp pn then
        bindE (getLarger env ogp) (\<lambda>x. bindE (liftE (setSmaller ogp nb)) (\<lambda>y. ret (x, y)))
      else throw (DbTrieException ''Grandparent has wrong children'')"
  have first: "?F st = (Inr nb, st)" using eq nb by (simp split: if_splits)
  have second: "?S st = (Inr (nb2, if d2 then ogp\<lparr>tn_larger := tn_hash nb, tn_dirty := True\<rparr>
                 else ogp\<lparr>tn_smaller := tn_hash nb, tn_dirty := True\<rparr>), st)"
    using ogp other by (simp add: bindE_def liftE_def ret_def sets split: if_splits)
  note run = bindE_Inr [where m = "getParent env pn", OF getgp] bindE_Inr [where m = ?F, OF first]
    bindE_Inr [where m = ?S, OF second]
  have puts: "bindE (toDb env p) (\<lambda>_. bindE (toDb env (setParent nb p))
      (\<lambda>_. bindE (toDb env (setParent nb2 p)) X)) st = X True st1" for X :: "bool \<Rightarrow> 'c nprog"
    by (simp add: bindE_def toDb_run st1_def put_round_up_def)
  show ?thesis
  proof (cases "tn_hasParent ogp")
    case True
    then show ?thesis
      unfolding erase_deep_def
      by (simp only: run split_conv Let_def
          rebuilt_def [symmetric] p_def [symmetric] puts if_True not_True_eq_False if_False)
        (simp add: bindE_def up ret_run del: erase_up.simps split: prod.split sum.split)
  next
    case False
    then show ?thesis
      unfolding erase_deep_def
      by (simp only: run split_conv Let_def
          rebuilt_def [symmetric] p_def [symmetric] puts if_True not_False_eq_True)
        (simp add: bindE_def up erase_up_noparent loop_fuel_pos ret_def del: erase_up.simps split: prod.split sum.split)
  qed
qed

lemma erase_deep_run:
  assumes st: "stored env st (Some (plug ((m, d, b) # (m2, d2, b2) # c) (Tip k)))"
    and wf': "wf_tree (te_size env) (plug ((m2, d2, b2) # c) b)"
    and k: "k \<notin> keys (plug ((m2, d2, b2) # c) b)"
    and cf: "collision_free (te_hash env)
      [plug ((m, d, b) # (m2, d2, b2) # c) (Tip k), plug ((m2, d2, b2) # c) b]"
  shows "\<exists>st'. erase_hash env k True st = (Inr True, st') \<and>
    stored env st' (Some (plug ((m2, d2, b2) # c) b)) \<and>
    (\<forall>x. length x \<noteq> te_size env \<longrightarrow> x \<noteq> root_name \<longrightarrow> storage_get st' x = storage_get st x)"
proof -
  let ?c = "(m2, d2, b2) # c" and ?a = "mk m d (Tip k) b"
  let ?C = "(m, d, b) # ?c" and ?g = "mk m2 d2 (mk m d (Tip k) b) b2"
  let ?T = "plug ?C (Tip k)" and ?T' = "plug ?c b"
  have wf: "wf_tree (te_size env) ?T" using st by simp
  have cfa: "collision_free (te_hash env) [plug ?c ?a, ?T']" using cf by simp
  obtain n pn nb where L: "load_node env k st = (Inr n, st)" "\<not> tn_hasChildren n" "tn_hasParent n"
    "tn_hash n = k"
    "getParent env n st = (Inr pn, st)" "nodes env st (th env ?a) = Some pn"
    "nodes env st (th env b) = Some nb" "node_core env b nb" "srep env (nodes env st) b"
    "isEqualToLarger pn n \<longleftrightarrow> d" "isEqualToSmaller pn n \<longleftrightarrow> \<not> d"
    "(if d then getSmaller env pn else getLarger env pn) st = (Inr nb, st)"
    by (rule stored_leaf [OF st cf]) auto
  have sta: "stored env st (Some (plug ?c ?a))" using st by simp
  note sub = stored_subtree [OF sta L(6)]
  have pnh: "tn_hash pn = th env ?a" using sub(1) by (rule node_core_hash)
  have pnp: "tn_hasParent pn" "tn_parent pn = th env ?g" using sub(2) by simp_all
  from sub(3) obtain ogp where gp: "nodes env st (th env ?g) = Some ogp" "node_core env ?g ogp"
    by (auto simp: Let_def nodeat_def)
  from sub(3) obtain nb2 where nb2: "nodes env st (th env b2) = Some nb2"
    by (auto simp: Let_def rep_split nodeat_def)
  have wfa: "wf_tree (te_size env) (plug ?c ?a)" using wf by simp
  have dd: "distinct (map (th env) (subs ?a @ ancs ?c ?a @ sibs ?c))"
    using distinct_hashes [OF cfa _ wfa] distinct_map_mset [OF mset_new_subs, of "th env" ?c ?a]
    by (simp add: new_subs_def)
  have sib: "\<forall>u \<in> set (sibs ?c). th env ?a \<noteq> th env u"
    by (intro ballI distinct_map_appendD [OF dd]) simp_all
  then have ne: "th env ?a \<noteq> th env b2" by simp
  define D where "D = th env ` ({Tip k} \<union> set (ancs ?C (Tip k)))"
  note e = erased_nodes [OF wf wf' cf k D_def]
  have fuel: "length ?c < Suc loop_fuel" using sub(6) size_byte by (simp add: loop_fuel_def)
  obtain st3 as ng where loop: "erase_up env (Suc loop_fuel) pn nb [pn, n] st = (Inr (ng, [pn, n] @ as), st3)"
    "tn_hash ng = th env ?T'" "rep env (nodes env st3) None ?T'"
    "map tn_hash as = map (th env) (ancs ?c ?a)"
    "\<forall>x. x \<notin> th env ` set (new_subs ?c b) \<longrightarrow> storage_get st3 x = storage_get st x"
    using erase_up_run [OF fuel wf' sub(3) L(9,8) e(4) pnh sub(2) sib, of "[pn, n]"] by blast
  let ?ds = "[pn, n] @ as"
  have dsm: "map tn_hash ?ds = th env ?a # k # map (th env) (ancs ?c ?a)"
    using pnh L(4) loop(4) by simp
  then have dsD: "tn_hash ` set ?ds = D"
    unfolding D_def set_map [symmetric] by (simp add: insert_commute)
  have dis: "distinct (map tn_hash ?ds)"
    using ctx_hashes_distinct [OF cf _ wf] unfolding dsm by auto
  have fr: "storage_get st3 x = storage_get st x" if "x \<notin> node_hashes env ?T'" for x
    using loop(5) that by (simp add: node_hashes_def set_new_subs)
  obtain st' where fin: "delete_nodes ?ds (storage_put st3 root_name (th env ?T')) = (Inr (), st')"
    "stored env st' (Some ?T')"
    "\<forall>x. length x \<noteq> te_size env \<longrightarrow> x \<noteq> root_name \<longrightarrow> storage_get st' x = storage_get st x"
    using swap_finish [OF st wf' loop(3) dis _ _ _ fr] e(1-3) unfolding dsD by blast
  have "erase_deep env n pn True st = (Inr (), st')"
    unfolding erase_deep_eq [OF pnp pnh gp L(12,10,11) nb2 ne]
    using fin(1) by (simp add: bindE_def loop(1,2) root_set_run del: erase_up.simps delete_nodes.simps)
  then have "erase_hash env k True st = (Inr True, st')"
    using L(1-5) pnp(1) by (simp add: erase_hash_def catchE_def bindE_def ret_run)
  with fin(2,3) show ?thesis by blast
qed

section \<open>Erasure\<close>

lemma erase_hash_present:
  assumes st: "stored env st (Some t)" and k: "k \<in> keys t"
    and cf: "collision_free (te_hash env) (t # (case pt_delete k t of None \<Rightarrow> [] | Some t' \<Rightarrow> [t']))"
  shows "\<exists>st'. erase_hash env k True st = (Inr True, st') \<and> stored env st' (pt_delete k t) \<and>
    (\<forall>x. length x \<noteq> te_size env \<longrightarrow> x \<noteq> root_name \<longrightarrow> storage_get st' x = storage_get st x)"
proof -
  have wf: "wf_tree (te_size env) t" using st by simp
  obtain c where c: "t = plug c (Tip k)" using subs_plug_ex k key_Tip_subs by blast
  have del: "pt_delete k t = cut c" using pt_delete_cut wf unfolding c by blast
  show ?thesis
  proof (cases c)
    case Nil
    then show ?thesis using erase_root_run [of st k True] st del unfolding c by simp
  next
    case (Cons x c')
    obtain m d b where x: "x = (m, d, b)" by (cases x)
    have d: "pt_delete k t = Some (plug c' b)" using del Cons x by simp
    then have wf': "wf_tree (te_size env) (plug c' b)" and k': "k \<notin> keys (plug c' b)"
      using wf_pt_delete [OF wf, of k] keys_pt_delete [OF wf, of k] by simp_all
    have cf': "collision_free (te_hash env) [plug ((m, d, b) # c') (Tip k), plug c' b]"
      using cf d c Cons x by simp
    have st': "stored env st (Some (plug ((m, d, b) # c') (Tip k)))" using st c Cons x by simp
    show ?thesis
    proof (cases c')
      case Nil
      show ?thesis
        using erase_below_root_run [of st m d b k True] st' wf' k' cf' unfolding d Nil by simp
    next
      case (Cons y c'')
      obtain m2 d2 b2 where y: "y = (m2, d2, b2)" by (cases y)
      show ?thesis using erase_deep_run [of st m d b m2 d2 b2 c'' k] st' wf' k' cf'
        unfolding d Cons y by simp
    qed
  qed
qed

lemma erase_hash_absent:
  assumes "storage_get st k = None"
  shows "erase_hash env k ph st = (Inr False, st)"
  using assms by (simp add: erase_hash_def catchE_def bindE_def load_node_def ret_run)

end

end
