(* ===== verification/KeyValueTrie.thy ===== *)
theory KeyValueTrie
  imports TrieErase
begin

text \<open>
  Classes \<^verbatim>\<open>Trie\<close> and \<^verbatim>\<open>KeyValueTrie\<close>: the set of hashes with a Merkle root.  The state is
  the storage the trie was given and the number of its leaves (a \<^verbatim>\<open>size_t\<close>).  The invariant
  \<open>trie_ok\<close> says that the storage holds exactly one well-formed tree; \<open>add\<close>, \<open>remove\<close> and
  \<open>clear\<close> keep it and refine \<open>pt_insert\<close>, \<open>pt_delete\<close> and the empty tree.
\<close>

record trie_state =
  ts_store :: kvstore
  ts_size :: u64

datatype TrieNodeType = NOT_FOUND | LEAF_NODE | INNER_NODE | NOT_SPECIFIED

type_synonym 'a tprog = "(trie_state, 'a) prog"

section \<open>Operations\<close>

text \<open>The size is written under \<^verbatim>\<open>"triesize"\<close> as the bytes of a \<^verbatim>\<open>size_t\<close>.\<close>

definition size_name :: bytes where
  "size_name = [0x74, 0x72, 0x69, 0x65, 0x73, 0x69, 0x7A, 0x65]"

definition setSize :: "u64 \<Rightarrow> trie_state \<Rightarrow> trie_state" where
  "setSize n ts = ts\<lparr>ts_size := n\<rparr>"

definition incSize :: "trie_state \<Rightarrow> trie_state" where
  "incSize ts = ts\<lparr>ts_size := ts_size ts + 1\<rparr>"

definition decSize :: "trie_state \<Rightarrow> trie_state" where
  "decSize ts = ts\<lparr>ts_size := ts_size ts - 1\<rparr>"

definition open_trie :: "kvstore \<Rightarrow> trie_state" where
  "open_trie storage =
     (let ts = \<lparr>ts_store = storage, ts_size = 0\<rparr>
      in case storage_get storage size_name of
           Some sp \<Rightarrow> if length sp = 8 then setSize (size_of_bytes sp) ts else ts
         | None \<Rightarrow> ts)"

definition close_trie :: "trie_state \<Rightarrow> kvstore" where
  "close_trie ts =
     (if 0 < ts_size ts then storage_put (ts_store ts) size_name (size_to_bytes (ts_size ts))
      else ts_store ts)"

text \<open>A program over the storage, run on the trie's storage.\<close>

definition on_store :: "'a nprog \<Rightarrow> 'a tprog" where
  "on_store m = (\<lambda>ts. case m (ts_store ts) of (r, s) \<Rightarrow> (r, ts\<lparr>ts_store := s\<rparr>))"

definition clear :: "trie_state \<Rightarrow> trie_state" where
  "clear ts = setSize 0 (ts\<lparr>ts_store := storage_clear (ts_store ts)\<rparr>)"

definition add :: "trie_env \<Rightarrow> bytes \<Rightarrow> bool \<Rightarrow> bool tprog" where
  "add env hash performhash =
     catchE
       (bindE (on_store (root_get env)) (\<lambda>root.
        bindE (on_store (insert_hash env root hash performhash)) (\<lambda>inserted.
        bindE (if inserted then modify incSize else ret ()) (\<lambda>_. ret inserted))))
       (\<lambda>_. bindE (on_store (toDb env (new_node env hash))) (\<lambda>_.
             bindE (on_store (root_set hash)) (\<lambda>_.
             bindE (modify incSize) (\<lambda>_. ret True))))"

definition remove :: "trie_env \<Rightarrow> bytes \<Rightarrow> bool \<Rightarrow> bool tprog" where
  "remove env hash performhash =
     catchE
       (bindE (on_store (root_get env)) (\<lambda>root.
        bindE (on_store (erase_hash env hash performhash)) (\<lambda>removed.
        bindE (if removed then modify decSize else ret ()) (\<lambda>_.
        bindE (modify (\<lambda>ts. if ts_size ts = 0 then clear ts else ts)) (\<lambda>_. ret removed)))))
       (\<lambda>_. ret False)"

definition contains :: "trie_env \<Rightarrow> trie_state \<Rightarrow> bytes \<Rightarrow> TrieNodeType" where
  "contains env ts hash =
     (case load_node env hash (ts_store ts) of
        (Inr node, _) \<Rightarrow> if tn_hasChildren node then INNER_NODE else LEAF_NODE
      | (Inl _, _) \<Rightarrow> NOT_FOUND)"

definition getRoot :: "trie_env \<Rightarrow> trie_state \<Rightarrow> bytes option" where
  "getRoot env ts =
     (if ts_size ts = 0 then None
      else case root_get env (ts_store ts) of (Inr root, _) \<Rightarrow> Some (tn_hash root) | (Inl _, _) \<Rightarrow> None)"

text \<open>
  Only \<^verbatim>\<open>TrieRootNotFoundException\<close> is caught, so other failures of either trie are values.
\<close>

definition trie_eq :: "trie_env \<Rightarrow> trie_state \<Rightarrow> trie_state \<Rightarrow> exn + bool" where
  "trie_eq env this other =
     (case root_get env (ts_store this) of
        (Inl e, _) \<Rightarrow>
          if e = TrieRootNotFoundException
          then (case root_get env (ts_store other) of
                  (Inl e', _) \<Rightarrow> if e' = TrieRootNotFoundException then Inr True else Inl e'
                | (Inr _, _) \<Rightarrow> Inr False)
          else Inl e
      | (Inr mynode, _) \<Rightarrow>
          (case root_get env (ts_store other) of
             (Inl e', _) \<Rightarrow> if e' = TrieRootNotFoundException then Inr False else Inl e'
           | (Inr othernode, _) \<Rightarrow> Inr (node_eq mynode othernode)))"

text \<open>The hashes of a subtrie that \<^verbatim>\<open>diff\<close> hands to the handler: those that are not stored here.\<close>

definition diff :: "trie_env \<Rightarrow> trie_state \<Rightarrow> bytes \<Rightarrow> bytes list" where
  "diff env ts subtrie =
     filter (\<lambda>h. contains env ts h = NOT_FOUND)
       (map (\<lambda>i. slice (i * te_size env) (te_size env) subtrie)
         [0..<length subtrie div te_size env])"

text \<open>Keys given as strings are hashed first.\<close>

definition add_string :: "trie_env \<Rightarrow> bytes \<Rightarrow> bool \<Rightarrow> bool tprog" where
  "add_string env str performhash = add env (te_hash env str) performhash"

definition remove_string :: "trie_env \<Rightarrow> bytes \<Rightarrow> bool \<Rightarrow> bool tprog" where
  "remove_string env str performhash = remove env (te_hash env str) performhash"

definition contains_string :: "trie_env \<Rightarrow> trie_state \<Rightarrow> bytes \<Rightarrow> TrieNodeType" where
  "contains_string env ts str = contains env ts (te_hash env str)"

section \<open>The invariant\<close>

fun tree_keys :: "ptree option \<Rightarrow> bytes list" where
  "tree_keys None = []"
| "tree_keys (Some t) = key_list t"

definition trie_ok :: "trie_env \<Rightarrow> trie_state \<Rightarrow> ptree option \<Rightarrow> bool" where
  "trie_ok env ts ot \<longleftrightarrow> stored env (ts_store ts) ot \<and> unat (ts_size ts) = length (tree_keys ot) \<and>
     (ot = None \<longrightarrow> storage_get (ts_store ts) size_name = None)"

text \<open>The abstract operations, on trees and on the empty trie.\<close>

fun opt_insert :: "nat \<Rightarrow> bytes \<Rightarrow> ptree option \<Rightarrow> ptree option" where
  "opt_insert h k None = Some (Tip k)"
| "opt_insert h k (Some t) = Some (pt_insert h k t)"

fun opt_delete :: "bytes \<Rightarrow> ptree option \<Rightarrow> ptree option" where
  "opt_delete k None = None"
| "opt_delete k (Some t) = (if k \<in> keys t then pt_delete k t else Some t)"

fun opt_list :: "'a option \<Rightarrow> 'a list" where
  "opt_list None = []"
| "opt_list (Some x) = [x]"

definition cf_step :: "(bytes \<Rightarrow> bytes) \<Rightarrow> ptree option \<Rightarrow> ptree option \<Rightarrow> bool" where
  "cf_step H a b = collision_free H (opt_list a @ opt_list b)"

lemma on_store_run [wp_simps]:
  "m (ts_store ts) = (r, s) \<Longrightarrow> on_store m ts = (r, ts\<lparr>ts_store := s\<rparr>)"
  by (simp add: on_store_def)

lemma ts_store_same [simp]: "ts\<lparr>ts_store := ts_store ts\<rparr> = ts"
  by simp

lemma root_get_None: "stored env st None \<Longrightarrow> root_get env st = (Inl TrieRootNotFoundException, st)"
  by (simp add: root_get_def)

lemma length_key_list: "wf_tree h t \<Longrightarrow> length (key_list t) = card (keys t)"
  by (simp add: distinct_card wf_distinct_keys)

lemma length_key_list_pos: "0 < length (key_list t)"
  by simp

lemma unat_inc: "unat w + 1 < 2 ^ 64 \<Longrightarrow> unat (w + 1 :: u64) = unat w + 1"
  by (simp add: unat_plus_if')

lemma length_tree_keys_insert:
  assumes "case ot of None \<Rightarrow> True | Some t \<Rightarrow> wf_tree h t" "length k = h"
  shows "length (tree_keys (opt_insert h k ot)) =
    (if k \<in> set (tree_keys ot) then length (tree_keys ot) else length (tree_keys ot) + 1)"
proof (cases ot)
  case (Some t)
  then have wf: "wf_tree h t" using assms by simp
  show ?thesis
    using length_key_list [OF wf] length_key_list [OF wf_pt_insert [OF wf assms(2)]] Some
    by (auto simp: keys_pt_insert [OF wf assms(2)] insert_absorb)
qed simp

lemma length_tree_keys_delete:
  assumes "wf_tree h t" "k \<in> keys t"
  shows "length (tree_keys (pt_delete k t)) + 1 = length (key_list t)"
proof -
  have "length (tree_keys (pt_delete k t)) = card (okeys (pt_delete k t))"
    using wf_pt_delete [OF assms(1), of k] by (cases "pt_delete k t") (auto simp: length_key_list)
  then show ?thesis
    using assms length_key_list_pos [of t]
    by (simp add: keys_pt_delete length_key_list del: key_list_not_Nil length_greater_0_conv)
qed

context trie_hash
begin

lemma root_get_Some:
  assumes "stored env st (Some t)"
  obtains n where "root_get env st = (Inr n, st)" "nodes env st (th env t) = Some n"
proof -
  have rep: "rep env (nodes env st) None t" and r: "storage_get st root_name = Some (th env t)"
    and wf: "wf_tree (te_size env) t" using assms by simp_all
  then obtain n where n: "nodes env st (th env t) = Some n"
    using rep_present [OF rep subs_self] by blast
  have "root_get env st = (Inr n, st)"
    using r n length_thash [OF wf] by (simp add: root_get_def load_node_Some)
  with n show thesis using that by blast
qed

lemma add_root_stored:
  assumes st: "stored env st None" and k: "length k = te_size env"
  defines "st' \<equiv> storage_put (put_node env (new_node env k) st) root_name k"
  shows "stored env st' (Some (Tip k))"
proof -
  have nc: "node_core env (Tip k) (new_node env k)" using k by (rule new_node_core)
  then have sz: "node_sized env (new_node env k)" by (rule node_core_sized)
  have nk: "length k \<noteq> length root_name" using k size_not_root by (simp add: root_name_def)
  have "nodes env st' k = Some (new_node env k)"
    unfolding st'_def using sz nk by (simp add: new_node_def)
  then have "rep env (nodes env st') None (Tip k)"
    using nc by (simp add: nodeat_def) (simp add: new_node_def)
  moreover have "storage_get st' x \<noteq> None \<longleftrightarrow> x = k" if "length x = te_size env" for x
  proof -
    have "x \<noteq> root_name" using that size_not_root by (auto simp: root_name_def)
    then show ?thesis using st that unfolding st'_def
      by (auto simp: kv.get_put put_node_def new_node_def)
  qed
  moreover have "storage_get st' root_name = Some k" by (simp add: st'_def kv.get_put)
  ultimately show ?thesis using k by (simp add: node_hashes_def)
qed

lemma add_None_run:
  assumes "stored env (ts_store ts) None"
  shows "add env k ph ts =
    (Inr True, incSize (ts\<lparr>ts_store := storage_put (put_node env (new_node env k) (ts_store ts)) root_name k\<rparr>))"
  using root_get_None [OF assms]
  by (simp add: add_def catchE_def bindE_def on_store_def toDb_run root_set_run modify_def ret_def)

lemma add_refines:
  assumes ok: "trie_ok env ts ot" and k: "length k = te_size env"
    and cf: "cf_step (te_hash env) ot (opt_insert (te_size env) k ot)"
    and sz: "unat (ts_size ts) + 1 < 2 ^ 64"
  shows "\<exists>ts'. add env k True ts = (Inr (k \<notin> set (tree_keys ot)), ts') \<and>
    trie_ok env ts' (opt_insert (te_size env) k ot)"
proof (cases ot)
  case None
  then have st: "stored env (ts_store ts) None" using ok by (simp add: trie_ok_def)
  have "unat (ts_size ts) = 0" using ok None by (simp add: trie_ok_def)
  then show ?thesis
    using add_None_run [OF st, of k True] add_root_stored [OF st k] sz None
    by (simp add: trie_ok_def incSize_def unat_inc del: stored.simps)
next
  case (Some t)
  then have st: "stored env (ts_store ts) (Some t)" using ok by (simp add: trie_ok_def)
  then have wf: "wf_tree (te_size env) t" by simp
  obtain n where n: "root_get env (ts_store ts) = (Inr n, ts_store ts)"
    "nodes env (ts_store ts) (th env t) = Some n" using root_get_Some [OF st] by blast
  have cf': "collision_free (te_hash env) [t, pt_insert (te_size env) k t]"
    using cf Some by (simp add: cf_step_def)
  obtain st' where ins: "insert_hash env n k True (ts_store ts) = (Inr (k \<notin> keys t), st')"
    "stored env st' (Some (pt_insert (te_size env) k t))"
    using insert_hash_correct [OF st k cf' n(2)] by blast
  let ?ts = "ts\<lparr>ts_store := st'\<rparr>"
  have run: "add env k True ts = (Inr (k \<notin> keys t), if k \<notin> keys t then incSize ?ts else ?ts)"
    using n(1) ins(1) by (simp add: add_def catchE_def bindE_def on_store_def modify_def ret_def)
  have len: "length (key_list (pt_insert (te_size env) k t)) =
      (if k \<in> keys t then length (key_list t) else length (key_list t) + 1)"
    using length_tree_keys_insert [of "te_size env" "Some t" k] wf k by simp
  show ?thesis unfolding run Some using ok ins(2) len sz Some
    by (simp add: trie_ok_def incSize_def unat_inc del: stored.simps)
qed

lemma stored_absent:
  assumes st: "stored env st (Some t)" and k: "k \<notin> keys t" "length k = te_size env"
  shows "\<exists>r. erase_hash env k ph st = (r, st) \<and> (r = Inr False \<or> (\<exists>m. r = Inl (DbTrieException m)))"
proof (cases "nodes env st k")
  case None
  then show ?thesis by (simp add: erase_hash_absent nodes_None_iff)
next
  case (Some n)
  then have "k \<in> node_hashes env t" using st k(2) nodes_None_iff [of env st k] by auto
  then obtain u where u: "u \<in> set (subs t)" "k = th env u" by (auto simp: node_hashes_def)
  have "u \<noteq> Tip k" using k(1) u(1) key_Tip_subs by blast
  then obtain m l r where b: "u = Bin m l r" using u(2) by (cases u) auto
  obtain c where c: "t = plug c u" using subs_plug_ex [OF u(1)] by blast
  have "node_core env u n" using stored_subtree(1) [of st c u n] st Some u(2) c by simp
  then have "tn_hasChildren n" using b by simp
  then show ?thesis using Some
    by (simp add: erase_hash_def catchE_def bindE_def load_node_Some throw_def)
qed

lemma stored_clear: "stored env (storage_clear st) None"
  by (simp add: kv.get_clear)

lemma remove_refines:
  assumes ok: "trie_ok env ts ot" and k: "length k = te_size env"
    and cf: "cf_step (te_hash env) ot (opt_delete k ot)"
  shows "\<exists>ts'. remove env k True ts = (Inr (k \<in> set (tree_keys ot)), ts') \<and>
    trie_ok env ts' (opt_delete k ot)"
proof (cases ot)
  case None
  then have st: "stored env (ts_store ts) None" using ok by (simp add: trie_ok_def)
  have "remove env k True ts = (Inr False, ts)" using root_get_None [OF st]
    by (simp add: remove_def catchE_def bindE_def on_store_def ret_def)
  then show ?thesis using ok None by simp
next
  case (Some t)
  then have st: "stored env (ts_store ts) (Some t)" using ok by (simp add: trie_ok_def)
  then have wf: "wf_tree (te_size env) t" by simp
  obtain n where n: "root_get env (ts_store ts) = (Inr n, ts_store ts)"
    using root_get_Some [OF st] by blast
  have size: "unat (ts_size ts) = length (key_list t)" using ok Some by (simp add: trie_ok_def)
  then have nz: "ts_size ts \<noteq> 0" using length_key_list_pos [of t] by (auto simp: unat_eq_0)
  show ?thesis
  proof (cases "k \<in> keys t")
    case False
    obtain r where r: "erase_hash env k True (ts_store ts) = (r, ts_store ts)"
      "r = Inr False \<or> (\<exists>m. r = Inl (DbTrieException m))"
      using stored_absent [OF st False k] by blast
    have "remove env k True ts = (Inr False, ts)" using r(2)
      by (auto simp: remove_def catchE_def bindE_def on_store_def n r(1) nz ret_def modify_def)
    then show ?thesis using ok Some False by simp
  next
    case True
    have cf': "collision_free (te_hash env) (t # (case pt_delete k t of None \<Rightarrow> [] | Some t' \<Rightarrow> [t']))"
      using cf Some True by (cases "pt_delete k t") (simp_all add: cf_step_def)
    obtain st' where er: "erase_hash env k True (ts_store ts) = (Inr True, st')"
      "stored env st' (pt_delete k t)" using erase_hash_present [OF st True cf'] by blast
    let ?ts = "decSize (ts\<lparr>ts_store := st'\<rparr>)"
    have run: "remove env k True ts = (Inr True, if ts_size ?ts = 0 then clear ?ts else ?ts)"
      by (simp add: remove_def catchE_def bindE_def on_store_def n er(1) ret_def modify_def)
    have len: "unat (ts_size ?ts) = length (tree_keys (pt_delete k t))"
      using length_tree_keys_delete [OF wf True] size nz by (simp add: decSize_def unat_minus_one)
    show ?thesis
    proof (cases "pt_delete k t")
      case None
      then have "ts_size ?ts = 0" using len by (simp add: unat_eq_0)
      then show ?thesis unfolding run Some using True None stored_clear
        by (simp add: trie_ok_def clear_def setSize_def kv.get_clear del: stored.simps)
    next
      case (Some t')
      then have "ts_size ?ts \<noteq> 0" using len length_key_list_pos [of t'] by (auto simp: unat_eq_0)
      then show ?thesis unfolding run \<open>ot = Some t\<close> using True Some len er(2)
        by (simp add: trie_ok_def decSize_def del: stored.simps)
    qed
  qed
qed

section \<open>Queries\<close>

lemma contains_tree:
  assumes ok: "trie_ok env ts (Some t)" and k: "length k = te_size env"
  shows "contains env ts k =
    (if k \<in> keys t then LEAF_NODE else if k \<in> node_hashes env t then INNER_NODE else NOT_FOUND)"
proof -
  let ?N = "nodes env (ts_store ts)"
  have st: "stored env (ts_store ts) (Some t)" using ok by (simp add: trie_ok_def)
  then have rep: "rep env ?N None t" by simp
  have node: "node_core env u n" if "u \<in> set (subs t)" "?N (th env u) = Some n" for u n
    using subs_plug_ex [OF that(1)] stored_subtree(1) [OF _ that(2)] st by auto
  show ?thesis
  proof (cases "k \<in> node_hashes env t")
    case True
    then obtain u where u: "u \<in> set (subs t)" "k = th env u" by (auto simp: node_hashes_def)
    then obtain n where n: "?N k = Some n" using rep_present [OF rep] by blast
    have load: "load_node env k (ts_store ts) = (Inr n, ts_store ts)" using n by (rule load_node_Some)
    show ?thesis
    proof (cases "k \<in> keys t")
      case True
      then have "Tip k \<in> set (subs t)" by (simp add: key_Tip_subs)
      then have "node_core env (Tip k) n" using node [of "Tip k" n] n by simp
      with True load show ?thesis by (simp add: contains_def)
    next
      case False
      then have "u \<noteq> Tip k" using u(1) by (auto simp: key_Tip_subs)
      then obtain m l r where "u = Bin m l r" using u(2) by (cases u) auto
      then have "tn_hasChildren n" using node [OF u(1)] n u(2) by simp
      with False True load show ?thesis by (simp add: contains_def)
    qed
  next
    case False
    then have "k \<notin> keys t" by (auto simp: node_hashes_def key_Tip_subs image_iff)
    moreover have "?N k = None" using False st k by (auto simp: nodes_None_iff simp del: not_None_eq)
    ultimately show ?thesis using False load_node_None by (simp add: contains_def)
  qed
qed

lemma contains_empty: "trie_ok env ts None \<Longrightarrow> length k = te_size env \<Longrightarrow> contains env ts k = NOT_FOUND"
  by (simp add: trie_ok_def contains_def load_node_def)

lemma getRoot_tree:
  assumes ok: "trie_ok env ts ot"
  shows "getRoot env ts = map_option (th env) ot"
proof (cases ot)
  case None
  then have "ts_size ts = 0" using ok by (simp add: trie_ok_def unat_eq_0)
  with None show ?thesis by (simp add: getRoot_def)
next
  case (Some t)
  then have st: "stored env (ts_store ts) (Some t)" and "unat (ts_size ts) = length (key_list t)"
    using ok by (simp_all add: trie_ok_def)
  then have nz: "ts_size ts \<noteq> 0" using length_key_list_pos [of t] by (auto simp: unat_eq_0)
  obtain n where n: "root_get env (ts_store ts) = (Inr n, ts_store ts)"
    "nodes env (ts_store ts) (th env t) = Some n" using root_get_Some [OF st] by blast
  have "tn_hash n = th env t"
    using stored_subtree(1) [of "ts_store ts" "[]" t n] st n(2) node_core_hash by simp
  with n(1) nz Some show ?thesis by (simp add: getRoot_def)
qed

lemma trie_eq_tree:
  assumes ok: "trie_ok env a ot" "trie_ok env b ot'"
    and cf: "cf_step (te_hash env) ot ot'"
  shows "trie_eq env a b = Inr (set (tree_keys ot) = set (tree_keys ot'))"
proof -
  have root: "case ot of
      None \<Rightarrow> root_get env (ts_store ts) = (Inl TrieRootNotFoundException, ts_store ts)
    | Some t \<Rightarrow> \<exists>n. root_get env (ts_store ts) = (Inr n, ts_store ts) \<and> node_core env t n \<and> \<not> tn_hasParent n"
    if ok: "trie_ok env ts ot" for ts ot
  proof (cases ot)
    case None
    then have "stored env (ts_store ts) None" using ok by (simp add: trie_ok_def)
    with None show ?thesis by (simp add: root_get_None)
  next
    case (Some t)
    then have st: "stored env (ts_store ts) (Some t)" using ok by (simp add: trie_ok_def)
    obtain n where n: "root_get env (ts_store ts) = (Inr n, ts_store ts)"
      "nodes env (ts_store ts) (th env t) = Some n" using root_get_Some [OF st] by blast
    with stored_subtree(1,2) [of "ts_store ts" "[]" t n] st Some show ?thesis by auto
  qed
  show ?thesis
  proof (cases "ot = None \<or> ot' = None")
    case True
    then show ?thesis using root [OF ok(1)] root [OF ok(2)]
      by (cases ot; cases ot') (auto simp: trie_eq_def)
  next
    case False
    then obtain t t' where t: "ot = Some t" "ot' = Some t'" by auto
    have wf: "wf_tree (te_size env) t" "wf_tree (te_size env) t'"
      using ok t by (simp_all add: trie_ok_def)
    obtain n n' where n: "root_get env (ts_store a) = (Inr n, ts_store a)" "node_core env t n" "\<not> tn_hasParent n"
      "root_get env (ts_store b) = (Inr n', ts_store b)" "node_core env t' n'" "\<not> tn_hasParent n'"
      using root [OF ok(1)] root [OF ok(2)] t by auto
    have "collision_free (te_hash env) [t, t']" using cf t by (simp add: cf_step_def)
    then have inj: "th env t = th env t' \<longleftrightarrow> t = t'"
      using thash_inj_subs [OF _ _ _ wf subs_self subs_self] by auto
    have "node_eq n n' \<longleftrightarrow> t = t'"
    proof
      assume "node_eq n n'"
      then have "tn_hash n = tn_hash n'" by (simp add: node_eq_def split: if_splits)
      then show "t = t'" using inj node_core_hash [OF n(2)] node_core_hash [OF n(5)] by simp
    next
      assume "t = t'"
      then have "tn_prefix_mask n = tn_prefix_mask n'"
        using node_core_prefix(1) [OF n(2)] node_core_prefix(1) [OF n(5)] by (simp add: word_unat_eq_iff)
      moreover have "tn_hash n = tn_hash n'"
        using node_core_hash [OF n(2)] node_core_hash [OF n(5)] \<open>t = t'\<close> by simp
      moreover have "\<not> tn_dirty n" "\<not> tn_dirty n'" "tn_hasChildren n = tn_hasChildren n'"
        using n(2,5) \<open>t = t'\<close> by (cases t; auto)+
      ultimately show "node_eq n n'" using n(3,6) by (simp add: node_eq_def)
    qed
    moreover have "t = t' \<longleftrightarrow> keys t = keys t'" using wf_tree_unique [OF wf] by auto
    ultimately show ?thesis using n(1,4) t by (simp add: trie_eq_def)
  qed
qed

end

section \<open>Sequences of operations\<close>

text \<open>The caller's operations, run in order; the result lists what each of them returned.\<close>

datatype trie_op = Add bytes | Remove bytes

fun op_key :: "trie_op \<Rightarrow> bytes" where
  "op_key (Add k) = k"
| "op_key (Remove k) = k"

fun trie_step :: "trie_env \<Rightarrow> trie_op \<Rightarrow> bool tprog" where
  "trie_step env (Add k) = add env k True"
| "trie_step env (Remove k) = remove env k True"

fun trie_run :: "trie_env \<Rightarrow> trie_op list \<Rightarrow> bool list tprog" where
  "trie_run env [] = ret []"
| "trie_run env (x # xs) =
     bindE (trie_step env x) (\<lambda>r. bindE (trie_run env xs) (\<lambda>rs. ret (r # rs)))"

fun tree_step :: "nat \<Rightarrow> trie_op \<Rightarrow> ptree option \<Rightarrow> ptree option" where
  "tree_step h (Add k) ot = opt_insert h k ot"
| "tree_step h (Remove k) ot = opt_delete k ot"

fun set_step :: "trie_op \<Rightarrow> bytes set \<Rightarrow> bytes set" where
  "set_step (Add k) S = insert k S"
| "set_step (Remove k) S = S - {k}"

fun set_run :: "trie_op list \<Rightarrow> bytes set \<Rightarrow> bool list" where
  "set_run [] S = []"
| "set_run (x # xs) S = (set_step x S \<noteq> S) # set_run xs (set_step x S)"

text \<open>No step of the run makes two nodes collide.\<close>

fun cf_run :: "(bytes \<Rightarrow> bytes) \<Rightarrow> nat \<Rightarrow> ptree option \<Rightarrow> trie_op list \<Rightarrow> bool" where
  "cf_run H h ot [] = True"
| "cf_run H h ot (x # xs) = (cf_step H ot (tree_step h x ot) \<and> cf_run H h (tree_step h x ot) xs)"

lemma set_tree_keys_step:
  assumes "case ot of None \<Rightarrow> True | Some t \<Rightarrow> wf_tree h t" "length (op_key x) = h"
  shows "set (tree_keys (tree_step h x ot)) = set_step x (set (tree_keys ot))"
proof (cases ot)
  case None
  then show ?thesis by (cases x) simp_all
next
  case (Some t)
  then have wf: "wf_tree h t" using assms by simp
  have ok: "set (tree_keys o') = okeys o'" for o' by (cases o') simp_all
  show ?thesis using Some assms(2) keys_pt_delete [OF wf] keys_pt_insert [OF wf]
    by (cases x) (auto simp: ok)
qed

lemma length_tree_step:
  assumes "case ot of None \<Rightarrow> True | Some t \<Rightarrow> wf_tree h t" "length (op_key x) = h"
  shows "length (tree_keys (tree_step h x ot)) \<le> length (tree_keys ot) + 1"
proof (cases x)
  case (Add k)
  then show ?thesis using length_tree_keys_insert [OF assms(1), of k] assms(2) by simp
next
  case (Remove k)
  show ?thesis
  proof (cases ot)
    case (Some t)
    then show ?thesis using assms length_tree_keys_delete [of h t k] Remove by auto
  qed (simp add: Remove)
qed

context trie_hash
begin

lemma trie_ok_wf: "trie_ok env ts ot \<Longrightarrow> case ot of None \<Rightarrow> True | Some t \<Rightarrow> wf_tree (te_size env) t"
  by (cases ot) (simp_all add: trie_ok_def)

lemma trie_step_refines:
  assumes ok: "trie_ok env ts ot" and k: "length (op_key x) = te_size env"
    and cf: "cf_step (te_hash env) ot (tree_step (te_size env) x ot)"
    and sz: "length (tree_keys ot) + 1 < 2 ^ 64"
  shows "\<exists>r ts'. trie_step env x ts = (Inr r, ts') \<and>
    (r \<longleftrightarrow> set_step x (set (tree_keys ot)) \<noteq> set (tree_keys ot)) \<and>
    trie_ok env ts' (tree_step (te_size env) x ot)"
proof (cases x)
  case (Add k)
  then show ?thesis using add_refines [OF ok, of k] k cf sz ok by (auto simp: trie_ok_def)
next
  case (Remove k)
  then show ?thesis using remove_refines [OF ok, of k] k cf by auto
qed

lemma trie_run_refines:
  "trie_ok env ts ot \<Longrightarrow> list_all (\<lambda>x. length (op_key x) = te_size env) xs \<Longrightarrow>
   cf_run (te_hash env) (te_size env) ot xs \<Longrightarrow> length (tree_keys ot) + length xs < 2 ^ 64 \<Longrightarrow>
   \<exists>ts'. trie_run env xs ts = (Inr (set_run xs (set (tree_keys ot))), ts') \<and>
     trie_ok env ts' (fold (tree_step (te_size env)) xs ot) \<and>
     set (tree_keys (fold (tree_step (te_size env)) xs ot)) = fold set_step xs (set (tree_keys ot))"
proof (induction xs arbitrary: ts ot)
  case Nil
  then show ?case by (simp add: ret_run)
next
  case (Cons x xs)
  let ?ot = "tree_step (te_size env) x ot"
  have x: "length (op_key x) = te_size env" using Cons.prems(2) by simp
  obtain r ts1 where step: "trie_step env x ts = (Inr r, ts1)"
    "r \<longleftrightarrow> set_step x (set (tree_keys ot)) \<noteq> set (tree_keys ot)" "trie_ok env ts1 ?ot"
    using trie_step_refines [OF Cons.prems(1) x] Cons.prems(3,4) by auto
  have keys: "set (tree_keys ?ot) = set_step x (set (tree_keys ot))"
    using trie_ok_wf [OF Cons.prems(1)] x by (rule set_tree_keys_step)
  have "length (tree_keys ?ot) + length xs < 2 ^ 64"
    using length_tree_step [OF trie_ok_wf [OF Cons.prems(1)] x] Cons.prems(4) by simp
  then obtain ts' where "trie_run env xs ts1 = (Inr (set_run xs (set (tree_keys ?ot))), ts')"
    "trie_ok env ts' (fold (tree_step (te_size env)) xs ?ot)"
    "set (tree_keys (fold (tree_step (te_size env)) xs ?ot)) = fold set_step xs (set (tree_keys ?ot))"
    using Cons.IH [OF step(3)] Cons.prems(2,3) by auto
  with step(1,2) keys show ?case by (simp add: bindE_def ret_def)
qed

end

section \<open>Closing and reopening\<close>

lemma trie_ok_None_iff: "trie_ok env ts ot \<Longrightarrow> ot = None \<longleftrightarrow> ts_size ts = 0"
  by (cases ot) (auto simp: trie_ok_def unat_eq_0)

lemma stored_put_other:
  assumes "te_size env \<noteq> length key" "key \<noteq> root_name" "trie_hash env"
  shows "stored env (storage_put st key v) ot = stored env st ot"
proof -
  have same: "storage_get (storage_put st key v) k = storage_get st k" if "length k = te_size env" for k
    using that assms(1) by (auto simp: kv.get_put)
  have root: "storage_get (storage_put st key v) root_name = storage_get st root_name"
    using assms(2) by (simp add: kv.get_put)
  have "rep env (nodes env (storage_put st key v)) None t = rep env (nodes env st) None t"
    if "wf_tree (te_size env) t" for t
    using trie_hash.length_node_hash [OF assms(3) that] assms(1)
    by (intro rep_frame) (auto intro!: nodes_get_cong simp: kv.get_put node_hashes_def)
  then show ?thesis using same root by (cases ot) auto
qed

lemma reopen:
  assumes "trie_hash env" "trie_ok env ts ot"
  shows "trie_ok env (open_trie (close_trie ts)) ot \<and> ts_size (open_trie (close_trie ts)) = ts_size ts"
proof (cases "ts_size ts = 0")
  case True
  then have "ot = None" using trie_ok_None_iff [OF assms(2)] by simp
  with True assms show ?thesis
    by (simp add: trie_ok_def close_trie_def open_trie_def Let_def)
next
  case False
  let ?s = "storage_put (ts_store ts) size_name (size_to_bytes (ts_size ts))"
  have open_s: "open_trie (close_trie ts) = \<lparr>ts_store = ?s, ts_size = ts_size ts\<rparr>"
    using False by (simp add: close_trie_def open_trie_def Let_def kv.get_put setSize_def
        size_bytes_roundtrip word_gt_0)
  have "te_size env \<noteq> length size_name" "size_name \<noteq> root_name"
    using trie_hash.size_not_triesize [OF assms(1)] by (simp_all add: size_name_def root_name_def)
  then have "stored env ?s ot = stored env (ts_store ts) ot"
    using assms(1) by (intro stored_put_other) 
  moreover have "ot \<noteq> None" using trie_ok_None_iff [OF assms(2)] False by simp
  ultimately show ?thesis using assms(2) open_s by (auto simp: trie_ok_def)
qed
end
