(* ===== verification/TrieProps.thy ===== *)
theory TrieProps
  imports KeyValueTrie
begin

text \<open>
  The properties of the trie, stated over the code's model with the assumptions on the hash
  function written out.  The witnesses run the model with a hash function of one byte,
  where everything can be evaluated.
\<close>

definition toy_hash :: "bytes \<Rightarrow> bytes" where
  "toy_hash xs = [fold (\<lambda>b a. 5 * a + b + 7) xs 0x61]"

definition toy_env :: trie_env where
  "toy_env = \<lparr>te_hash = toy_hash, te_size = 1, te_junk = [0]\<rparr>"

interpretation toy: trie_hash toy_env
  by unfold_locales (simp_all add: toy_env_def toy_hash_def)

lemma toy_trie_hash: "trie_hash toy_env"
  by (rule toy.trie_hash_axioms)

definition new_trie :: "bool \<Rightarrow> trie_state" where
  "new_trie strict = open_trie (new_storage strict)"

lemma trie_ok_new: "trie_ok env (new_trie strict) None"
  by (simp add: trie_ok_def new_trie_def open_trie_def Let_def)

text \<open>A run from a new trie ends in a trie that holds the resulting set.\<close>

lemma new_trie_run:
  assumes env: "trie_hash env" and len: "list_all (\<lambda>x. length (op_key x) = te_size env) xs"
    and cf: "cf_run (te_hash env) (te_size env) None xs" and bound: "length xs < 2 ^ 64"
  obtains ts where "trie_run env xs (new_trie strict) = (Inr (set_run xs {}), ts)"
    "trie_ok env ts (fold (tree_step (te_size env)) xs None)"
    "set (tree_keys (fold (tree_step (te_size env)) xs None)) = fold set_step xs {}"
  using trie_hash.trie_run_refines [OF env trie_ok_new len cf] bound by auto

text \<open>C4: whatever sequence of add and remove calls produced them, two tries that hold the same
  set of hashes have the same root hash and compare equal.\<close>

theorem trie_history_independent:
  assumes "trie_hash env"
    and "list_all (\<lambda>x. length (op_key x) = te_size env) (xs @ ys)"
    and "cf_run (te_hash env) (te_size env) None xs"
    and "cf_run (te_hash env) (te_size env) None ys"
    and "length xs < 2 ^ 64" "length ys < 2 ^ 64"
    and same: "fold set_step xs {} = fold set_step ys {}"
  shows "\<exists>rs a rs' b. trie_run env xs (new_trie strict) = (Inr rs, a) \<and>
    trie_run env ys (new_trie strict') = (Inr rs', b) \<and>
    getRoot env a = getRoot env b"
proof -
  have len: "list_all (\<lambda>x. length (op_key x) = te_size env) xs"
    "list_all (\<lambda>x. length (op_key x) = te_size env) ys" using assms(2) by simp_all
  let ?t = "\<lambda>xs. fold (tree_step (te_size env)) xs None"
  obtain a where a: "trie_run env xs (new_trie strict) = (Inr (set_run xs {}), a)" "trie_ok env a (?t xs)"
    "set (tree_keys (?t xs)) = fold set_step xs {}"
    using new_trie_run [OF assms(1) len(1) assms(3,5)] by blast
  obtain b where b: "trie_run env ys (new_trie strict') = (Inr (set_run ys {}), b)" "trie_ok env b (?t ys)"
    "set (tree_keys (?t ys)) = fold set_step ys {}"
    using new_trie_run [OF assms(1) len(2) assms(4,6)] by blast
  have "?t xs = ?t ys"
    using trie_hash.trie_ok_wf [OF assms(1) a(2)] trie_hash.trie_ok_wf [OF assms(1) b(2)]
      wf_tree_unique a(3) b(3) same
    by (cases "?t xs"; cases "?t ys") auto
  then have "getRoot env a = getRoot env b"
    using trie_hash.getRoot_tree [OF assms(1)] a(2) b(2) by simp
  with a(1) b(1) show ?thesis by blast
qed

theorem trie_history_independent_witness:
  "\<exists>rs a rs' b. trie_run toy_env [Add [0x10], Add [0x92], Add [0x31], Remove [0x10]] (new_trie True) = (Inr rs, a) \<and>
    trie_run toy_env [Add [0x31], Add [0x92]] (new_trie False) = (Inr rs', b) \<and>
    getRoot toy_env a = getRoot toy_env b"
proof (rule trie_history_independent [OF toy_trie_hash])
  show "cf_run (te_hash toy_env) (te_size toy_env) None [Add [0x10], Add [0x92], Add [0x31], Remove [0x10]]"
    by code_simp
  show "cf_run (te_hash toy_env) (te_size toy_env) None [Add [0x31], Add [0x92]]"
    by code_simp
qed (auto simp: toy_env_def)

text \<open>C5: from a new trie, every sequence of add and remove calls runs without an exception;
  each call reports whether it changed the set, and afterwards exactly the hashes of the
  resulting set are found as leaves, and \<^verbatim>\<open>getSize\<close> is their number.\<close>

theorem trie_run_implements_set:
  assumes "trie_hash env"
    and "list_all (\<lambda>x. length (op_key x) = te_size env) xs"
    and "cf_run (te_hash env) (te_size env) None xs"
    and "length xs < 2 ^ 64"
  shows "\<exists>ts. trie_run env xs (new_trie strict) = (Inr (set_run xs {}), ts) \<and>
    (\<forall>k. length k = te_size env \<longrightarrow> (contains env ts k = LEAF_NODE \<longleftrightarrow> k \<in> fold set_step xs {})) \<and>
    unat (ts_size ts) = card (fold set_step xs {})"
proof -
  let ?t = "fold (tree_step (te_size env)) xs None"
  obtain ts where ts: "trie_run env xs (new_trie strict) = (Inr (set_run xs {}), ts)" "trie_ok env ts ?t"
    "set (tree_keys ?t) = fold set_step xs {}"
    using new_trie_run [OF assms] by blast
  have "contains env ts k = LEAF_NODE \<longleftrightarrow> k \<in> set (tree_keys ?t)" if "length k = te_size env" for k
    using ts(2) that trie_hash.contains_tree [OF assms(1)] trie_hash.contains_empty [OF assms(1)]
    by (cases ?t) auto
  moreover have "length (tree_keys ?t) = card (set (tree_keys ?t))"
    using trie_hash.trie_ok_wf [OF assms(1) ts(2)] by (cases ?t) (simp_all add: length_key_list)
  ultimately show ?thesis using ts by (auto simp: trie_ok_def)
qed

theorem trie_run_implements_set_witness:
  "\<exists>ts. trie_run toy_env [Add [0x10], Add [0x92], Add [0x10], Remove [0x92], Remove [0x55]] (new_trie True) =
      (Inr (set_run [Add [0x10], Add [0x92], Add [0x10], Remove [0x92], Remove [0x55]] {}), ts) \<and>
    (\<forall>k. length k = te_size toy_env \<longrightarrow> (contains toy_env ts k = LEAF_NODE \<longleftrightarrow>
      k \<in> fold set_step [Add [0x10], Add [0x92], Add [0x10], Remove [0x92], Remove [0x55]] {})) \<and>
    unat (ts_size ts) = card (fold set_step [Add [0x10], Add [0x92], Add [0x10], Remove [0x92], Remove [0x55]] {})"
proof (rule trie_run_implements_set [OF toy_trie_hash])
  show "cf_run (te_hash toy_env) (te_size toy_env) None
      [Add [0x10], Add [0x92], Add [0x10], Remove [0x92], Remove [0x55]]"
    by code_simp
qed (auto simp: toy_env_def)

text \<open>C13: two tries compare equal exactly when they hold the same hashes, and so do their root
  hashes: a difference of the sets is never hidden.\<close>

theorem trie_eq_iff_same_keys:
  assumes env: "trie_hash env" and ok: "trie_ok env a ot" "trie_ok env b ot'"
    and cf: "cf_step (te_hash env) ot ot'"
  shows "trie_eq env a b = Inr (set (tree_keys ot) = set (tree_keys ot')) \<and>
    (getRoot env a = getRoot env b \<longleftrightarrow> set (tree_keys ot) = set (tree_keys ot'))"
proof -
  have inj: "thash (te_hash env) t = thash (te_hash env) t' \<longleftrightarrow> keys t = keys t'"
    if "ot = Some t" "ot' = Some t'" for t t'
  proof -
    have wf: "wf_tree (te_size env) t" "wf_tree (te_size env) t'"
      using ok that by (simp_all add: trie_ok_def)
    have cf': "collision_free (te_hash env) [t, t']" using cf that by (simp add: cf_step_def)
    have "t = t'" if "thash (te_hash env) t = thash (te_hash env) t'"
      by (rule crypto_hash.thash_inj_subs [OF trie_hash.axioms(1) [OF env] cf' _ _ wf subs_self subs_self that])
        simp_all
    then show ?thesis using wf_tree_unique [OF wf] by auto
  qed
  have "getRoot env a = getRoot env b \<longleftrightarrow> set (tree_keys ot) = set (tree_keys ot')"
    using trie_hash.getRoot_tree [OF env ok(1)] trie_hash.getRoot_tree [OF env ok(2)] inj
    by (cases ot; cases ot') auto
  then show ?thesis using trie_hash.trie_eq_tree [OF env ok cf] by blast
qed

theorem trie_eq_iff_same_keys_witness:
  "\<exists>a b. trie_ok toy_env a (Some (Bin 0 (Tip [0x10]) (Tip [0x31]))) \<and>
    trie_ok toy_env b (Some (Tip [0x31])) \<and>
    trie_eq toy_env a b = Inr False \<and> getRoot toy_env a \<noteq> getRoot toy_env b"
proof -
  have len: "list_all (\<lambda>x. length (op_key x) = te_size toy_env) [Add [0x10], Add [0x31]]"
    "list_all (\<lambda>x. length (op_key x) = te_size toy_env) [Add [0x31]]" by (simp_all add: toy_env_def)
  have cf: "cf_run (te_hash toy_env) (te_size toy_env) None [Add [0x10], Add [0x31]]"
    "cf_run (te_hash toy_env) (te_size toy_env) None [Add [0x31]]" by code_simp+
  have t: "fold (tree_step (te_size toy_env)) [Add [0x10], Add [0x31]] None =
      Some (Bin 0 (Tip [0x10]) (Tip [0x31]))"
    "fold (tree_step (te_size toy_env)) [Add [0x31]] None = Some (Tip [0x31])" by code_simp+
  have bnd: "length [Add [0x10], Add [0x31]] < 2 ^ 64" "length [Add [0x31]] < 2 ^ 64" by simp_all
  obtain a where a: "trie_ok toy_env a (Some (Bin 0 (Tip [0x10]) (Tip [0x31])))"
    using new_trie_run [OF toy_trie_hash len(1) cf(1) bnd(1)] unfolding t by blast
  obtain b where b: "trie_ok toy_env b (Some (Tip [0x31]))"
    using new_trie_run [OF toy_trie_hash len(2) cf(2) bnd(2)] unfolding t by blast
  have "cf_step (te_hash toy_env) (Some (Bin 0 (Tip [0x10]) (Tip [0x31]))) (Some (Tip [0x31]))" by code_simp
  from trie_eq_iff_same_keys [OF toy_trie_hash a b this] a b show ?thesis by auto
qed

text \<open>C20: \<open>add\<close> never fails, returns whether the hash was new, and turns the stored tree into
  \<open>pt_insert\<close> of it, with the storage free of replaced nodes.\<close>

theorem add_refines_insert:
  assumes "trie_hash env" "trie_ok env ts ot" "length k = te_size env"
    and "cf_step (te_hash env) ot (opt_insert (te_size env) k ot)"
    and "unat (ts_size ts) + 1 < 2 ^ 64"
  shows "\<exists>ts'. add env k True ts = (Inr (k \<notin> set (tree_keys ot)), ts') \<and>
    trie_ok env ts' (opt_insert (te_size env) k ot)"
  by (rule trie_hash.add_refines [OF assms])

theorem add_refines_insert_witness:
  "\<exists>ts'. add toy_env [0x42] True (new_trie True) = (Inr ([0x42] \<notin> set (tree_keys None)), ts') \<and>
    trie_ok toy_env ts' (opt_insert (te_size toy_env) [0x42] None)"
proof (rule add_refines_insert [OF toy_trie_hash trie_ok_new])
  show "cf_step (te_hash toy_env) None (opt_insert (te_size toy_env) [0x42] None)" by code_simp
qed (simp_all add: toy_env_def new_trie_def open_trie_def Let_def)

text \<open>C21: \<open>remove\<close> never fails, returns whether the hash was there, and turns the stored tree
  into \<open>pt_delete\<close> of it; removing the last hash empties the storage.\<close>

theorem remove_refines_delete:
  assumes "trie_hash env" "trie_ok env ts ot" "length k = te_size env"
    and "cf_step (te_hash env) ot (opt_delete k ot)"
  shows "\<exists>ts'. remove env k True ts = (Inr (k \<in> set (tree_keys ot)), ts') \<and>
    trie_ok env ts' (opt_delete k ot)"
  by (rule trie_hash.remove_refines [OF assms])

lemma toy_trie_exists: "\<exists>a. trie_ok toy_env a (Some (Bin 0 (Tip [0x10]) (Tip [0x31])))"
proof -
  have len: "list_all (\<lambda>x. length (op_key x) = te_size toy_env) [Add [0x10], Add [0x31]]"
    by (simp add: toy_env_def)
  have cf: "cf_run (te_hash toy_env) (te_size toy_env) None [Add [0x10], Add [0x31]]" by code_simp
  have t: "fold (tree_step (te_size toy_env)) [Add [0x10], Add [0x31]] None =
      Some (Bin 0 (Tip [0x10]) (Tip [0x31]))" by code_simp
  have bnd: "length [Add [0x10], Add [0x31]] < 2 ^ 64" by simp
  show ?thesis using new_trie_run [OF toy_trie_hash len cf bnd] unfolding t by blast
qed

theorem remove_refines_delete_witness:
  "\<exists>ts ts'. trie_ok toy_env ts (Some (Bin 0 (Tip [0x10]) (Tip [0x31]))) \<and>
    remove toy_env [0x10] True ts = (Inr True, ts') \<and> trie_ok toy_env ts' (Some (Tip [0x31]))"
proof -
  obtain a where a: "trie_ok toy_env a (Some (Bin 0 (Tip [0x10]) (Tip [0x31])))"
    using toy_trie_exists by blast
  have cf: "cf_step (te_hash toy_env) (Some (Bin 0 (Tip [0x10]) (Tip [0x31])))
      (opt_delete [0x10] (Some (Bin 0 (Tip [0x10]) (Tip [0x31]))))" by code_simp
  have d: "opt_delete [0x10] (Some (Bin 0 (Tip [0x10]) (Tip [0x31]))) = Some (Tip [0x31])" by code_simp
  have "length [0x10 :: byte] = te_size toy_env" by (simp add: toy_env_def)
  from remove_refines_delete [OF toy_trie_hash a this cf] a show ?thesis unfolding d by auto
qed

text \<open>\<open>contains\<close> tells the inserted hashes (leaves) from the hashes of inner nodes and from
  everything else.\<close>

theorem contains_classifies:
  assumes "trie_hash env" "trie_ok env ts (Some t)" "length k = te_size env"
  shows "contains env ts k = (if k \<in> keys t then LEAF_NODE
    else if k \<in> node_hashes env t then INNER_NODE else NOT_FOUND)"
  by (rule trie_hash.contains_tree [OF assms])

theorem contains_classifies_witness:
  "\<exists>ts. contains toy_env ts [0x10] = LEAF_NODE \<and> contains toy_env ts [0x11] = NOT_FOUND"
proof -
  obtain a where a: "trie_ok toy_env a (Some (Bin 0 (Tip [0x10]) (Tip [0x31])))"
    using toy_trie_exists by blast
  have len: "length [x :: byte] = te_size toy_env" for x by (simp add: toy_env_def)
  show ?thesis
    using contains_classifies [OF toy_trie_hash a len, of "0x10"] contains_classifies [OF toy_trie_hash a len, of "0x11"]
    by (intro exI [of _ a]) (simp add: node_hashes_def toy_env_def toy_hash_def)
qed

text \<open>C22: the destructor and the constructor keep the trie and its size across a reopening of the
  storage.\<close>

theorem trie_reopen:
  assumes "trie_hash env" "trie_ok env ts ot"
  shows "trie_ok env (open_trie (close_trie ts)) ot \<and> ts_size (open_trie (close_trie ts)) = ts_size ts"
  by (rule reopen [OF assms])

theorem trie_reopen_witness:
  "\<exists>ts. trie_ok toy_env (open_trie (close_trie ts)) (Some (Bin 0 (Tip [0x10]) (Tip [0x31]))) \<and>
    ts_size (open_trie (close_trie ts)) = ts_size ts"
  using trie_reopen [OF toy_trie_hash] toy_trie_exists by blast

text \<open>A node that is written to the storage is read back unchanged, in a record of
  \<^verbatim>\<open>4 * hashsize + 2\<close> bytes.\<close>

theorem node_store_roundtrip:
  assumes "node_sized env n"
  shows "toDb env n s = (Inr True, put_node env n s) \<and>
    load_node env (tn_hash n) (put_node env n s) = (Inr n, put_node env n s) \<and>
    length (marshall env n) = getMarshallBufferSize env"
  using assms by (simp add: toDb_run load_node_Some length_marshall)

theorem node_store_roundtrip_witness:
  "load_node toy_env [0x31] (put_node toy_env (new_node toy_env [0x31]) (new_storage True)) =
     (Inr (new_node toy_env [0x31]), put_node toy_env (new_node toy_env [0x31]) (new_storage True))"
  using node_store_roundtrip [of toy_env "new_node toy_env [0x31]" "new_storage True"]
  by (simp add: node_sized_def new_node_def toy_env_def)

lemma insert_hash_256:
  assumes "te_size env = 32" "\<not> tn_hasChildren n" "tn_prefix_mask n = 0"
  shows "insert_hash env n k ph s = (Inl (DbTrieException ''THERE ARE NO CHILDREN''), s)"
proof -
  obtain f where f: "loop_fuel = Suc f" by (cases loop_fuel) (simp_all add: loop_fuel_def)
  show ?thesis using assms
    by (simp add: insert_hash_def f similar_def isLarger_def isSmaller_def getLarger_def getSmaller_def
        bindE_def throw_def)
qed



end
