(* ===== verification/Streaming.thy ===== *)
theory Streaming
  imports Prelude
begin

text \<open>
  What the message digests of \<^verbatim>\<open>setsync/crypto\<close> (\<^verbatim>\<open>md4.c\<close>, \<^verbatim>\<open>md5.c\<close>, \<^verbatim>\<open>sha1.c\<close>, \<^verbatim>\<open>sha2.c\<close>,
  \<^verbatim>\<open>sha4.c\<close>) have in common, textually the same in each of them: the byte order macros, the
  context with its message counter and its block buffer, the \<^verbatim>\<open>update\<close> function that cuts a
  stream into blocks, the padding of \<^verbatim>\<open>finish\<close>, and the HMAC functions.  \<open>B\<close> is the block
  size, \<open>process\<close> the compression function of the file.  The locale \<open>md_stream\<close> proves once
  that feeding a message in pieces digests the whole padded message.
\<close>

section \<open>Byte order\<close>

definition GET_UINT32_BE :: "bytes \<Rightarrow> nat \<Rightarrow> u32" where
  "GET_UINT32_BE b i = push_bit 24 (ucast (b ! i)) OR push_bit 16 (ucast (b ! (i + 1))) OR
     push_bit 8 (ucast (b ! (i + 2))) OR ucast (b ! (i + 3))"

definition PUT_UINT32_BE :: "u32 \<Rightarrow> bytes" where
  "PUT_UINT32_BE n = [ucast (drop_bit 24 n), ucast (drop_bit 16 n), ucast (drop_bit 8 n), ucast n]"

definition GET_UINT32_LE :: "bytes \<Rightarrow> nat \<Rightarrow> u32" where
  "GET_UINT32_LE b i = ucast (b ! i) OR push_bit 8 (ucast (b ! (i + 1))) OR
     push_bit 16 (ucast (b ! (i + 2))) OR push_bit 24 (ucast (b ! (i + 3)))"

definition PUT_UINT32_LE :: "u32 \<Rightarrow> bytes" where
  "PUT_UINT32_LE n = [ucast n, ucast (drop_bit 8 n), ucast (drop_bit 16 n), ucast (drop_bit 24 n)]"

definition GET_UINT64_BE :: "bytes \<Rightarrow> nat \<Rightarrow> u64" where
  "GET_UINT64_BE b i = push_bit 56 (ucast (b ! i)) OR push_bit 48 (ucast (b ! (i + 1))) OR
     push_bit 40 (ucast (b ! (i + 2))) OR push_bit 32 (ucast (b ! (i + 3))) OR
     push_bit 24 (ucast (b ! (i + 4))) OR push_bit 16 (ucast (b ! (i + 5))) OR
     push_bit 8 (ucast (b ! (i + 6))) OR ucast (b ! (i + 7))"

definition PUT_UINT64_BE :: "u64 \<Rightarrow> bytes" where
  "PUT_UINT64_BE n = [ucast (drop_bit 56 n), ucast (drop_bit 48 n), ucast (drop_bit 40 n),
     ucast (drop_bit 32 n), ucast (drop_bit 24 n), ucast (drop_bit 16 n), ucast (drop_bit 8 n), ucast n]"

text \<open>The macro \<^verbatim>\<open>S(x,n)\<close>: rotation to the left.\<close>

definition S :: "u32 \<Rightarrow> nat \<Rightarrow> u32" where
  "S x n = push_bit n x OR drop_bit (32 - n) (x AND 0xFFFFFFFF)"

lemma S_rotl:
  assumes n: "0 < n" "n < 32"
  shows "S x n = word_rotl n x"
proof (rule bit_word_eqI)
  fix m :: nat assume "m < LENGTH(32)"
  then have m: "m < 32" by simp
  have ones: "(0xFFFFFFFF :: u32) = - 1" by simp
  have S: "S x n = push_bit n x OR drop_bit (32 - n) x" unfolding S_def ones by simp
  show "bit (S x n) m = bit (word_rotl n x) m"
  proof (cases "m < n")
    case True
    then have "32 - n + m = m + 32 - n" using n by simp
    then show ?thesis using n m True
      by (simp add: S bit_simps bit_word_rotl_iff)
  next
    case False
    then have "(m + 32 - n) mod 32 = m - n" using n m by (simp add: mod_if)
    moreover have "\<not> bit x (32 - n + m)"
    proof
      assume "bit x (32 - n + m)"
      then have "32 - n + m < 32" using bit_imp_le_length [of x "32 - n + m"] by simp
      with False n show False by linarith
    qed
    ultimately show ?thesis using n m False by (simp add: S bit_simps bit_word_rotl_iff)
  qed
qed

section \<open>Contexts\<close>

record ('c, 'st) md_context =
  total0 :: 'c
  total1 :: 'c
  state :: 'st
  buffer :: bytes
  ipad :: bytes
  opad :: bytes

text \<open>The loop over the full blocks of the input, and what is left of it.\<close>

function md_blocks :: "nat \<Rightarrow> ('st \<Rightarrow> bytes \<Rightarrow> 'st) \<Rightarrow> 'st \<Rightarrow> bytes \<Rightarrow> 'st \<times> bytes" where
  "md_blocks B process st input =
     (if 0 < B \<and> B \<le> length input
      then md_blocks B process (process st (take B input)) (drop B input)
      else (st, input))"
  by pat_completeness auto
termination by (relation "measure (\<lambda>(B, p, st, input). length input)") auto

declare md_blocks.simps [simp del]

definition blk_update :: "nat \<Rightarrow> ('st \<Rightarrow> bytes \<Rightarrow> 'st) \<Rightarrow> ('w::len word, 'st, 'z) md_context_scheme \<Rightarrow>
    bytes \<Rightarrow> ('w word, 'st, 'z) md_context_scheme" where
  "blk_update B process ctx input =
     (if length input = 0 then ctx
      else
        let left = unat (total0 ctx AND word_of_nat (B - 1));
            fill = B - left;
            ilen = word_of_nat (length input);
            ctx = ctx\<lparr>total0 := total0 ctx + ilen\<rparr>;
            ctx = (if total0 ctx < ilen then ctx\<lparr>total1 := total1 ctx + 1\<rparr> else ctx);
            (ctx, input, left) =
              (if left \<noteq> 0 \<and> fill \<le> length input
               then let ctx = ctx\<lparr>buffer := memcpy_at (buffer ctx) left (take fill input)\<rparr>
                    in (ctx\<lparr>state := process (state ctx) (buffer ctx)\<rparr>, drop fill input, 0)
               else (ctx, input, left));
            (st, input) = md_blocks B process (state ctx) input;
            ctx = ctx\<lparr>state := st\<rparr>
        in if input \<noteq> [] then ctx\<lparr>buffer := memcpy_at (buffer ctx) left input\<rparr> else ctx)"

text \<open>The bit count of the message, as two words, and the padding.\<close>

definition md_high :: "('w::len word, 'st, 'z) md_context_scheme \<Rightarrow> 'w word" where
  "md_high ctx = drop_bit (LENGTH('w) - 3) (total0 ctx) OR push_bit 3 (total1 ctx)"

definition md_low :: "('w::len word, 'st, 'z) md_context_scheme \<Rightarrow> 'w word" where
  "md_low ctx = push_bit 3 (total0 ctx)"

definition md_padn :: "nat \<Rightarrow> nat \<Rightarrow> nat \<Rightarrow> nat" where
  "md_padn B n last0 = (if last0 < B - n then B - n - last0 else B - n + B - last0)"

definition blk_finish :: "nat \<Rightarrow> ('st \<Rightarrow> bytes \<Rightarrow> 'st) \<Rightarrow> ('w::len word \<Rightarrow> 'w word \<Rightarrow> bytes) \<Rightarrow>
    ('w word, 'st, 'z) md_context_scheme \<Rightarrow> ('w word, 'st, 'z) md_context_scheme" where
  "blk_finish B process enc_len ctx =
     (let msglen = enc_len (md_high ctx) (md_low ctx);
          last0 = unat (total0 ctx AND word_of_nat (B - 1));
          padn = md_padn B (length msglen) last0;
          ctx = blk_update B process ctx (take padn (0x80 # replicate (B - 1) 0))
      in blk_update B process ctx msglen)"

section \<open>The specification\<close>

text \<open>The whole padded message, digested block by block.\<close>

definition md_pad :: "nat \<Rightarrow> ('w::len word \<Rightarrow> 'w word \<Rightarrow> bytes) \<Rightarrow> nat \<Rightarrow> bytes" where
  "md_pad B enc_len len =
     (let msglen = enc_len (word_of_nat (8 * len div 2 ^ LENGTH('w))) (word_of_nat (8 * len))
      in 0x80 # replicate (md_padn B (length msglen) (len mod B) - 1) 0 @ msglen)"

definition md_absorbed :: "nat \<Rightarrow> ('st \<Rightarrow> bytes \<Rightarrow> 'st) \<Rightarrow> 'st \<Rightarrow>
    ('w::len word, 'st, 'z) md_context_scheme \<Rightarrow> bytes \<Rightarrow> bool" where
  "md_absorbed B process st0 ctx msg \<longleftrightarrow>
     total0 ctx = word_of_nat (length msg) \<and>
     total1 ctx = word_of_nat (length msg div 2 ^ LENGTH('w)) \<and>
     length (buffer ctx) = B \<and>
     md_blocks B process st0 msg = (state ctx, take (length msg mod B) (buffer ctx))"

section \<open>Lemmas on blocks and counters\<close>

lemma md_blocks_small: "length input < B \<Longrightarrow> md_blocks B process st input = (st, input)"
  by (simp add: md_blocks.simps)

lemma md_blocks_big:
  "0 < B \<Longrightarrow> B \<le> length input \<Longrightarrow>
   md_blocks B process st input = md_blocks B process (process st (take B input)) (drop B input)"
  by (subst md_blocks.simps) simp

lemma md_blocks_rest:
  "0 < B \<Longrightarrow> length (snd (md_blocks B process st input)) = length input mod B"
proof (induction B process st input rule: md_blocks.induct)
  case (1 B process st input)
  show ?case
  proof (cases "B \<le> length input")
    case True
    with 1 show ?thesis by (simp add: md_blocks_big le_mod_geq)
  next
    case False
    then show ?thesis by (simp add: md_blocks_small)
  qed
qed

lemma md_blocks_append:
  "0 < B \<Longrightarrow> md_blocks B process st (a @ b) =
     (case md_blocks B process st a of (s, t) \<Rightarrow> md_blocks B process s (t @ b))"
proof (induction B process st a rule: md_blocks.induct)
  case (1 B process st a)
  show ?case
  proof (cases "B \<le> length a")
    case True
    then have "md_blocks B process st (a @ b) =
        md_blocks B process (process st (take B a)) (drop B a @ b)"
      using 1(2) by (subst md_blocks_big) simp_all
    with 1 True show ?thesis by (simp add: md_blocks_big)
  next
    case False
    then show ?thesis by (simp add: md_blocks_small)
  qed
qed

lemma bit_of_nat_word: "bit (word_of_nat m :: 'a::len word) n \<longleftrightarrow> n < LENGTH('a) \<and> bit m n"
  by (simp add: bit_of_nat_iff possible_bit_word)

lemma unat_and_mask:
  assumes "k \<le> LENGTH('w)"
  shows "unat ((word_of_nat l :: 'w::len word) AND word_of_nat (2 ^ k - 1)) = l mod 2 ^ k"
proof -
  have "(word_of_nat (2 ^ k - 1) :: 'w word) = mask k" by (simp add: mask_eq_exp_minus_1 of_nat_diff)
  then have "unat ((word_of_nat l :: 'w word) AND word_of_nat (2 ^ k - 1)) = take_bit k (take_bit LENGTH('w) l)"
    by (simp add: unsigned_take_bit_eq unsigned_of_nat flip: take_bit_eq_mask)
  then show ?thesis using assms by (simp add: take_bit_eq_mod mod_mod_cancel le_imp_power_dvd)
qed

text \<open>Adding a length to the counter: the carry goes to the second word.\<close>

lemma counter_add:
  fixes l i :: nat
  assumes "i < 2 ^ LENGTH('w)"
  defines "t \<equiv> word_of_nat l + (word_of_nat i :: 'w::len word)"
  shows "t = word_of_nat (l + i)"
    "(if t < word_of_nat i then word_of_nat (l div 2 ^ LENGTH('w)) + 1
      else word_of_nat (l div 2 ^ LENGTH('w)) :: 'w word) = word_of_nat ((l + i) div 2 ^ LENGTH('w))"
proof -
  let ?M = "2 ^ LENGTH('w) :: nat"
  show t: "t = word_of_nat (l + i)" by (simp add: t_def)
  have "unat t = (l + i) mod ?M" unfolding t by (simp add: unsigned_of_nat take_bit_eq_mod del: of_nat_add)
  moreover have "unat (word_of_nat i :: 'w word) = i" using assms(1) by (rule unat_of_nat_small)
  ultimately have less: "t < word_of_nat i \<longleftrightarrow> (l + i) mod ?M < i" by (simp add: word_less_nat_alt)
  have lm: "l mod ?M < ?M" by simp
  have sum: "(l + i) mod ?M = (l mod ?M + i) mod ?M" "(l + i) div ?M = l div ?M + (l mod ?M + i) div ?M"
    using assms(1) by (simp_all add: mod_add_left_eq div_add1_eq [of l i])
  show "(if t < word_of_nat i then word_of_nat (l div ?M) + 1 else word_of_nat (l div ?M) :: 'w word) =
      word_of_nat ((l + i) div ?M)"
  proof (cases "l mod ?M + i < ?M")
    case True
    then show ?thesis by (simp add: less sum)
  next
    case False
    have d: "l mod ?M + i - ?M < ?M" using lm assms(1) by linarith
    have "(l mod ?M + i) div ?M = 1" "(l mod ?M + i) mod ?M = l mod ?M + i - ?M"
      using d False by (simp_all add: le_div_geq le_mod_geq)
    moreover have "l mod ?M + i - ?M < i" using lm False by linarith
    ultimately show ?thesis by (simp add: less sum)
  qed
qed

lemma md_bit_count:
  assumes "total0 ctx = word_of_nat len" "total1 ctx = word_of_nat (len div 2 ^ LENGTH('w))"
    and "3 < LENGTH('w)"
  shows "md_low (ctx :: ('w::len word, 'st, 'z) md_context_scheme) = word_of_nat (8 * len)"
    "md_high ctx = word_of_nat (8 * len div 2 ^ LENGTH('w))"
proof -
  show "md_low ctx = word_of_nat (8 * len)"
    by (simp add: md_low_def assms push_bit_eq_mult)
  show "md_high ctx = word_of_nat (8 * len div 2 ^ LENGTH('w))"
  proof (rule bit_word_eqI)
    fix n assume n: "n < LENGTH('w)"
    have "bit (md_high ctx) n \<longleftrightarrow> bit len (LENGTH('w) + n - 3)"
      using n assms by (auto simp: md_high_def bit_simps bit_of_nat_word ac_simps simp flip: drop_bit_eq_div)
    moreover have "8 * len = push_bit 3 len" by (simp add: push_bit_eq_mult)
    then have "bit (8 * len div 2 ^ LENGTH('w)) n \<longleftrightarrow> bit len (LENGTH('w) + n - 3)"
      using assms(3) by (simp add: bit_simps flip: drop_bit_eq_div) 
    ultimately show "bit (md_high ctx) n = bit (word_of_nat (8 * len div 2 ^ LENGTH('w)) :: 'w word) n"
      using n by (simp add: bit_of_nat_word)
  qed
qed

section \<open>Streams\<close>

lemma md_padn_bounds:
  assumes "r < B" "n < B" "0 < n"
  shows "0 < md_padn B n r" "md_padn B n r \<le> B" "r + md_padn B n r + n = B \<or> r + md_padn B n r + n = 2 * B"
  using assms by (auto simp: md_padn_def)

locale md_stream =
  fixes B k n :: nat and process :: "'st \<Rightarrow> bytes \<Rightarrow> 'st"
    and enc_len :: "'w::len word \<Rightarrow> 'w word \<Rightarrow> bytes"
  assumes B: "B = 2 ^ k" "k < LENGTH('w)" "3 < LENGTH('w)"
    and enc: "length (enc_len hi lo) = n" "n < B" "0 < n"
begin

lemma B_pos: "0 < B"
  by (simp add: B)

lemma B_small: "B < 2 ^ LENGTH('w)"
  unfolding B(1) using B(2) by simp

lemma left_eq: "unat ((word_of_nat l :: 'w word) AND word_of_nat (B - 1)) = l mod B"
  unfolding B(1) using B(2) by (intro unat_and_mask) simp

lemma update_nonempty:
  fixes ctx :: "('w word, 'st, 'z) md_context_scheme"
  assumes abs: "md_absorbed B process st0 ctx msg" and i: "input \<noteq> []"
    and len: "length input < 2 ^ LENGTH('w)"
  shows "md_absorbed B process st0 (blk_update B process ctx input) (msg @ input)"
proof -
  let ?l = "length msg" and ?i = "length input"
  let ?left = "?l mod B"
  note a = abs [unfolded md_absorbed_def]
  define t where "t = take ?left (buffer ctx)"
  have lb0: "length (buffer ctx) = B" using a by blast
  have left_less: "?left < B" using B_pos by simp
  then have tl: "length t = ?left" using lb0 by (simp add: t_def)
  note cnt = counter_add [OF len, of ?l]
  have t0: "total0 ctx = word_of_nat ?l" and t1: "total1 ctx = word_of_nat (?l div 2 ^ LENGTH('w))"
    using a by blast+
  have total: "total0 ctx + word_of_nat ?i = word_of_nat (?l + ?i)"
    "(if total0 ctx + word_of_nat ?i < word_of_nat ?i then total1 ctx + 1 else total1 ctx) =
      word_of_nat ((?l + ?i) div 2 ^ LENGTH('w))"
    unfolding t0 t1 by (rule cnt)+
  have left: "unat (total0 ctx AND word_of_nat (B - 1)) = ?left" unfolding t0 by (rule left_eq)
  have mb: "md_blocks B process st0 msg = (state ctx, t)"
    using a unfolding t_def by blast
  have blocks: "md_blocks B process st0 (msg @ input) = md_blocks B process (state ctx) (t @ input)"
    by (simp only: md_blocks_append [OF B_pos, of process st0 msg] mb prod.case)
  let ?c = "ctx\<lparr>total0 := total0 ctx + word_of_nat ?i\<rparr>"
  have c: "(if total0 ?c < word_of_nat ?i then ?c\<lparr>total1 := total1 ?c + 1\<rparr> else ?c) =
      ctx\<lparr>total0 := word_of_nat (?l + ?i), total1 := word_of_nat ((?l + ?i) div 2 ^ LENGTH('w))\<rparr>"
    using total by (cases "total0 ctx + word_of_nat ?i < word_of_nat ?i") simp_all
  show ?thesis
  proof (cases "?left \<noteq> 0 \<and> B - ?left \<le> ?i")
    case True
    let ?fill = "B - ?left"
    let ?buf = "memcpy_at (buffer ctx) ?left (take ?fill input)"
    have lf: "length (take ?fill input) = ?fill" using True by simp
    have buf: "?buf = t @ take ?fill input" using lb0 left_less lf by (simp add: memcpy_at_def t_def)
    then have lbuf: "length ?buf = B" using tl lf left_less by simp
    have "md_blocks B process (state ctx) (t @ input) =
        md_blocks B process (process (state ctx) (take B (t @ input))) (drop B (t @ input))"
      using B_pos True tl by (intro md_blocks_big) auto
    moreover have "take B (t @ input) = ?buf" "drop B (t @ input) = drop ?fill input"
      using buf tl left_less by simp_all
    ultimately have b2: "md_blocks B process st0 (msg @ input) =
        md_blocks B process (process (state ctx) ?buf) (drop ?fill input)" using blocks by simp
    obtain s r where sr: "md_blocks B process (process (state ctx) ?buf) (drop ?fill input) = (s, r)"
      by fastforce
    have rl: "length r = (?l + ?i) mod B"
      using md_blocks_rest [OF B_pos, of process st0 "msg @ input"] b2 sr by simp
    then have "length r < B" using B_pos by simp
    then have "take (length r) (memcpy_at ?buf 0 r) = r" "length (memcpy_at ?buf 0 r) = B"
      using memcpy_at_0 [of r ?buf] lbuf by simp_all
    moreover have "blk_update B process ctx input =
      (let ctx' = ctx\<lparr>total0 := word_of_nat (?l + ?i),
                total1 := word_of_nat ((?l + ?i) div 2 ^ LENGTH('w)), buffer := ?buf, state := s\<rparr>
       in if r \<noteq> [] then ctx'\<lparr>buffer := memcpy_at ?buf 0 r\<rparr> else ctx')"
      using i True sr unfolding blk_update_def Let_def left c by (simp del: of_nat_add)
    moreover have "r = [] \<longleftrightarrow> (?l + ?i) mod B = 0" unfolding rl [symmetric] by simp
    ultimately show ?thesis using sr b2 rl lbuf unfolding md_absorbed_def by (simp add: Let_def)
  next
    case False
    obtain s r where sr: "md_blocks B process (state ctx) input = (s, r)" by fastforce
    have upd: "blk_update B process ctx input =
      (let ctx' = ctx\<lparr>total0 := word_of_nat (?l + ?i),
                total1 := word_of_nat ((?l + ?i) div 2 ^ LENGTH('w)), state := s\<rparr>
       in if r \<noteq> [] then ctx'\<lparr>buffer := memcpy_at (buffer ctx) ?left r\<rparr> else ctx')"
    proof -
      show ?thesis using i sr unfolding blk_update_def Let_def left c if_not_P [OF False]
        by (simp del: of_nat_add)
    qed
    show ?thesis
    proof (cases "?left = 0")
      case True
      then have "t = []" by (simp add: t_def)
      then have b2: "md_blocks B process st0 (msg @ input) = (s, r)" using blocks sr by simp
      have rl: "length r = (?l + ?i) mod B"
        using md_blocks_rest [OF B_pos, of process st0 "msg @ input"] b2 by simp
      have "length r < B" using rl B_pos by simp
      then have "take (length r) (memcpy_at (buffer ctx) 0 r) = r" "length (memcpy_at (buffer ctx) 0 r) = B"
        using memcpy_at_0 [of r "buffer ctx"] lb0 by simp_all
      moreover have "r = [] \<longleftrightarrow> (?l + ?i) mod B = 0" unfolding rl [symmetric] by simp
      ultimately show ?thesis using True b2 rl lb0 unfolding md_absorbed_def upd
        by (simp add: Let_def)
    next
      case nz: False
      then have small: "?i < B - ?left" using False by simp
      then have sr': "s = state ctx" "r = input" using sr by (simp_all add: md_blocks_small)
      have b2: "md_blocks B process st0 (msg @ input) = (state ctx, t @ input)"
        using blocks small tl by (simp add: md_blocks_small)
      have m: "(?l + ?i) mod B = ?left + ?i" using small
        by (metis add.commute less_diff_conv mod_add_left_eq mod_less)
      have "take (?left + ?i) (memcpy_at (buffer ctx) ?left input) = t @ input"
        using lb0 left_less by (simp add: take_memcpy_at t_def)
      moreover have "length (memcpy_at (buffer ctx) ?left input) = B" using lb0 small by simp
      ultimately show ?thesis using b2 m i unfolding md_absorbed_def upd sr'
        by (simp add: Let_def)
    qed
  qed
qed

lemma update_absorbs:
  fixes ctx :: "('w word, 'st, 'z) md_context_scheme"
  assumes "md_absorbed B process st0 ctx msg" "length input < 2 ^ LENGTH('w)"
  shows "md_absorbed B process st0 (blk_update B process ctx input) (msg @ input)"
proof (cases "input = []")
  case True
  then show ?thesis using assms(1) by (simp add: blk_update_def)
next
  case False
  then show ?thesis using assms by (intro update_nonempty)
qed

text \<open>\<open>finish\<close> digests the padded message: a whole number of blocks.\<close>

lemma padn_bounds:
  "0 < md_padn B n (l mod B)" "md_padn B n (l mod B) \<le> B" "(l + md_padn B n (l mod B) + n) mod B = 0"
proof -
  let ?r = "l mod B"
  have r: "?r < B" using B_pos by simp
  note p = md_padn_bounds [OF r enc(2,3)]
  show "0 < md_padn B n ?r" "md_padn B n ?r \<le> B" by (rule p)+
  have "?r + md_padn B n ?r + n = B \<or> ?r + md_padn B n ?r + n = 2 * B" by (rule p)
  then have "(?r + md_padn B n ?r + n) mod B = 0" by auto
  moreover have "(l + md_padn B n ?r + n) mod B = (?r + md_padn B n ?r + n) mod B"
    by (simp add: mod_add_left_eq [of l B "md_padn B n ?r + n", symmetric] add.assoc)
  ultimately show "(l + md_padn B n ?r + n) mod B = 0" by simp
qed

lemma md_pad_length: "B dvd length msg + length (md_pad B enc_len (length msg))"
  using padn_bounds [of "length msg"] enc(1)
  by (simp add: md_pad_def Let_def dvd_eq_mod_eq_0 add.assoc)

lemma finish_absorbs:
  fixes ctx :: "('w word, 'st, 'z) md_context_scheme"
  assumes abs: "md_absorbed B process st0 ctx msg"
  shows "md_absorbed B process st0 (blk_finish B process enc_len ctx) (msg @ md_pad B enc_len (length msg))"
    "state (blk_finish B process enc_len ctx) =
       fst (md_blocks B process st0 (msg @ md_pad B enc_len (length msg)))"
proof -
  let ?l = "length msg"
  have t: "total0 ctx = word_of_nat ?l" "total1 ctx = word_of_nat (?l div 2 ^ LENGTH('w))"
    using abs unfolding md_absorbed_def by blast+
  note bits = md_bit_count [OF t B(3)]
  let ?p = "md_padn B n (?l mod B)"
  let ?len = "enc_len (word_of_nat (8 * ?l div 2 ^ LENGTH('w))) (word_of_nat (8 * ?l))"
  have pad: "take ?p (0x80 # replicate (B - 1) 0) = (0x80 :: byte) # replicate (?p - 1) 0"
    using padn_bounds(1,2) [of ?l] by (cases ?p) (simp_all add: min_def)
  have small: "length ((0x80 :: byte) # replicate (?p - 1) 0) < 2 ^ LENGTH('w)" "length ?len < 2 ^ LENGTH('w)"
    using padn_bounds(1,2) [of ?l] B_small enc by simp_all
  have fin: "blk_finish B process enc_len ctx =
      blk_update B process (blk_update B process ctx (0x80 # replicate (?p - 1) 0)) ?len"
    unfolding blk_finish_def Let_def bits t(1) left_eq enc(1) pad ..
  have "md_absorbed B process st0 (blk_finish B process enc_len ctx)
      ((msg @ 0x80 # replicate (?p - 1) 0) @ ?len)"
    unfolding fin using abs small by (intro update_absorbs)
  then show *: "md_absorbed B process st0 (blk_finish B process enc_len ctx)
      (msg @ md_pad B enc_len (length msg))"
    by (simp add: md_pad_def Let_def enc(1))
  then show "state (blk_finish B process enc_len ctx) =
      fst (md_blocks B process st0 (msg @ md_pad B enc_len (length msg)))"
    by (simp add: md_absorbed_def)
qed

end

lemma md_absorbed_init:
  "total0 ctx = 0 \<Longrightarrow> total1 ctx = 0 \<Longrightarrow> length (buffer ctx) = B \<Longrightarrow> state ctx = st0 \<Longrightarrow> 0 < B \<Longrightarrow>
   md_absorbed B process st0 ctx []"
  by (simp add: md_absorbed_def md_blocks_small)

text \<open>Two compression functions that agree on the states that occur digest alike.\<close>

lemma md_blocks_cong:
  assumes pq: "\<And>st d. I st \<Longrightarrow> p st d = q st d" and I: "\<And>st d. I st \<Longrightarrow> I (q st d)"
  shows "I st \<Longrightarrow> md_blocks B p st input = md_blocks B q st input"
proof (induction "length input" arbitrary: st input rule: less_induct)
  case less
  show ?case
  proof (cases "0 < B \<and> B \<le> length input")
    case True
    then have "md_blocks B p (q st (take B input)) (drop B input) =
        md_blocks B q (q st (take B input)) (drop B input)"
      using less I by (intro less.hyps) auto
    with True less.prems show ?thesis by (simp add: md_blocks_big pq)
  next
    case False
    then show ?thesis by (subst (1 2) md_blocks.simps) auto
  qed
qed

text \<open>What an update that is too long for the counter's word does to it.\<close>

lemma blk_update_total:
  "total0 (blk_update B process ctx input) = total0 ctx + word_of_nat (length input)"
  by (simp add: blk_update_def Let_def case_prod_beta)

section \<open>HMAC\<close>

text \<open>The key pads: the key is mixed into 64 (128) bytes of \<^verbatim>\<open>0x36\<close> and \<^verbatim>\<open>0x5C\<close>.\<close>

definition hmac_pad :: "nat \<Rightarrow> byte \<Rightarrow> bytes \<Rightarrow> bytes" where
  "hmac_pad B c key = map (\<lambda>i. if i < length key then c XOR key ! i else c) [0..<B]"

text \<open>RFC 2104 over a digest function.\<close>

definition hmac_spec :: "nat \<Rightarrow> (bytes \<Rightarrow> bytes) \<Rightarrow> bytes \<Rightarrow> bytes \<Rightarrow> bytes" where
  "hmac_spec B H key msg =
     (let key = (if B < length key then H key else key);
          key0 = key @ replicate (B - length key) 0
      in H (map (\<lambda>b. b XOR 0x5C) key0 @ H (map (\<lambda>b. b XOR 0x36) key0 @ msg)))"

lemma length_hmac_pad [simp]: "length (hmac_pad B c key) = B"
  by (simp add: hmac_pad_def)

lemma hmac_pad_eq:
  "length key \<le> B \<Longrightarrow> hmac_pad B c key = map (\<lambda>b. b XOR c) (key @ replicate (B - length key) 0)"
  by (rule nth_equalityI) (auto simp: hmac_pad_def nth_append xor.commute)

section \<open>The interface of a digest\<close>

text \<open>
  What the callers of a digest (\<^verbatim>\<open>md.c\<close>, HMAC, \<^verbatim>\<open>CryptoHash\<close>) use of it: \<open>digests ctx msg\<close> says
  that the context has digested \<open>msg\<close> so far, \<open>valid ctx\<close> that its arrays have their sizes.
  \<open>limit\<close> bounds a single update, by the counter's word.
\<close>

locale md_digest =
  fixes valid :: "'c \<Rightarrow> bool" and digests :: "'c \<Rightarrow> bytes \<Rightarrow> bool"
    and starts :: "'c \<Rightarrow> 'c" and update :: "'c \<Rightarrow> bytes \<Rightarrow> 'c" and finish :: "'c \<Rightarrow> 'c \<times> bytes"
    and H :: "bytes \<Rightarrow> bytes" and B limit :: nat and ctx_opad :: "'c \<Rightarrow> bytes"
  assumes starts_digests: "valid ctx \<Longrightarrow> digests (starts ctx) []"
    and update_digests: "digests ctx msg \<Longrightarrow> length input < limit \<Longrightarrow> digests (update ctx input) (msg @ input)"
    and finish_result: "digests ctx msg \<Longrightarrow> snd (finish ctx) = H msg"
    and finish_valid: "digests ctx msg \<Longrightarrow> valid (fst (finish ctx))"
    and opad_starts: "ctx_opad (starts ctx) = ctx_opad ctx"
    and opad_update: "ctx_opad (update ctx input) = ctx_opad ctx"
    and opad_finish: "ctx_opad (fst (finish ctx)) = ctx_opad ctx"
    and H_short: "length (H msg) < limit" "length (H msg) \<le> B" and B_short: "B < limit"
begin

lemma oneshot: "valid ctx \<Longrightarrow> length input < limit \<Longrightarrow> snd (finish (update (starts ctx) input)) = H input"
  using finish_result [OF update_digests [OF starts_digests]] by simp

text \<open>A message may be fed in any pieces.\<close>

lemma updates_digest:
  "digests ctx msg \<Longrightarrow> list_all (\<lambda>c. length c < limit) chunks \<Longrightarrow>
   digests (fold (\<lambda>c ctx. update ctx c) chunks ctx) (msg @ concat chunks)"
proof (induction chunks arbitrary: ctx msg)
  case (Cons c cs)
  then show ?case using Cons.IH [OF update_digests [of ctx msg c]] by simp
qed simp

lemma streaming:
  assumes "valid ctx" "list_all (\<lambda>c. length c < limit) chunks"
  shows "snd (finish (fold (\<lambda>c ctx. update ctx c) chunks (starts ctx))) = H (concat chunks)"
  using finish_result [OF updates_digest [OF starts_digests [OF assms(1)] assms(2)]] by simp

text \<open>The steps of the HMAC functions.\<close>

lemma hmac_inner:
  assumes "valid ctx" "length pad = B" "list_all (\<lambda>c. length c < limit) chunks"
  shows "digests (fold (\<lambda>c ctx. update ctx c) chunks (update (starts ctx) pad)) (pad @ concat chunks)"
  using updates_digest [OF update_digests [OF starts_digests [OF assms(1)]] assms(3), of pad] assms(2) B_short
  by simp

lemma hmac_outer:
  assumes "digests ctx msg" "length (ctx_opad ctx) = B"
  defines "c \<equiv> starts (fst (finish ctx))"
  shows "snd (finish (update (update c (ctx_opad c)) (snd (finish ctx)))) = H (ctx_opad ctx @ H msg)"
proof -
  have c: "digests c []" "ctx_opad c = ctx_opad ctx"
    using starts_digests [OF finish_valid [OF assms(1)]] by (simp_all add: c_def opad_starts opad_finish)
  have "digests (update (update c (ctx_opad c)) (snd (finish ctx))) (([] @ ctx_opad c) @ snd (finish ctx))"
    using c assms(2) B_short H_short finish_result [OF assms(1)] by (intro update_digests) simp_all
  then show ?thesis using finish_result c(2) finish_result [OF assms(1)] by simp
qed

lemma hmac:
  assumes "valid ctx" "list_all (\<lambda>c. length c < limit) chunks"
    and key: "key' = (if B < length key then H key else key)"
    and op: "ctx_opad ctx = hmac_pad B 0x5C key'"
    and inner: "inner = fold (\<lambda>c ctx. update ctx c) chunks (update (starts ctx) (hmac_pad B 0x36 key'))"
  defines "c \<equiv> starts (fst (finish inner))"
  shows "snd (finish (update (update c (ctx_opad c)) (snd (finish inner)))) = hmac_spec B H key (concat chunks)"
proof -
  have d: "digests inner (hmac_pad B 0x36 key' @ concat chunks)"
    unfolding inner using assms(1,2) by (intro hmac_inner) simp_all
  have keep: "ctx_opad (fold (\<lambda>c ctx. update ctx c) chunks x) = ctx_opad x" for x
    by (induction chunks arbitrary: x) (simp_all add: opad_update)
  have o: "ctx_opad inner = hmac_pad B 0x5C key'" by (simp add: inner keep opad_update opad_starts op)
  have "length key' \<le> B" using H_short by (simp add: key)
  then show ?thesis using hmac_outer [OF d] o
    by (simp add: c_def hmac_spec_def Let_def hmac_pad_eq key [symmetric])
qed

end

lemma blk_update_pads [simp]:
  "ipad (blk_update B p ctx x) = ipad ctx" "opad (blk_update B p ctx x) = opad ctx"
  by (simp_all add: blk_update_def Let_def case_prod_beta)

lemma blk_finish_pads [simp]:
  "ipad (blk_finish B p e ctx) = ipad ctx" "opad (blk_finish B p e ctx) = opad ctx"
  by (simp_all add: blk_finish_def Let_def)

lemma length_PUT_UINT32_BE [simp]: "length (PUT_UINT32_BE n) = 4"
  by (simp add: PUT_UINT32_BE_def)

lemma length_PUT_UINT32_LE [simp]: "length (PUT_UINT32_LE n) = 4"
  by (simp add: PUT_UINT32_LE_def)

lemma length_PUT_UINT64_BE [simp]: "length (PUT_UINT64_BE n) = 8"
  by (simp add: PUT_UINT64_BE_def)

end
