(* ===== verification/Md2.thy ===== *)
theory Md2
  imports Streaming
begin

text \<open>
  \<^verbatim>\<open>setsync/crypto/md2.c\<close>.  MD2 has no counter and no length padding: a checksum is carried
  beside the state and digested as the last block.  The in-place loops are proved equal to the
  scans of RFC 1319.  \<open>md2_update\<close> is an option: its loop would not end, or would write
  beyond the buffer, in a context whose \<^verbatim>\<open>left\<close> is 16 or more, which no operation produces.
\<close>

section \<open>The code\<close>

definition PI_SUBST :: bytes where
  "PI_SUBST =
    [0x29, 0x2E, 0x43, 0xC9, 0xA2, 0xD8, 0x7C, 0x01, 0x3D, 0x36, 0x54, 0xA1, 0xEC, 0xF0, 0x06, 0x13,
     0x62, 0xA7, 0x05, 0xF3, 0xC0, 0xC7, 0x73, 0x8C, 0x98, 0x93, 0x2B, 0xD9, 0xBC, 0x4C, 0x82, 0xCA,
     0x1E, 0x9B, 0x57, 0x3C, 0xFD, 0xD4, 0xE0, 0x16, 0x67, 0x42, 0x6F, 0x18, 0x8A, 0x17, 0xE5, 0x12,
     0xBE, 0x4E, 0xC4, 0xD6, 0xDA, 0x9E, 0xDE, 0x49, 0xA0, 0xFB, 0xF5, 0x8E, 0xBB, 0x2F, 0xEE, 0x7A,
     0xA9, 0x68, 0x79, 0x91, 0x15, 0xB2, 0x07, 0x3F, 0x94, 0xC2, 0x10, 0x89, 0x0B, 0x22, 0x5F, 0x21,
     0x80, 0x7F, 0x5D, 0x9A, 0x5A, 0x90, 0x32, 0x27, 0x35, 0x3E, 0xCC, 0xE7, 0xBF, 0xF7, 0x97, 0x03,
     0xFF, 0x19, 0x30, 0xB3, 0x48, 0xA5, 0xB5, 0xD1, 0xD7, 0x5E, 0x92, 0x2A, 0xAC, 0x56, 0xAA, 0xC6,
     0x4F, 0xB8, 0x38, 0xD2, 0x96, 0xA4, 0x7D, 0xB6, 0x76, 0xFC, 0x6B, 0xE2, 0x9C, 0x74, 0x04, 0xF1,
     0x45, 0x9D, 0x70, 0x59, 0x64, 0x71, 0x87, 0x20, 0x86, 0x5B, 0xCF, 0x65, 0xE6, 0x2D, 0xA8, 0x02,
     0x1B, 0x60, 0x25, 0xAD, 0xAE, 0xB0, 0xB9, 0xF6, 0x1C, 0x46, 0x61, 0x69, 0x34, 0x40, 0x7E, 0x0F,
     0x55, 0x47, 0xA3, 0x23, 0xDD, 0x51, 0xAF, 0x3A, 0xC3, 0x5C, 0xF9, 0xCE, 0xBA, 0xC5, 0xEA, 0x26,
     0x2C, 0x53, 0x0D, 0x6E, 0x85, 0x28, 0x84, 0x09, 0xD3, 0xDF, 0xCD, 0xF4, 0x41, 0x81, 0x4D, 0x52,
     0x6A, 0xDC, 0x37, 0xC8, 0x6C, 0xC1, 0xAB, 0xFA, 0x24, 0xE1, 0x7B, 0x08, 0x0C, 0xBD, 0xB1, 0x4A,
     0x78, 0x88, 0x95, 0x8B, 0xE3, 0x63, 0xE8, 0x6D, 0xE9, 0xCB, 0xD5, 0xFE, 0x3B, 0x00, 0x1D, 0x39,
     0xF2, 0xEF, 0xB7, 0x0E, 0x66, 0x58, 0xD0, 0xE4, 0xA6, 0x77, 0x72, 0xF8, 0xEB, 0x75, 0x4B, 0x0A,
     0x31, 0x44, 0x50, 0xB4, 0x8F, 0xED, 0x1F, 0x1A, 0xDB, 0x99, 0x8D, 0x33, 0x9F, 0x11, 0x83, 0x14]"

record md2_context =
  cksum :: bytes
  md2_state :: bytes
  md2_buffer :: bytes
  md2_ipad :: bytes
  md2_opad :: bytes
  md2_left :: nat

definition md2_starts :: "md2_context \<Rightarrow> md2_context" where
  "md2_starts ctx = ctx\<lparr>cksum := replicate 16 0, md2_state := replicate 48 0,
     md2_buffer := replicate 16 0, md2_left := 0\<rparr>"

text \<open>The four loops of \<^verbatim>\<open>md2_process\<close>: the copy, the 18 passes of 48 steps, the checksum.\<close>

definition md2_copy :: "bytes \<Rightarrow> nat \<Rightarrow> bytes \<Rightarrow> bytes" where
  "md2_copy buf i st = (let st = st[i + 16 := buf ! i] in st[i + 32 := buf ! i XOR st ! i])"

definition md2_step :: "nat \<Rightarrow> bytes \<times> byte \<Rightarrow> bytes \<times> byte" where
  "md2_step j = (\<lambda>(st, t). let st = st[j := st ! j XOR PI_SUBST ! unat t] in (st, st ! j))"

definition md2_pass :: "nat \<Rightarrow> bytes \<times> byte \<Rightarrow> bytes \<times> byte" where
  "md2_pass i x = (let (st, t) = fold md2_step [0..<48] x in (st, t + word_of_nat i))"

definition md2_cksum_step :: "bytes \<Rightarrow> nat \<Rightarrow> bytes \<times> byte \<Rightarrow> bytes \<times> byte" where
  "md2_cksum_step buf i = (\<lambda>(c, t).
     let c = c[i := c ! i XOR PI_SUBST ! unat (buf ! i XOR t)] in (c, c ! i))"

definition md2_process :: "md2_context \<Rightarrow> md2_context" where
  "md2_process ctx =
     (let ctx = ctx\<lparr>md2_state := fold (md2_copy (md2_buffer ctx)) [0..<16] (md2_state ctx)\<rparr>;
          ctx = ctx\<lparr>md2_state := fst (fold md2_pass [0..<18] (md2_state ctx, 0))\<rparr>
      in ctx\<lparr>cksum := fst (fold (md2_cksum_step (md2_buffer ctx)) [0..<16] (cksum ctx, cksum ctx ! 15))\<rparr>)"

function md2_update :: "md2_context \<Rightarrow> bytes \<Rightarrow> md2_context option" where
  "md2_update ctx input =
     (if length input = 0 then Some ctx
      else if 16 \<le> md2_left ctx then None
      else
        let fill = (if 16 < md2_left ctx + length input then 16 - md2_left ctx else length input);
            ctx = ctx\<lparr>md2_buffer := memcpy_at (md2_buffer ctx) (md2_left ctx) (take fill input)\<rparr>;
            ctx = ctx\<lparr>md2_left := md2_left ctx + fill\<rparr>;
            ctx = (if md2_left ctx = 16 then md2_process (ctx\<lparr>md2_left := 0\<rparr>) else ctx)
        in md2_update ctx (drop fill input))"
  by pat_completeness auto
termination by (relation "measure (\<lambda>(ctx, input). length input)") (auto simp: Let_def)

declare md2_update.simps [simp del]

definition md2_finish :: "md2_context \<Rightarrow> md2_context \<times> bytes" where
  "md2_finish ctx =
     (let x = word_of_nat (16 - md2_left ctx);
          ctx = ctx\<lparr>md2_buffer := fold (\<lambda>i buf. buf[i := x]) [md2_left ctx..<16] (md2_buffer ctx)\<rparr>;
          ctx = md2_process ctx;
          ctx = ctx\<lparr>md2_buffer := cksum ctx\<rparr>;
          ctx = md2_process ctx
      in (ctx, take 16 (md2_state ctx)))"

definition md2_uninit :: md2_context where
  "md2_uninit = \<lparr>cksum = replicate 16 0, md2_state = replicate 48 0, md2_buffer = replicate 16 0,
     md2_ipad = replicate 16 0, md2_opad = replicate 16 0, md2_left = 0\<rparr>"

definition md2 :: "bytes \<Rightarrow> bytes option" where
  "md2 input = map_option (\<lambda>ctx. snd (md2_finish ctx)) (md2_update (md2_starts md2_uninit) input)"

definition md2_hmac_starts :: "md2_context \<Rightarrow> bytes \<Rightarrow> md2_context option" where
  "md2_hmac_starts ctx key =
     (case (if 16 < length key then md2 key else Some key) of
        None \<Rightarrow> None
      | Some key \<Rightarrow>
          let ctx = ctx\<lparr>md2_ipad := hmac_pad 16 0x36 key, md2_opad := hmac_pad 16 0x5C key\<rparr>;
              ctx = md2_starts ctx
          in md2_update ctx (md2_ipad ctx))"

definition md2_hmac_update :: "md2_context \<Rightarrow> bytes \<Rightarrow> md2_context option" where
  "md2_hmac_update ctx input = md2_update ctx input"

definition md2_hmac_finish :: "md2_context \<Rightarrow> (md2_context \<times> bytes) option" where
  "md2_hmac_finish ctx =
     (let (ctx, tmpbuf) = md2_finish ctx;
          ctx = md2_starts ctx
      in case md2_update ctx (md2_opad ctx) of
           None \<Rightarrow> None
         | Some ctx \<Rightarrow> map_option md2_finish (md2_update ctx tmpbuf))"

definition md2_hmac_reset :: "md2_context \<Rightarrow> md2_context option" where
  "md2_hmac_reset ctx = (let ctx = md2_starts ctx in md2_update ctx (md2_ipad ctx))"

definition md2_hmac :: "bytes \<Rightarrow> bytes \<Rightarrow> bytes option" where
  "md2_hmac key input =
     (case md2_hmac_starts md2_uninit key of
        None \<Rightarrow> None
      | Some ctx \<Rightarrow>
          (case md2_hmac_update ctx input of
             None \<Rightarrow> None
           | Some ctx \<Rightarrow> map_option snd (md2_hmac_finish ctx)))"

section \<open>The reference: RFC 1319\<close>

text \<open>A pass over a block that carries its last output along.\<close>

fun scan :: "(nat \<Rightarrow> 'a \<Rightarrow> 'a \<Rightarrow> 'a) \<Rightarrow> nat \<Rightarrow> 'a \<Rightarrow> 'a list \<Rightarrow> 'a list \<times> 'a" where
  "scan g k t [] = ([], t)"
| "scan g k t (x # xs) = (let v = g k x t; (ys, u) = scan g (Suc k) v xs in (v # ys, u))"

definition rfc1319_checksum :: "bytes \<Rightarrow> bytes \<Rightarrow> bytes" where
  "rfc1319_checksum C M = fst (scan (\<lambda>j c L. c XOR PI_SUBST ! unat (M ! j XOR L)) 0 (last C) C)"

definition rfc1319_round :: "nat \<Rightarrow> bytes \<times> byte \<Rightarrow> bytes \<times> byte" where
  "rfc1319_round j = (\<lambda>(X, t). case scan (\<lambda>k x t. x XOR PI_SUBST ! unat t) 0 t X of
     (X, t) \<Rightarrow> (X, t + word_of_nat j))"

definition rfc1319_compress :: "bytes \<Rightarrow> bytes \<Rightarrow> bytes" where
  "rfc1319_compress X M = fst (fold rfc1319_round [0..<18] (take 16 X @ M @ map2 (XOR) M (take 16 X), 0))"

definition rfc1319_pad :: "nat \<Rightarrow> bytes" where
  "rfc1319_pad len = (let p = 16 - len mod 16 in replicate p (word_of_nat p))"

definition rfc1319_md2 :: "bytes \<Rightarrow> bytes" where
  "rfc1319_md2 msg =
     (let padded = msg @ rfc1319_pad (length msg);
          C = fst (md_blocks 16 rfc1319_checksum (replicate 16 0) padded);
          X = fst (md_blocks 16 rfc1319_compress (replicate 48 0) (padded @ C))
      in take 16 X)"

section \<open>The in-place loops are scans\<close>

lemma length_scan [simp]: "length (fst (scan g k t xs)) = length xs"
  by (induction g k t xs rule: scan.induct) (simp_all add: Let_def case_prod_beta)

lemma fold_scan_gen:
  assumes step: "\<And>i ys t. i < length ys \<Longrightarrow> step i (ys, t) = (let v = g i (ys ! i) t in (ys[i := v], v))"
  shows "fold step [length pre..<length pre + length xs] (pre @ xs, t) =
    (case scan g (length pre) t xs of (ys, u) \<Rightarrow> (pre @ ys, u))"
proof (induction xs arbitrary: pre t)
  case (Cons x xs)
  let ?v = "g (length pre) x t"
  have "[length pre..<length pre + length (x # xs)] =
      length pre # [length (pre @ [?v])..<length (pre @ [?v]) + length xs]"
    using upt_conv_Cons [of "length pre" "length pre + length (x # xs)"] by simp
  moreover have "step (length pre) (pre @ x # xs, t) = ((pre @ [?v]) @ xs, ?v)"
    by (simp add: step Let_def)
  moreover have "fold step [length (pre @ [?v])..<length (pre @ [?v]) + length xs] ((pre @ [?v]) @ xs, ?v) =
      (case scan g (length (pre @ [?v])) ?v xs of (ys, u) \<Rightarrow> ((pre @ [?v]) @ ys, u))"
    by (rule Cons.IH)
  ultimately show ?case by (simp add: Let_def case_prod_beta)
qed simp

lemma fold_scan:
  assumes "\<And>i ys t. i < length ys \<Longrightarrow> step i (ys, t) = (let v = g i (ys ! i) t in (ys[i := v], v))"
    and "length xs = n"
  shows "fold step [0..<n] (xs, t) = scan g 0 t xs"
  using fold_scan_gen [of step g "[]" xs t, OF assms(1)] assms(2) by simp

lemma md2_pass_scan: "length st = 48 \<Longrightarrow> md2_pass i (st, t) = rfc1319_round i (st, t)"
  unfolding md2_pass_def rfc1319_round_def Let_def
  by (subst fold_scan [where g = "\<lambda>k x t. x XOR PI_SUBST ! unat t"]) (simp_all add: md2_step_def Let_def)

lemma length_rfc1319_round [simp]: "length (fst (rfc1319_round i x)) = length (fst x)"
  by (simp add: rfc1319_round_def case_prod_beta)

lemma md2_passes:
  "length st = 48 \<Longrightarrow> fold md2_pass is (st, t) = fold rfc1319_round is (st, t) \<and>
     length (fst (fold rfc1319_round is (st, t))) = 48"
proof (induction "is" arbitrary: st t)
  case (Cons i js)
  obtain s u where r: "rfc1319_round i (st, t) = (s, u)" by fastforce
  then have "length s = 48" using length_rfc1319_round [of i "(st, t)"] Cons.prems by simp
  then show ?case using Cons.IH [of s u] Cons.prems r by (simp add: md2_pass_scan)
qed simp

lemma md2_cksum_scan:
  assumes "length c = 16"
  shows "fst (fold (md2_cksum_step buf) [0..<16] (c, c ! 15)) = rfc1319_checksum c buf"
proof -
  have "c \<noteq> []" using assms by auto
  then have "c ! 15 = last c" using assms by (simp add: last_conv_nth)
  then show ?thesis unfolding rfc1319_checksum_def using assms
    by (subst fold_scan [where g = "\<lambda>j c L. c XOR PI_SUBST ! unat (buf ! j XOR L)"])
      (simp_all add: md2_cksum_step_def Let_def)
qed

lemma md2_copy_loop:
  assumes "length st = 48" "n \<le> 16"
  shows "length (fold (md2_copy buf) [0..<n] st) = 48 \<and>
    (\<forall>i < 48. fold (md2_copy buf) [0..<n] st ! i =
      (if 16 \<le> i \<and> i < 16 + n then buf ! (i - 16)
       else if 32 \<le> i \<and> i < 32 + n then buf ! (i - 32) XOR st ! (i - 32) else st ! i))"
  using assms(2)
proof (induction n)
  case 0
  show ?case using assms(1) by auto
next
  case (Suc n)
  let ?s = "fold (md2_copy buf) [0..<n] st"
  have l: "length ?s = 48" and IH: "\<And>i. i < 48 \<Longrightarrow> ?s ! i =
      (if 16 \<le> i \<and> i < 16 + n then buf ! (i - 16)
       else if 32 \<le> i \<and> i < 32 + n then buf ! (i - 32) XOR st ! (i - 32) else st ! i)"
    using Suc by simp_all
  have n: "?s ! n = st ! n" using Suc.prems by (subst IH) auto
  have e: "fold (md2_copy buf) [0..<Suc n] st = ?s[n + 16 := buf ! n, n + 32 := buf ! n XOR st ! n]"
    using Suc.prems by (simp add: md2_copy_def Let_def n)
  have "fold (md2_copy buf) [0..<Suc n] st ! i =
      (if i = n + 32 then buf ! n XOR st ! n else if i = n + 16 then buf ! n else ?s ! i)" if "i < 48" for i
    unfolding e using that l Suc.prems by (simp add: nth_list_update)
  then have "fold (md2_copy buf) [0..<Suc n] st ! i =
      (if 16 \<le> i \<and> i < 16 + Suc n then buf ! (i - 16)
       else if 32 \<le> i \<and> i < 32 + Suc n then buf ! (i - 32) XOR st ! (i - 32) else st ! i)" if "i < 48" for i
    using that IH [OF that] Suc.prems by auto
  then show ?case unfolding e using l by simp
qed

lemma md2_copy_all:
  assumes "length st = 48" "length buf = 16"
  shows "fold (md2_copy buf) [0..<16] st = take 16 st @ buf @ map2 (XOR) buf (take 16 st)"
proof (rule nth_equalityI)
  note c = md2_copy_loop [OF assms(1), of 16 buf, OF order_refl]
  show "length (fold (md2_copy buf) [0..<16] st) = length (take 16 st @ buf @ map2 (XOR) buf (take 16 st))"
    using c assms by simp
  fix i assume "i < length (fold (md2_copy buf) [0..<16] st)"
  then have i: "i < 48" using c by simp
  show "fold (md2_copy buf) [0..<16] st ! i = (take 16 st @ buf @ map2 (XOR) buf (take 16 st)) ! i"
  proof -
    consider "i < 16" | "16 \<le> i" "i < 32" | "32 \<le> i" by linarith
    then show ?thesis
    proof cases
      case 2
      then have "i - 16 < 16" by linarith
      with 2 show ?thesis using i assms c by (simp add: nth_append)
    next
      case 3
      then have "\<not> i - 16 < 16" "i - 16 - 16 = i - 32" "i - 32 < 16" using i by linarith+
      with 3 show ?thesis using i assms c by (simp add: nth_append)
    qed (use i assms c in \<open>simp add: nth_append\<close>)
  qed
qed

section \<open>Streaming\<close>

text \<open>Both halves of the state, as one compression function.\<close>

definition md2_compress :: "bytes \<times> bytes \<Rightarrow> bytes \<Rightarrow> bytes \<times> bytes" where
  "md2_compress = (\<lambda>(C, X) M. (rfc1319_checksum C M, rfc1319_compress X M))"

lemma md2_process_rfc1319:
  assumes "length (md2_state ctx) = 48" "length (md2_buffer ctx) = 16" "length (cksum ctx) = 16"
  shows "md2_process ctx = ctx\<lparr>md2_state := rfc1319_compress (md2_state ctx) (md2_buffer ctx),
    cksum := rfc1319_checksum (cksum ctx) (md2_buffer ctx)\<rparr>"
proof -
  let ?st = "take 16 (md2_state ctx) @ md2_buffer ctx @ map2 (XOR) (md2_buffer ctx) (take 16 (md2_state ctx))"
  have "length ?st = 48" using assms by simp
  from md2_passes [OF this] md2_cksum_scan [OF assms(3)] md2_copy_all [OF assms(1,2)]
  show ?thesis by (simp add: md2_process_def rfc1319_compress_def)
qed

definition md2_digests :: "md2_context \<Rightarrow> bytes \<Rightarrow> bool" where
  "md2_digests ctx msg \<longleftrightarrow>
     length (md2_buffer ctx) = 16 \<and> length (md2_state ctx) = 48 \<and> length (cksum ctx) = 16 \<and>
     md2_left ctx = length msg mod 16 \<and>
     md_blocks 16 md2_compress (replicate 16 0, replicate 48 0) msg =
       ((cksum ctx, md2_state ctx), take (md2_left ctx) (md2_buffer ctx))"

lemma md2_digests_append:
  assumes "md2_digests ctx msg"
  shows "md_blocks 16 md2_compress (replicate 16 0, replicate 48 0) (msg @ y) =
    md_blocks 16 md2_compress (cksum ctx, md2_state ctx) (take (md2_left ctx) (md2_buffer ctx) @ y)"
proof -
  have b: "md_blocks 16 md2_compress (replicate 16 0, replicate 48 0) msg =
      ((cksum ctx, md2_state ctx), take (md2_left ctx) (md2_buffer ctx))"
    using assms by (simp add: md2_digests_def)
  show ?thesis
    unfolding md_blocks_append [OF zero_less_numeral, of _ md2_compress "(replicate 16 0, replicate 48 0)" msg y] b
    by simp
qed

lemma length_rfc1319_compress: "length M = 16 \<Longrightarrow> length X = 48 \<Longrightarrow> length (rfc1319_compress X M) = 48"
  unfolding rfc1319_compress_def by (rule conjunct2 [OF md2_passes]) simp

lemma length_rfc1319_checksum [simp]: "length (rfc1319_checksum C M) = length C"
  by (simp add: rfc1319_checksum_def)

lemma md2_fill:
  assumes d: "md2_digests ctx msg" and f: "length x \<le> 16 - md2_left ctx" "x \<noteq> []"
  defines "ctx' \<equiv> ctx\<lparr>md2_buffer := memcpy_at (md2_buffer ctx) (md2_left ctx) x,
    md2_left := md2_left ctx + length x\<rparr>"
  shows "md2_digests (if md2_left ctx' = 16 then md2_process (ctx'\<lparr>md2_left := 0\<rparr>) else ctx') (msg @ x)"
proof -
  let ?l = "md2_left ctx" and ?b = "memcpy_at (md2_buffer ctx) (md2_left ctx) x"
  have l: "?l = length msg mod 16" "length (md2_buffer ctx) = 16" "length (md2_state ctx) = 48"
    "length (cksum ctx) = 16" using d by (simp_all add: md2_digests_def)
  have l16: "?l < 16" by (simp add: l(1))
  have lb: "length ?b = 16" using l f l16 by simp
  have tb: "take (?l + length x) ?b = take ?l (md2_buffer ctx) @ x" using l l16 by (intro take_memcpy_at) simp
  have blocks: "md_blocks 16 md2_compress (replicate 16 0, replicate 48 0) (msg @ x) =
      md_blocks 16 md2_compress (cksum ctx, md2_state ctx) (take ?l (md2_buffer ctx) @ x)"
    by (rule md2_digests_append [OF d])
  show ?thesis
  proof (cases "?l + length x = 16")
    case True
    have b: "take ?l (md2_buffer ctx) @ x = ?b" using tb lb True by simp
    then have "md_blocks 16 md2_compress (replicate 16 0, replicate 48 0) (msg @ x) =
        ((rfc1319_checksum (cksum ctx) ?b, rfc1319_compress (md2_state ctx) ?b), [])"
      unfolding blocks b using lb by (simp add: md_blocks_big md_blocks_small md2_compress_def)
    moreover have "(length msg + length x) mod 16 = 0"
      using True l(1) mod_add_left_eq [of "length msg" 16 "length x"] by simp
    ultimately show ?thesis using True l lb
      by (simp add: md2_digests_def ctx'_def md2_process_rfc1319 length_rfc1319_compress)
  next
    case False
    then have s: "?l + length x < 16" using f l16 by simp
    then have "(length msg + length x) mod 16 = ?l + length x"
      using l(1) mod_add_left_eq [of "length msg" 16 "length x"] by simp
    moreover have "md_blocks 16 md2_compress (replicate 16 0, replicate 48 0) (msg @ x) =
        ((cksum ctx, md2_state ctx), take (?l + length x) ?b)"
      unfolding blocks tb using s l by (simp add: md_blocks_small)
    ultimately show ?thesis using False l lb by (simp add: md2_digests_def ctx'_def)
  qed
qed

lemma md2_update_digests:
  "md2_digests ctx msg \<Longrightarrow> \<exists>ctx'. md2_update ctx input = Some ctx' \<and> md2_digests ctx' (msg @ input) \<and>
     md2_ipad ctx' = md2_ipad ctx \<and> md2_opad ctx' = md2_opad ctx"
proof (induction "length input" arbitrary: ctx msg input rule: less_induct)
  case less
  show ?case
  proof (cases "input = []")
    case True
    then show ?thesis using less.prems by (simp add: md2_update.simps)
  next
    case False
    have l: "md2_left ctx < 16" using less.prems by (simp add: md2_digests_def)
    define fill where "fill = (if 16 < md2_left ctx + length input then 16 - md2_left ctx else length input)"
    define c where "c = ctx\<lparr>md2_buffer := memcpy_at (md2_buffer ctx) (md2_left ctx) (take fill input),
      md2_left := md2_left ctx + fill\<rparr>"
    define c' where "c' = (if md2_left c = 16 then md2_process (c\<lparr>md2_left := 0\<rparr>) else c)"
    have f: "0 < fill" "fill \<le> length input" "length (take fill input) = fill" "fill \<le> 16 - md2_left ctx"
      using l False by (auto simp: fill_def)
    have upd: "md2_update ctx input = md2_update c' (drop fill input)"
      using l False unfolding md2_update.simps [of ctx input] Let_def
      by (simp add: fill_def [symmetric] c'_def c_def)
    have "md2_digests c' (msg @ take fill input)"
      using md2_fill [OF less.prems, of "take fill input"] f(1,4) False
      unfolding f(3) c'_def c_def by simp
    then obtain d where d: "md2_update c' (drop fill input) = Some d"
        "md2_digests d ((msg @ take fill input) @ drop fill input)"
        "md2_ipad d = md2_ipad c'" "md2_opad d = md2_opad c'"
      using less.hyps [of "drop fill input" c' "msg @ take fill input"] f False by auto
    moreover have "md2_ipad c' = md2_ipad ctx" "md2_opad c' = md2_opad ctx"
      by (simp_all add: c'_def c_def md2_process_def Let_def)
    ultimately show ?thesis using upd by simp
  qed
qed

lemma md2_finish_fill:
  "l \<le> n \<Longrightarrow> n \<le> length buf \<Longrightarrow>
   fold (\<lambda>i buf. buf[i := x]) [l..<n] buf = take l buf @ replicate (n - l) x @ drop n buf"
proof (induction n)
  case (Suc n)
  show ?case
  proof (cases "l = Suc n")
    case False
    then have n: "l \<le> n" "n < length buf" using Suc.prems by simp_all
    have "drop n buf = buf ! n # drop (Suc n) buf" using n by (simp add: Cons_nth_drop_Suc)
    then have "fold (\<lambda>i buf. buf[i := x]) [l..<Suc n] buf =
        (take l buf @ replicate (n - l) x @ buf ! n # drop (Suc n) buf)[n := x]"
      using n Suc.IH by simp
    also have "\<dots> = take l buf @ replicate (n - l) x @ x # drop (Suc n) buf"
      using n by (simp add: list_update_append min_def)
    also have "\<dots> = take l buf @ (replicate (n - l) x @ [x]) @ drop (Suc n) buf" by simp
    also have "replicate (n - l) x @ [x] = replicate (Suc n - l) x"
      using n by (simp add: Suc_diff_le replicate_append_same)
    finally show ?thesis .
  qed simp
qed simp

lemma md_blocks_pair:
  "md_blocks B (\<lambda>(a, b) d. (f a d, g b d)) (a, b) x =
     ((fst (md_blocks B f a x), fst (md_blocks B g b x)), snd (md_blocks B f a x))"
proof (induction "length x" arbitrary: a b x rule: less_induct)
  case less
  show ?case
  proof (cases "0 < B \<and> B \<le> length x")
    case True
    then have "length (drop B x) < length x" unfolding length_drop by linarith
    from less.hyps [OF this, of "f a (take B x)" "g b (take B x)"] True show ?thesis
      by (simp add: md_blocks_big)
  next
    case False
    then show ?thesis by (subst (1 2 3 4) md_blocks.simps) auto
  qed
qed

lemma md_blocks_exact:
  "0 < B \<Longrightarrow> B dvd length x \<Longrightarrow> length y = B \<Longrightarrow>
   md_blocks B p st (x @ y) = (p (fst (md_blocks B p st x)) y, [])"
  using md_blocks_rest [of B p st x] md_blocks_append [of B p st x y]
  by (cases "md_blocks B p st x") (simp add: md_blocks_big md_blocks_small)

lemma md2_finish_digests:
  assumes d: "md2_digests ctx msg"
  shows "snd (md2_finish ctx) = rfc1319_md2 msg" "length (md2_buffer (fst (md2_finish ctx))) = 16"
    "md2_ipad (fst (md2_finish ctx)) = md2_ipad ctx" "md2_opad (fst (md2_finish ctx)) = md2_opad ctx"
proof -
  let ?l = "md2_left ctx" and ?x = "word_of_nat (16 - md2_left ctx) :: byte"
  define b where "b = take ?l (md2_buffer ctx) @ replicate (16 - ?l) ?x"
  have l: "?l = length msg mod 16" "length (md2_buffer ctx) = 16" "length (md2_state ctx) = 48"
    "length (cksum ctx) = 16" using d by (simp_all add: md2_digests_def)
  have lb: "length b = 16" using l by (simp add: b_def)
  have fill: "fold (\<lambda>i buf. buf[i := ?x]) [?l..<16] (md2_buffer ctx) = b"
    using l by (simp add: md2_finish_fill b_def)
  let ?C = "rfc1319_checksum (cksum ctx) b" and ?X = "rfc1319_compress (md2_state ctx) b"
  have lX: "length ?X = 48" "length ?C = 16" using l lb by (simp_all add: length_rfc1319_compress)
  have fin: "md2_finish ctx = (ctx\<lparr>md2_buffer := ?C, md2_state := rfc1319_compress ?X ?C,
      cksum := rfc1319_checksum ?C ?C\<rparr>, take 16 (rfc1319_compress ?X ?C))"
    unfolding md2_finish_def Let_def fill using l lb lX by (simp add: md2_process_rfc1319)
  then show "length (md2_buffer (fst (md2_finish ctx))) = 16" "md2_ipad (fst (md2_finish ctx)) = md2_ipad ctx"
    "md2_opad (fst (md2_finish ctx)) = md2_opad ctx" using lX by simp_all
  let ?p = "msg @ rfc1319_pad (length msg)"
  have "md_blocks 16 md2_compress (replicate 16 0, replicate 48 0) ?p =
      md_blocks 16 md2_compress (cksum ctx, md2_state ctx) b"
    unfolding md2_digests_append [OF d] using l by (simp add: rfc1319_pad_def Let_def b_def)
  also have "\<dots> = ((?C, ?X), [])" using lb by (simp add: md_blocks_big md_blocks_small md2_compress_def)
  finally have p: "fst (md_blocks 16 rfc1319_checksum (replicate 16 0) ?p) = ?C"
    "fst (md_blocks 16 rfc1319_compress (replicate 48 0) ?p) = ?X"
    unfolding md2_compress_def md_blocks_pair by simp_all
  have dv: "16 dvd length ?p"
  proof -
    have "length msg + (16 - length msg mod 16) = 16 * (length msg div 16) + 16"
      using mult_div_mod_eq [of 16 "length msg"] mod_less_divisor [of 16 "length msg"] by linarith
    then show ?thesis by (simp add: rfc1319_pad_def Let_def)
  qed
  show "snd (md2_finish ctx) = rfc1319_md2 msg"
    unfolding fin rfc1319_md2_def Let_def p(1) md_blocks_exact [OF zero_less_numeral dv lX(2)] p(2) by simp
qed

lemma md2_starts_digests: "md2_digests (md2_starts ctx) []"
  by (simp add: md2_starts_def md2_digests_def md_blocks_small)

lemma md2_starts_pads [simp]:
  "md2_ipad (md2_starts ctx) = md2_ipad ctx" "md2_opad (md2_starts ctx) = md2_opad ctx"
  by (simp_all add: md2_starts_def)

section \<open>The digest\<close>

definition md2_updated :: "md2_context \<Rightarrow> bytes \<Rightarrow> md2_context" where
  "md2_updated ctx input = (case md2_update ctx input of None \<Rightarrow> ctx | Some ctx' \<Rightarrow> ctx')"

lemma md2_update_opad: "md2_update ctx input = Some ctx' \<Longrightarrow> md2_opad ctx' = md2_opad ctx"
proof (induction "length input" arbitrary: ctx input rule: less_induct)
  case less
  show ?case
  proof (cases "input = []")
    case True
    then show ?thesis using less.prems by (simp add: md2_update.simps)
  next
    case False
    define fill where "fill = (if 16 < md2_left ctx + length input then 16 - md2_left ctx else length input)"
    define c where "c = ctx\<lparr>md2_buffer := memcpy_at (md2_buffer ctx) (md2_left ctx) (take fill input),
      md2_left := md2_left ctx + fill\<rparr>"
    define c' where "c' = (if md2_left c = 16 then md2_process (c\<lparr>md2_left := 0\<rparr>) else c)"
    have l: "md2_left ctx < 16" using False less.prems unfolding md2_update.simps [of ctx input]
      by (simp split: if_splits)
    then have upd: "md2_update ctx input = md2_update c' (drop fill input)"
      using False unfolding md2_update.simps [of ctx input] Let_def
      by (simp add: fill_def [symmetric] c'_def c_def)
    have "length (drop fill input) < length input" using l False by (simp add: fill_def)
    from less.hyps [OF this, of c'] less.prems upd show ?thesis
      by (simp add: c'_def c_def md2_process_def Let_def)
  qed
qed

lemma length_rfc1319_md2: "length (rfc1319_md2 msg) = 16"
proof -
  have d: "md2_digests (the (md2_update (md2_starts md2_uninit) msg)) msg"
    using md2_update_digests [OF md2_starts_digests, of md2_uninit msg] by auto
  have "length (md2_state (fst (md2_finish (the (md2_update (md2_starts md2_uninit) msg))))) = 48"
    using d by (simp add: md2_digests_def md2_finish_def Let_def md2_finish_fill md2_process_rfc1319
        length_rfc1319_compress)
  then have "length (snd (md2_finish (the (md2_update (md2_starts md2_uninit) msg)))) = 16"
    by (simp add: md2_finish_def Let_def)
  then show ?thesis by (simp add: md2_finish_digests(1) [OF d])
qed

lemma md2_updated_digests: "md2_digests ctx msg \<Longrightarrow> md2_digests (md2_updated ctx input) (msg @ input)"
  using md2_update_digests [of ctx msg input] by (auto simp: md2_updated_def)

interpretation md2_md: md_digest "\<lambda>_. True" md2_digests md2_starts md2_updated md2_finish rfc1319_md2
  16 "2 ^ 64" md2_opad
proof unfold_locales
  show "md2_opad (md2_updated ctx input) = md2_opad ctx" for ctx input
    using md2_update_opad by (simp add: md2_updated_def split: option.split)
  show "md2_opad (fst (md2_finish ctx)) = md2_opad ctx" for ctx
    by (simp add: md2_finish_def Let_def md2_process_def)
qed (simp_all add: md2_updated_digests md2_starts_digests md2_finish_digests length_rfc1319_md2)

lemma md2_updated: "md2_digests ctx msg \<Longrightarrow> md2_update ctx input = Some (md2_updated ctx input)"
  using md2_update_digests [of ctx msg input] by (auto simp: md2_updated_def)

lemma md2_rfc1319: "md2 input = Some (rfc1319_md2 input)"
proof -
  have d: "md2_digests (md2_starts md2_uninit) []" by (rule md2_starts_digests)
  show ?thesis
    unfolding md2_def md2_updated [OF d] using md2_md.finish_result [of _ input]
      md2_update_digests [OF d, of input] by (auto simp: md2_updated_def)
qed

lemma md2_hmac_spec:
  assumes "length input < 2 ^ 64"
  shows "md2_hmac key input = Some (hmac_spec 16 rfc1319_md2 key input)"
proof -
  define k where "k = (if 16 < length key then rfc1319_md2 key else key)"
  let ?ctx = "md2_uninit\<lparr>md2_ipad := hmac_pad 16 0x36 k, md2_opad := hmac_pad 16 0x5C k\<rparr>"
  let ?c0 = "md2_updated (md2_starts ?ctx) (hmac_pad 16 0x36 k)"
  let ?c1 = "md2_updated ?c0 input"
  let ?c2 = "md2_starts (fst (md2_finish ?c1))"
  have d0: "md2_digests ?c0 (hmac_pad 16 0x36 k)" using md2_md.hmac_inner [of "hmac_pad 16 0x36 k" "[]" ?ctx] by simp
  then have d1: "md2_digests ?c1 (hmac_pad 16 0x36 k @ input)"
    using assms by (intro md2_md.update_digests) simp_all
  have d2: "md2_digests ?c2 []" by (rule md2_starts_digests)
  then have d3: "md2_digests (md2_updated ?c2 (md2_opad ?c2)) (md2_opad ?c2)"
    using md2_updated_digests [OF d2, of "md2_opad ?c2"] by simp
  have k: "(if 16 < length key then md2 key else Some key) = Some k" by (simp add: k_def md2_rfc1319)
  have s: "md2_hmac_starts md2_uninit key = Some ?c0"
    unfolding md2_hmac_starts_def k using md2_updated [OF md2_starts_digests, of ?ctx "hmac_pad 16 0x36 k"]
    by (simp add: Let_def)
  have f: "md2_hmac_finish ?c1 = Some (md2_finish (md2_updated (md2_updated ?c2 (md2_opad ?c2)) (snd (md2_finish ?c1))))"
    unfolding md2_hmac_finish_def Let_def case_prod_beta using md2_updated [OF d2] md2_updated [OF d3] by simp
  have "snd (md2_finish (md2_updated (md2_updated ?c2 (md2_opad ?c2)) (snd (md2_finish ?c1)))) =
      hmac_spec 16 rfc1319_md2 key (concat [input])"
    by (rule md2_md.hmac [where ctx = ?ctx and key' = k]) (use assms in \<open>simp_all add: k_def\<close>)
  then show ?thesis unfolding md2_hmac_def md2_hmac_update_def s using md2_updated [OF d0] f by simp
qed

end
