(* ===== verification/MdRounds.thy ===== *)
theory MdRounds
  imports Streaming
begin

text \<open>
  What \<^verbatim>\<open>md4.c\<close> and \<^verbatim>\<open>md5.c\<close> share: four registers A to D (0 to 3) of which each macro call
  changes the first, and little-endian messages and digests.
\<close>

type_synonym regs4 = "nat \<times> nat \<times> nat \<times> nat"

definition md_words :: "bytes \<Rightarrow> u32 list" where
  "md_words data = map (\<lambda>i. GET_UINT32_LE data (4 * i)) [0..<16]"

definition md_msglen :: "u32 \<Rightarrow> u32 \<Rightarrow> bytes" where
  "md_msglen high low = PUT_UINT32_LE low @ PUT_UINT32_LE high"

definition md_output :: "u32 list \<Rightarrow> bytes" where
  "md_output st = PUT_UINT32_LE (st ! 0) @ PUT_UINT32_LE (st ! 1) @ PUT_UINT32_LE (st ! 2) @ PUT_UINT32_LE (st ! 3)"

definition md_IV :: "u32 list" where
  "md_IV = [0x67452301, 0xEFCDAB89, 0x98BADCFE, 0x10325476]"

text \<open>Register \<open>(3 * t + i) mod 4\<close> plays the role \<open>i\<close> in round \<open>t\<close>.\<close>

definition idx4 :: "nat \<Rightarrow> regs4" where
  "idx4 t = ((3 * t) mod 4, (3 * t + 1) mod 4, (3 * t + 2) mod 4, (3 * t + 3) mod 4)"

type_synonym vars4 = "u32 \<times> u32 \<times> u32 \<times> u32"

definition roles4 :: "nat \<Rightarrow> u32 list \<Rightarrow> vars4" where
  "roles4 t r = (case idx4 t of (a, b, c, d) \<Rightarrow> (r ! a, r ! b, r ! c, r ! d))"

lemma roles4_0: "roles4 0 r = (r ! 0, r ! 1, r ! 2, r ! 3)"
proof -
  have "idx4 0 = (0, 1, 2, 3)" by code_simp
  then show ?thesis by (simp add: roles4_def)
qed

lemma list4:
  assumes "length r = 4"
  obtains r0 r1 r2 r3 where "r = [r0, r1, r2, r3]"
proof -
  have "r = map ((!) r) [0..<4]" using map_nth [of r] assms by simp
  also have "[0..<4] = [0, 1, 2, 3 :: nat]" by (simp add: upt_rec)
  finally show thesis using that by simp
qed

lemma roles4_step:
  assumes r: "length r = 4" and v: "roles4 t r = (a, b, c, d)"
  shows "roles4 (Suc t) (r[(3 * t) mod 4 := x]) = (d, x, b, c)"
proof -
  define k where "k = (3 * t) mod 4"
  have k: "(3 * t + i) mod 4 = (k + i) mod 4" for i by (simp add: k_def mod_add_left_eq)
  have idx: "(3 * Suc t + i) mod 4 = (k + (3 + i)) mod 4" "(3 * Suc t) mod 4 = (k + 3) mod 4" for i
    using k [of "3 + i"] k [of 3] by (simp_all add: ac_simps)
  have "k < 4" unfolding k_def by simp
  then consider "k = 0" | "k = 1" | "k = 2" | "k = 3" by linarith
  moreover obtain r0 r1 r2 r3 where r: "r = [r0, r1, r2, r3]" using list4 [OF r] by blast
  ultimately show ?thesis using v unfolding roles4_def idx4_def split_conv idx k k_def [symmetric] r
    by cases simp_all
qed

text \<open>A list of calls that each set the first register to a function of the four.\<close>

lemma roles4_fold:
  assumes "length r = 4"
    and upd: "\<And>t r. length r = 4 \<Longrightarrow> call t r = r[(3 * t) mod 4 := g t (roles4 t r)]"
    and ref: "\<And>t a b c d. step t (a, b, c, d) = (d, g t (a, b, c, d), b, c)"
  shows "length (fold call [0..<n] r) = 4 \<and>
    roles4 n (fold call [0..<n] r) = fold step [0..<n] (roles4 0 r)"
proof (induction n)
  case 0
  then show ?case using assms(1) by simp
next
  case (Suc n)
  let ?r = "fold call [0..<n] r"
  obtain a b c d where v: "roles4 n ?r = (a, b, c, d)" by (cases "roles4 n ?r") auto
  have l: "length ?r = 4" using Suc by simp
  have f: "fold step [0..<n] (roles4 0 r) = (a, b, c, d)" using Suc v by simp
  have s: "fold call [0..<Suc n] r = ?r[(3 * n) mod 4 := g n (a, b, c, d)]" using upd [OF l] v by simp
  have e: "fold step [0..<Suc n] (roles4 0 r) = (d, g n (a, b, c, d), b, c)" using f ref by simp
  show ?case unfolding s e using l roles4_step [OF l v] by simp
qed

fun vars4_list :: "vars4 \<Rightarrow> u32 list" where
  "vars4_list (a, b, c, d) = [a, b, c, d]"

lemma length_vars4_list [simp]: "length (vars4_list v) = 4"
  by (induction v rule: vars4_list.induct) simp

lemma roles4_list:
  assumes "length r = 4" "4 dvd t"
  shows "vars4_list (roles4 t r) = r"
proof -
  obtain q where t: "t = 4 * q" using assms(2) by (elim dvdE)
  have "3 * t + i = i + (3 * q) * 4" for i using t by simp
  then have m: "(3 * t + i) mod 4 = i mod 4" for i by (metis mod_mult_self1)
  have m0: "(3 * t) mod 4 = 0" using m [of 0] by simp
  obtain r0 r1 r2 r3 where r: "r = [r0, r1, r2, r3]" using list4 [OF assms(1)] by blast
  show ?thesis unfolding roles4_def idx4_def split_conv m m0 r by simp
qed

end
