(* ===== verification/Md4.thy ===== *)
theory Md4
  imports MdRounds
begin

text \<open>
  \<^verbatim>\<open>setsync/crypto/md4.c\<close>.  The 48 macro calls of \<^verbatim>\<open>md4_process\<close> are a table of registers,
  message word and shift, proved equal to the loop of RFC 1320.
\<close>

section \<open>The compression function of the code\<close>

text \<open>The macro \<^verbatim>\<open>F\<close> and the constant in \<^verbatim>\<open>P\<close> as they are defined around call number \<open>i\<close>.\<close>

definition md4_F :: "nat \<Rightarrow> u32 \<Rightarrow> u32 \<Rightarrow> u32 \<Rightarrow> u32" where
  "md4_F i x y z =
     (if i < 16 then (x AND y) OR (NOT x AND z)
      else if i < 32 then (x AND y) OR (x AND z) OR (y AND z)
      else x XOR y XOR z)"

definition md4_const :: "nat \<Rightarrow> u32" where
  "md4_const i = (if i < 16 then 0 else if i < 32 then 0x5A827999 else 0x6ED9EBA1)"

definition md4_calls :: "(regs4 \<times> nat \<times> nat) list" where
  "md4_calls =
    [((0,1,2,3), 0, 3), ((3,0,1,2), 1, 7), ((2,3,0,1), 2, 11), ((1,2,3,0), 3, 19),
     ((0,1,2,3), 4, 3), ((3,0,1,2), 5, 7), ((2,3,0,1), 6, 11), ((1,2,3,0), 7, 19),
     ((0,1,2,3), 8, 3), ((3,0,1,2), 9, 7), ((2,3,0,1), 10, 11), ((1,2,3,0), 11, 19),
     ((0,1,2,3), 12, 3), ((3,0,1,2), 13, 7), ((2,3,0,1), 14, 11), ((1,2,3,0), 15, 19),
     ((0,1,2,3), 0, 3), ((3,0,1,2), 4, 5), ((2,3,0,1), 8, 9), ((1,2,3,0), 12, 13),
     ((0,1,2,3), 1, 3), ((3,0,1,2), 5, 5), ((2,3,0,1), 9, 9), ((1,2,3,0), 13, 13),
     ((0,1,2,3), 2, 3), ((3,0,1,2), 6, 5), ((2,3,0,1), 10, 9), ((1,2,3,0), 14, 13),
     ((0,1,2,3), 3, 3), ((3,0,1,2), 7, 5), ((2,3,0,1), 11, 9), ((1,2,3,0), 15, 13),
     ((0,1,2,3), 0, 3), ((3,0,1,2), 8, 9), ((2,3,0,1), 4, 11), ((1,2,3,0), 12, 15),
     ((0,1,2,3), 2, 3), ((3,0,1,2), 10, 9), ((2,3,0,1), 6, 11), ((1,2,3,0), 14, 15),
     ((0,1,2,3), 1, 3), ((3,0,1,2), 9, 9), ((2,3,0,1), 5, 11), ((1,2,3,0), 13, 15),
     ((0,1,2,3), 3, 3), ((3,0,1,2), 11, 9), ((2,3,0,1), 7, 11), ((1,2,3,0), 15, 15)]"

definition md4_P :: "u32 list \<Rightarrow> nat \<times> regs4 \<times> nat \<times> nat \<Rightarrow> u32 list \<Rightarrow> u32 list" where
  "md4_P X = (\<lambda>(i, (a, b, c, d), k, s) r.
     let r = r[a := r ! a + (md4_F i (r ! b) (r ! c) (r ! d) + X ! k + md4_const i)]
     in r[a := S (r ! a) s])"

definition md4_process :: "u32 list \<Rightarrow> bytes \<Rightarrow> u32 list" where
  "md4_process st data =
     (let X = md_words data
      in map2 (+) st (fold (md4_P X) (enumerate 0 md4_calls) st))"

section \<open>Context, update and digest\<close>

type_synonym md4_context = "(u32, u32 list) md_context"

definition md4_starts :: "md4_context \<Rightarrow> md4_context" where
  "md4_starts ctx = ctx\<lparr>total0 := 0, total1 := 0, state := md_IV\<rparr>"

definition md4_update :: "md4_context \<Rightarrow> bytes \<Rightarrow> md4_context" where
  "md4_update = blk_update 64 md4_process"

definition md4_finish :: "md4_context \<Rightarrow> md4_context \<times> bytes" where
  "md4_finish ctx = (let ctx = blk_finish 64 md4_process md_msglen ctx in (ctx, md_output (state ctx)))"

definition md4_uninit :: md4_context where
  "md4_uninit = \<lparr>total0 = 0, total1 = 0, state = replicate 4 0, buffer = replicate 64 0,
     ipad = replicate 64 0, opad = replicate 64 0\<rparr>"

definition md4 :: "bytes \<Rightarrow> bytes" where
  "md4 input =
     (let ctx = md4_starts md4_uninit;
          ctx = md4_update ctx input
      in snd (md4_finish ctx))"

definition md4_hmac_starts :: "md4_context \<Rightarrow> bytes \<Rightarrow> md4_context" where
  "md4_hmac_starts ctx key =
     (let key = (if 64 < length key then md4 key else key);
          ctx = ctx\<lparr>ipad := hmac_pad 64 0x36 key, opad := hmac_pad 64 0x5C key\<rparr>;
          ctx = md4_starts ctx
      in md4_update ctx (ipad ctx))"

definition md4_hmac_update :: "md4_context \<Rightarrow> bytes \<Rightarrow> md4_context" where
  "md4_hmac_update ctx input = md4_update ctx input"

definition md4_hmac_finish :: "md4_context \<Rightarrow> md4_context \<times> bytes" where
  "md4_hmac_finish ctx =
     (let (ctx, tmpbuf) = md4_finish ctx;
          ctx = md4_starts ctx;
          ctx = md4_update ctx (opad ctx);
          ctx = md4_update ctx tmpbuf
      in md4_finish ctx)"

definition md4_hmac_reset :: "md4_context \<Rightarrow> md4_context" where
  "md4_hmac_reset ctx = (let ctx = md4_starts ctx in md4_update ctx (ipad ctx))"

definition md4_hmac :: "bytes \<Rightarrow> bytes \<Rightarrow> bytes" where
  "md4_hmac key input =
     (let ctx = md4_hmac_starts md4_uninit key;
          ctx = md4_hmac_update ctx input
      in snd (md4_hmac_finish ctx))"

section \<open>The reference: RFC 1320\<close>

definition rfc1320_T :: "nat \<Rightarrow> u32" where
  "rfc1320_T i = (if i div 16 = 0 then 0 else if i div 16 = 1 then 0x5A827999 else 0x6ED9EBA1)"

definition rfc1320_k :: "nat \<Rightarrow> nat" where
  "rfc1320_k i = (if i < 16 then i else if i < 32 then 4 * (i mod 4) + (i - 16) div 4
     else [0, 8, 4, 12, 2, 10, 6, 14, 1, 9, 5, 13, 3, 11, 7, 15] ! (i - 32))"

definition rfc1320_s :: "nat \<Rightarrow> nat" where
  "rfc1320_s i = [[3, 7, 11, 19], [3, 5, 9, 13], [3, 9, 11, 15]] ! (i div 16) ! (i mod 4)"

definition rfc1320_F :: "nat \<Rightarrow> u32 \<Rightarrow> u32 \<Rightarrow> u32 \<Rightarrow> u32" where
  "rfc1320_F i x y z =
     (if i < 16 then (x AND y) OR (NOT x AND z)
      else if i < 32 then (x AND y) OR (x AND z) OR (y AND z)
      else x XOR y XOR z)"

fun rfc1320_step :: "u32 list \<Rightarrow> nat \<Rightarrow> vars4 \<Rightarrow> vars4" where
  "rfc1320_step X i (a, b, c, d) =
     (d, word_rotl (rfc1320_s i) (a + rfc1320_F i b c d + X ! rfc1320_k i + rfc1320_T i), b, c)"

definition rfc1320_md4_compress :: "u32 list \<Rightarrow> bytes \<Rightarrow> u32 list" where
  "rfc1320_md4_compress H data =
     (let X = md_words data;
          v = fold (rfc1320_step X) [0..<48] (H ! 0, H ! 1, H ! 2, H ! 3)
      in map2 (+) H (vars4_list v))"

lemma md4_F_eq: "md4_F i x y z = rfc1320_F i x y z" "i < 48 \<Longrightarrow> md4_const i = rfc1320_T i"
  by (simp_all add: md4_F_def rfc1320_F_def md4_const_def rfc1320_T_def div_eq_0_iff
      Euclidean_Rings.div_eq_0_iff) auto

lemma md4_calls_eq:
  "enumerate 0 md4_calls = map (\<lambda>i. (i, idx4 i, rfc1320_k i, rfc1320_s i)) [0..<48]"
  by code_simp

lemma rfc1320_s_bounds: "i < 48 \<Longrightarrow> 0 < rfc1320_s i \<and> rfc1320_s i < 32"
proof -
  have "\<forall>i \<in> set [0..<48]. 0 < rfc1320_s i \<and> rfc1320_s i < 32" by code_simp
  then show "i < 48 \<Longrightarrow> ?thesis" by simp
qed

lemma md4_process_rfc1320:
  assumes "length st = 4"
  shows "md4_process st data = rfc1320_md4_compress st data"
proof -
  let ?X = "md_words data"
  define call where "call i = (if i < 48
      then md4_P ?X (i, idx4 i, rfc1320_k i, rfc1320_s i)
      else (\<lambda>r. r[(3 * i) mod 4 := case roles4 i r of (a, b, c, d) \<Rightarrow>
        word_rotl (rfc1320_s i) (a + rfc1320_F i b c d + ?X ! rfc1320_k i + rfc1320_T i)]))" for i
  define g where "g i = (\<lambda>(a, b, c, d). word_rotl (rfc1320_s i)
      (a + rfc1320_F i b c d + ?X ! rfc1320_k i + rfc1320_T i))" for i
  have upd: "call i r = r[(3 * i) mod 4 := g i (roles4 i r)]" if r: "length r = 4" for i r
  proof (cases "i < 48")
    case True
    have ne: "(3 * i) mod 4 \<noteq> (3 * i + 1) mod 4" by presburger
    show ?thesis using True r ne rfc1320_s_bounds [OF True]
      by (simp add: call_def g_def md4_P_def idx4_def roles4_def Let_def md4_F_eq S_rotl ac_simps)
  next
    case False
    then show ?thesis by (simp add: call_def g_def)
  qed
  have ref: "rfc1320_step ?X t (a, b, c, d) = (d, g t (a, b, c, d), b, c)" for t a b c d
    by (simp add: g_def)
  have eq: "fold (md4_P ?X) (enumerate 0 md4_calls) st = fold call [0..<48] st"
    unfolding md4_calls_eq fold_map by (rule fold_cong) (simp_all add: call_def fun_eq_iff)
  note f = roles4_fold [where call = call and g = g and step = "rfc1320_step ?X", OF assms upd ref]
  have f48: "length (fold call [0..<48] st) = 4"
    "roles4 48 (fold call [0..<48] st) = fold (rfc1320_step ?X) [0..<48] (roles4 0 st)"
    using f [of 48] by blast+
  have "vars4_list (roles4 48 (fold call [0..<48] st)) = fold call [0..<48] st"
    by (rule roles4_list [OF f48(1)]) simp
  then have "fold call [0..<48] st = vars4_list (fold (rfc1320_step ?X) [0..<48] (roles4 0 st))"
    unfolding f48(2) by (rule sym)
  then show ?thesis
    unfolding md4_process_def rfc1320_md4_compress_def Let_def eq roles4_0 by (rule arg_cong)
qed

section \<open>The digest\<close>

interpretation md4_stream: md_stream 64 6 8 md4_process md_msglen
  by unfold_locales (simp_all add: md_msglen_def)

text \<open>The digest of rfc1320: pad the message, compress block by block.\<close>

definition rfc1320_md4 :: "bytes \<Rightarrow> bytes" where
  "rfc1320_md4 msg = md_output (fst (md_blocks 64 rfc1320_md4_compress md_IV (msg @ md_pad 64 md_msglen (length msg))))"

lemma md4_blocks_rfc1320: "md_blocks 64 md4_process md_IV x = md_blocks 64 rfc1320_md4_compress md_IV x"
  by (rule md_blocks_cong [where I = "\<lambda>st. length st = 4"])
    (simp_all add: md4_process_rfc1320 rfc1320_md4_compress_def Let_def md_IV_def)

definition md4_digests :: "md4_context \<Rightarrow> bytes \<Rightarrow> bool" where
  "md4_digests = md_absorbed 64 md4_process md_IV"

lemma length_rfc1320_md4: "length (rfc1320_md4 msg) = 16"
  by (simp add: rfc1320_md4_def md_output_def)

interpretation md4_md: md_digest "\<lambda>ctx. length (buffer ctx) = 64" md4_digests md4_starts md4_update
  md4_finish rfc1320_md4 64 "2 ^ 32" opad
proof unfold_locales
  show "md4_digests (md4_starts ctx) []" if "length (buffer ctx) = 64" for ctx
    using that by (simp add: md4_digests_def md4_starts_def md_absorbed_init)
  show "md4_digests (md4_update ctx input) (msg @ input)"
    if "md4_digests ctx msg" "length input < 2 ^ 32" for ctx msg input
    using that unfolding md4_digests_def md4_update_def by (auto intro!: md4_stream.update_absorbs)
  show "snd (md4_finish ctx) = rfc1320_md4 msg" "length (buffer (fst (md4_finish ctx))) = 64"
    if "md4_digests ctx msg" for ctx msg
    using md4_stream.finish_absorbs [OF that [unfolded md4_digests_def]]
    by (simp_all add: md4_finish_def Let_def rfc1320_md4_def md4_blocks_rfc1320 md_absorbed_def)
qed (simp_all add: md4_starts_def md4_update_def md4_finish_def Let_def length_rfc1320_md4)

lemma md4_rfc1320: "length input < 2 ^ 32 \<Longrightarrow> md4 input = rfc1320_md4 input"
  using md4_md.oneshot [of md4_uninit input] by (simp add: md4_def Let_def md4_uninit_def)

lemma length_md4: "length (md4 x) = 16"
  by (simp add: md4_def md4_finish_def md_output_def Let_def)

lemma md4_hmac_spec:
  assumes "length key < 2 ^ 32" "length input < 2 ^ 32"
  shows "md4_hmac key input = hmac_spec 64 rfc1320_md4 key input"
proof -
  let ?key = "if 64 < length key then md4 key else key"
  let ?ctx = "md4_uninit\<lparr>ipad := hmac_pad 64 0x36 ?key, opad := hmac_pad 64 0x5C ?key\<rparr>"
  have "?key = (if 64 < length key then rfc1320_md4 key else key)" using assms(1) by (simp add: md4_rfc1320)
  from md4_md.hmac [of ?ctx "[input]", OF _ _ this _ refl] assms(2) show ?thesis
    by (simp add: md4_hmac_def md4_hmac_starts_def md4_hmac_update_def md4_hmac_finish_def Let_def
        case_prod_beta md4_starts_def md4_uninit_def)
qed

end
