(* ===== verification/Md5.thy ===== *)
theory Md5
  imports MdRounds
begin

text \<open>
  \<^verbatim>\<open>setsync/crypto/md5.c\<close>.  The 64 macro calls of \<^verbatim>\<open>md5_process\<close> are a table of registers,
  message word, shift and constant, proved equal to the loop of RFC 1321.
\<close>

section \<open>The compression function of the code\<close>

text \<open>The macro \<^verbatim>\<open>F\<close> as it is defined around call number \<open>i\<close>.\<close>

definition md5_F :: "nat \<Rightarrow> u32 \<Rightarrow> u32 \<Rightarrow> u32 \<Rightarrow> u32" where
  "md5_F i x y z =
     (if i < 16 then z XOR (x AND (y XOR z))
      else if i < 32 then y XOR (z AND (x XOR y))
      else if i < 48 then x XOR y XOR z
      else y XOR (x OR NOT z))"

definition md5_calls :: "(regs4 \<times> nat \<times> nat \<times> u32) list" where
  "md5_calls =
    [((0,1,2,3), 0, 7, 0xD76AA478), ((3,0,1,2), 1, 12, 0xE8C7B756), ((2,3,0,1), 2, 17, 0x242070DB),
     ((1,2,3,0), 3, 22, 0xC1BDCEEE), ((0,1,2,3), 4, 7, 0xF57C0FAF), ((3,0,1,2), 5, 12, 0x4787C62A),
     ((2,3,0,1), 6, 17, 0xA8304613), ((1,2,3,0), 7, 22, 0xFD469501), ((0,1,2,3), 8, 7, 0x698098D8),
     ((3,0,1,2), 9, 12, 0x8B44F7AF), ((2,3,0,1), 10, 17, 0xFFFF5BB1), ((1,2,3,0), 11, 22, 0x895CD7BE),
     ((0,1,2,3), 12, 7, 0x6B901122), ((3,0,1,2), 13, 12, 0xFD987193), ((2,3,0,1), 14, 17, 0xA679438E),
     ((1,2,3,0), 15, 22, 0x49B40821), ((0,1,2,3), 1, 5, 0xF61E2562), ((3,0,1,2), 6, 9, 0xC040B340),
     ((2,3,0,1), 11, 14, 0x265E5A51), ((1,2,3,0), 0, 20, 0xE9B6C7AA), ((0,1,2,3), 5, 5, 0xD62F105D),
     ((3,0,1,2), 10, 9, 0x02441453), ((2,3,0,1), 15, 14, 0xD8A1E681), ((1,2,3,0), 4, 20, 0xE7D3FBC8),
     ((0,1,2,3), 9, 5, 0x21E1CDE6), ((3,0,1,2), 14, 9, 0xC33707D6), ((2,3,0,1), 3, 14, 0xF4D50D87),
     ((1,2,3,0), 8, 20, 0x455A14ED), ((0,1,2,3), 13, 5, 0xA9E3E905), ((3,0,1,2), 2, 9, 0xFCEFA3F8),
     ((2,3,0,1), 7, 14, 0x676F02D9), ((1,2,3,0), 12, 20, 0x8D2A4C8A), ((0,1,2,3), 5, 4, 0xFFFA3942),
     ((3,0,1,2), 8, 11, 0x8771F681), ((2,3,0,1), 11, 16, 0x6D9D6122), ((1,2,3,0), 14, 23, 0xFDE5380C),
     ((0,1,2,3), 1, 4, 0xA4BEEA44), ((3,0,1,2), 4, 11, 0x4BDECFA9), ((2,3,0,1), 7, 16, 0xF6BB4B60),
     ((1,2,3,0), 10, 23, 0xBEBFBC70), ((0,1,2,3), 13, 4, 0x289B7EC6), ((3,0,1,2), 0, 11, 0xEAA127FA),
     ((2,3,0,1), 3, 16, 0xD4EF3085), ((1,2,3,0), 6, 23, 0x04881D05), ((0,1,2,3), 9, 4, 0xD9D4D039),
     ((3,0,1,2), 12, 11, 0xE6DB99E5), ((2,3,0,1), 15, 16, 0x1FA27CF8), ((1,2,3,0), 2, 23, 0xC4AC5665),
     ((0,1,2,3), 0, 6, 0xF4292244), ((3,0,1,2), 7, 10, 0x432AFF97), ((2,3,0,1), 14, 15, 0xAB9423A7),
     ((1,2,3,0), 5, 21, 0xFC93A039), ((0,1,2,3), 12, 6, 0x655B59C3), ((3,0,1,2), 3, 10, 0x8F0CCC92),
     ((2,3,0,1), 10, 15, 0xFFEFF47D), ((1,2,3,0), 1, 21, 0x85845DD1), ((0,1,2,3), 8, 6, 0x6FA87E4F),
     ((3,0,1,2), 15, 10, 0xFE2CE6E0), ((2,3,0,1), 6, 15, 0xA3014314), ((1,2,3,0), 13, 21, 0x4E0811A1),
     ((0,1,2,3), 4, 6, 0xF7537E82), ((3,0,1,2), 11, 10, 0xBD3AF235), ((2,3,0,1), 2, 15, 0x2AD7D2BB),
     ((1,2,3,0), 9, 21, 0xEB86D391)]"

definition md5_P :: "u32 list \<Rightarrow> nat \<times> regs4 \<times> nat \<times> nat \<times> u32 \<Rightarrow> u32 list \<Rightarrow> u32 list" where
  "md5_P X = (\<lambda>(i, (a, b, c, d), k, s, t) r.
     let r = r[a := r ! a + (md5_F i (r ! b) (r ! c) (r ! d) + X ! k + t)]
     in r[a := S (r ! a) s + r ! b])"

definition md5_process :: "u32 list \<Rightarrow> bytes \<Rightarrow> u32 list" where
  "md5_process st data =
     (let X = md_words data
      in map2 (+) st (fold (md5_P X) (enumerate 0 md5_calls) st))"

section \<open>Context, update and digest\<close>

type_synonym md5_context = "(u32, u32 list) md_context"

definition md5_starts :: "md5_context \<Rightarrow> md5_context" where
  "md5_starts ctx = ctx\<lparr>total0 := 0, total1 := 0, state := md_IV\<rparr>"

definition md5_update :: "md5_context \<Rightarrow> bytes \<Rightarrow> md5_context" where
  "md5_update = blk_update 64 md5_process"

definition md5_finish :: "md5_context \<Rightarrow> md5_context \<times> bytes" where
  "md5_finish ctx = (let ctx = blk_finish 64 md5_process md_msglen ctx in (ctx, md_output (state ctx)))"

definition md5_uninit :: md5_context where
  "md5_uninit = \<lparr>total0 = 0, total1 = 0, state = replicate 4 0, buffer = replicate 64 0,
     ipad = replicate 64 0, opad = replicate 64 0\<rparr>"

definition md5 :: "bytes \<Rightarrow> bytes" where
  "md5 input =
     (let ctx = md5_starts md5_uninit;
          ctx = md5_update ctx input
      in snd (md5_finish ctx))"

definition md5_hmac_starts :: "md5_context \<Rightarrow> bytes \<Rightarrow> md5_context" where
  "md5_hmac_starts ctx key =
     (let key = (if 64 < length key then md5 key else key);
          ctx = ctx\<lparr>ipad := hmac_pad 64 0x36 key, opad := hmac_pad 64 0x5C key\<rparr>;
          ctx = md5_starts ctx
      in md5_update ctx (ipad ctx))"

definition md5_hmac_update :: "md5_context \<Rightarrow> bytes \<Rightarrow> md5_context" where
  "md5_hmac_update ctx input = md5_update ctx input"

definition md5_hmac_finish :: "md5_context \<Rightarrow> md5_context \<times> bytes" where
  "md5_hmac_finish ctx =
     (let (ctx, tmpbuf) = md5_finish ctx;
          ctx = md5_starts ctx;
          ctx = md5_update ctx (opad ctx);
          ctx = md5_update ctx tmpbuf
      in md5_finish ctx)"

definition md5_hmac_reset :: "md5_context \<Rightarrow> md5_context" where
  "md5_hmac_reset ctx = (let ctx = md5_starts ctx in md5_update ctx (ipad ctx))"

definition md5_hmac :: "bytes \<Rightarrow> bytes \<Rightarrow> bytes" where
  "md5_hmac key input =
     (let ctx = md5_hmac_starts md5_uninit key;
          ctx = md5_hmac_update ctx input
      in snd (md5_hmac_finish ctx))"

section \<open>The reference: RFC 1321\<close>

definition rfc1321_T :: "u32 list" where
  "rfc1321_T =
    [0xD76AA478, 0xE8C7B756, 0x242070DB, 0xC1BDCEEE, 0xF57C0FAF, 0x4787C62A,
     0xA8304613, 0xFD469501, 0x698098D8, 0x8B44F7AF, 0xFFFF5BB1, 0x895CD7BE,
     0x6B901122, 0xFD987193, 0xA679438E, 0x49B40821, 0xF61E2562, 0xC040B340,
     0x265E5A51, 0xE9B6C7AA, 0xD62F105D, 0x02441453, 0xD8A1E681, 0xE7D3FBC8,
     0x21E1CDE6, 0xC33707D6, 0xF4D50D87, 0x455A14ED, 0xA9E3E905, 0xFCEFA3F8,
     0x676F02D9, 0x8D2A4C8A, 0xFFFA3942, 0x8771F681, 0x6D9D6122, 0xFDE5380C,
     0xA4BEEA44, 0x4BDECFA9, 0xF6BB4B60, 0xBEBFBC70, 0x289B7EC6, 0xEAA127FA,
     0xD4EF3085, 0x04881D05, 0xD9D4D039, 0xE6DB99E5, 0x1FA27CF8, 0xC4AC5665,
     0xF4292244, 0x432AFF97, 0xAB9423A7, 0xFC93A039, 0x655B59C3, 0x8F0CCC92,
     0xFFEFF47D, 0x85845DD1, 0x6FA87E4F, 0xFE2CE6E0, 0xA3014314, 0x4E0811A1,
     0xF7537E82, 0xBD3AF235, 0x2AD7D2BB, 0xEB86D391]"

definition rfc1321_k :: "nat \<Rightarrow> nat" where
  "rfc1321_k i = (if i < 16 then i else if i < 32 then (5 * i + 1) mod 16
     else if i < 48 then (3 * i + 5) mod 16 else (7 * i) mod 16)"

definition rfc1321_s :: "nat \<Rightarrow> nat" where
  "rfc1321_s i = [[7, 12, 17, 22], [5, 9, 14, 20], [4, 11, 16, 23], [6, 10, 15, 21]] ! (i div 16) ! (i mod 4)"

definition rfc1321_F :: "nat \<Rightarrow> u32 \<Rightarrow> u32 \<Rightarrow> u32 \<Rightarrow> u32" where
  "rfc1321_F i x y z =
     (if i < 16 then (x AND y) OR (NOT x AND z)
      else if i < 32 then (x AND z) OR (y AND NOT z)
      else if i < 48 then x XOR y XOR z
      else y XOR (x OR NOT z))"

fun rfc1321_step :: "u32 list \<Rightarrow> nat \<Rightarrow> vars4 \<Rightarrow> vars4" where
  "rfc1321_step X i (a, b, c, d) =
     (d, b + word_rotl (rfc1321_s i) (a + rfc1321_F i b c d + X ! rfc1321_k i + rfc1321_T ! i), b, c)"

definition rfc1321_md5_compress :: "u32 list \<Rightarrow> bytes \<Rightarrow> u32 list" where
  "rfc1321_md5_compress H data =
     (let X = md_words data;
          v = fold (rfc1321_step X) [0..<64] (H ! 0, H ! 1, H ! 2, H ! 3)
      in map2 (+) H (vars4_list v))"

lemma md5_F_eq: "md5_F i x y z = rfc1321_F i x y z"
  by (rule bit_word_eqI) (auto simp: md5_F_def rfc1321_F_def bit_simps)

lemma md5_calls_eq:
  "enumerate 0 md5_calls = map (\<lambda>i. (i, idx4 i, rfc1321_k i, rfc1321_s i, rfc1321_T ! i)) [0..<64]"
  by code_simp

lemma rfc1321_s_bounds: "i < 64 \<Longrightarrow> 0 < rfc1321_s i \<and> rfc1321_s i < 32"
proof -
  have "\<forall>i \<in> set [0..<64]. 0 < rfc1321_s i \<and> rfc1321_s i < 32" by code_simp
  then show "i < 64 \<Longrightarrow> ?thesis" by simp
qed

lemma md5_process_rfc1321:
  assumes "length st = 4"
  shows "md5_process st data = rfc1321_md5_compress st data"
proof -
  let ?X = "md_words data"
  define call where "call i = (if i < 64
      then md5_P ?X (i, idx4 i, rfc1321_k i, rfc1321_s i, rfc1321_T ! i)
      else (\<lambda>r. r[(3 * i) mod 4 := case roles4 i r of (a, b, c, d) \<Rightarrow>
        b + word_rotl (rfc1321_s i) (a + rfc1321_F i b c d + ?X ! rfc1321_k i + rfc1321_T ! i)]))" for i
  define g where "g i = (\<lambda>(a, b, c, d). b + word_rotl (rfc1321_s i)
      (a + rfc1321_F i b c d + ?X ! rfc1321_k i + rfc1321_T ! i))" for i
  have upd: "call i r = r[(3 * i) mod 4 := g i (roles4 i r)]" if r: "length r = 4" for i r
  proof (cases "i < 64")
    case True
    have ne: "(3 * i) mod 4 \<noteq> (3 * i + 1) mod 4" by presburger
    show ?thesis using True r ne rfc1321_s_bounds [OF True]
      by (simp add: call_def g_def md5_P_def idx4_def roles4_def Let_def md5_F_eq S_rotl ac_simps)
  next
    case False
    then show ?thesis by (simp add: call_def g_def)
  qed
  have ref: "rfc1321_step ?X t (a, b, c, d) = (d, g t (a, b, c, d), b, c)" for t a b c d
    by (simp add: g_def)
  have eq: "fold (md5_P ?X) (enumerate 0 md5_calls) st = fold call [0..<64] st"
    unfolding md5_calls_eq fold_map by (rule fold_cong) (simp_all add: call_def fun_eq_iff)
  note f = roles4_fold [where call = call and g = g and step = "rfc1321_step ?X", OF assms upd ref]
  have f64: "length (fold call [0..<64] st) = 4"
    "roles4 64 (fold call [0..<64] st) = fold (rfc1321_step ?X) [0..<64] (roles4 0 st)"
    using f [of 64] by blast+
  have "vars4_list (roles4 64 (fold call [0..<64] st)) = fold call [0..<64] st"
    by (rule roles4_list [OF f64(1)]) simp
  then have "fold call [0..<64] st = vars4_list (fold (rfc1321_step ?X) [0..<64] (roles4 0 st))"
    unfolding f64(2) by (rule sym)
  then show ?thesis
    unfolding md5_process_def rfc1321_md5_compress_def Let_def eq roles4_0 by (rule arg_cong)
qed

section \<open>The digest\<close>

interpretation md5_stream: md_stream 64 6 8 md5_process md_msglen
  by unfold_locales (simp_all add: md_msglen_def)

text \<open>The digest of rfc1321: pad the message, compress block by block.\<close>

definition rfc1321_md5 :: "bytes \<Rightarrow> bytes" where
  "rfc1321_md5 msg = md_output (fst (md_blocks 64 rfc1321_md5_compress md_IV (msg @ md_pad 64 md_msglen (length msg))))"

lemma md5_blocks_rfc1321: "md_blocks 64 md5_process md_IV x = md_blocks 64 rfc1321_md5_compress md_IV x"
  by (rule md_blocks_cong [where I = "\<lambda>st. length st = 4"])
    (simp_all add: md5_process_rfc1321 rfc1321_md5_compress_def Let_def md_IV_def)

definition md5_digests :: "md5_context \<Rightarrow> bytes \<Rightarrow> bool" where
  "md5_digests = md_absorbed 64 md5_process md_IV"

lemma length_rfc1321_md5: "length (rfc1321_md5 msg) = 16"
  by (simp add: rfc1321_md5_def md_output_def)

interpretation md5_md: md_digest "\<lambda>ctx. length (buffer ctx) = 64" md5_digests md5_starts md5_update
  md5_finish rfc1321_md5 64 "2 ^ 32" opad
proof unfold_locales
  show "md5_digests (md5_starts ctx) []" if "length (buffer ctx) = 64" for ctx
    using that by (simp add: md5_digests_def md5_starts_def md_absorbed_init)
  show "md5_digests (md5_update ctx input) (msg @ input)"
    if "md5_digests ctx msg" "length input < 2 ^ 32" for ctx msg input
    using that unfolding md5_digests_def md5_update_def by (auto intro!: md5_stream.update_absorbs)
  show "snd (md5_finish ctx) = rfc1321_md5 msg" "length (buffer (fst (md5_finish ctx))) = 64"
    if "md5_digests ctx msg" for ctx msg
    using md5_stream.finish_absorbs [OF that [unfolded md5_digests_def]]
    by (simp_all add: md5_finish_def Let_def rfc1321_md5_def md5_blocks_rfc1321 md_absorbed_def)
qed (simp_all add: md5_starts_def md5_update_def md5_finish_def Let_def length_rfc1321_md5)

lemma md5_rfc1321: "length input < 2 ^ 32 \<Longrightarrow> md5 input = rfc1321_md5 input"
  using md5_md.oneshot [of md5_uninit input] by (simp add: md5_def Let_def md5_uninit_def)

lemma length_md5: "length (md5 x) = 16"
  by (simp add: md5_def md5_finish_def md_output_def Let_def)

lemma md5_hmac_spec:
  assumes "length key < 2 ^ 32" "length input < 2 ^ 32"
  shows "md5_hmac key input = hmac_spec 64 rfc1321_md5 key input"
proof -
  let ?key = "if 64 < length key then md5 key else key"
  let ?ctx = "md5_uninit\<lparr>ipad := hmac_pad 64 0x36 ?key, opad := hmac_pad 64 0x5C ?key\<rparr>"
  have "?key = (if 64 < length key then rfc1321_md5 key else key)" using assms(1) by (simp add: md5_rfc1321)
  from md5_md.hmac [of ?ctx "[input]", OF _ _ this _ refl] assms(2) show ?thesis
    by (simp add: md5_hmac_def md5_hmac_starts_def md5_hmac_update_def md5_hmac_finish_def Let_def
        case_prod_beta md5_starts_def md5_uninit_def)
qed

end
