(* ===== verification/Sha1.thy ===== *)
theory Sha1
  imports Streaming
begin

text \<open>
  \<^verbatim>\<open>setsync/crypto/sha1.c\<close>.  The 80 macro calls of \<^verbatim>\<open>sha1_process\<close> are a table of the registers
  they name (A to E are 0 to 4) and the message word they use, run on the five registers and
  the ring \<^verbatim>\<open>W[16]\<close>; the reference is the compression function of FIPS 180, with its 80 message
  words and its rotating working variables.
\<close>

section \<open>The compression function of the code\<close>

definition sha1_calls :: "(nat \<times> nat \<times> nat \<times> nat \<times> nat \<times> nat) list" where
  "sha1_calls =
    [(0,1,2,3,4,0), (4,0,1,2,3,1), (3,4,0,1,2,2), (2,3,4,0,1,3), (1,2,3,4,0,4),
     (0,1,2,3,4,5), (4,0,1,2,3,6), (3,4,0,1,2,7), (2,3,4,0,1,8), (1,2,3,4,0,9),
     (0,1,2,3,4,10), (4,0,1,2,3,11), (3,4,0,1,2,12), (2,3,4,0,1,13), (1,2,3,4,0,14),
     (0,1,2,3,4,15), (4,0,1,2,3,16), (3,4,0,1,2,17), (2,3,4,0,1,18), (1,2,3,4,0,19),
     (0,1,2,3,4,20), (4,0,1,2,3,21), (3,4,0,1,2,22), (2,3,4,0,1,23), (1,2,3,4,0,24),
     (0,1,2,3,4,25), (4,0,1,2,3,26), (3,4,0,1,2,27), (2,3,4,0,1,28), (1,2,3,4,0,29),
     (0,1,2,3,4,30), (4,0,1,2,3,31), (3,4,0,1,2,32), (2,3,4,0,1,33), (1,2,3,4,0,34),
     (0,1,2,3,4,35), (4,0,1,2,3,36), (3,4,0,1,2,37), (2,3,4,0,1,38), (1,2,3,4,0,39),
     (0,1,2,3,4,40), (4,0,1,2,3,41), (3,4,0,1,2,42), (2,3,4,0,1,43), (1,2,3,4,0,44),
     (0,1,2,3,4,45), (4,0,1,2,3,46), (3,4,0,1,2,47), (2,3,4,0,1,48), (1,2,3,4,0,49),
     (0,1,2,3,4,50), (4,0,1,2,3,51), (3,4,0,1,2,52), (2,3,4,0,1,53), (1,2,3,4,0,54),
     (0,1,2,3,4,55), (4,0,1,2,3,56), (3,4,0,1,2,57), (2,3,4,0,1,58), (1,2,3,4,0,59),
     (0,1,2,3,4,60), (4,0,1,2,3,61), (3,4,0,1,2,62), (2,3,4,0,1,63), (1,2,3,4,0,64),
     (0,1,2,3,4,65), (4,0,1,2,3,66), (3,4,0,1,2,67), (2,3,4,0,1,68), (1,2,3,4,0,69),
     (0,1,2,3,4,70), (4,0,1,2,3,71), (3,4,0,1,2,72), (2,3,4,0,1,73), (1,2,3,4,0,74),
     (0,1,2,3,4,75), (4,0,1,2,3,76), (3,4,0,1,2,77), (2,3,4,0,1,78), (1,2,3,4,0,79)]"

text \<open>The macros \<^verbatim>\<open>F\<close> and \<^verbatim>\<open>K\<close> as they are defined around the calls of round \<open>t\<close>.\<close>

definition sha1_F :: "nat \<Rightarrow> u32 \<Rightarrow> u32 \<Rightarrow> u32 \<Rightarrow> u32" where
  "sha1_F t x y z =
     (if t < 20 then z XOR (x AND (y XOR z))
      else if t < 40 then x XOR y XOR z
      else if t < 60 then (x AND y) OR (z AND (x OR y))
      else x XOR y XOR z)"

definition sha1_K :: "nat \<Rightarrow> u32" where
  "sha1_K t =
     (if t < 20 then 0x5A827999 else if t < 40 then 0x6ED9EBA1
      else if t < 60 then 0x8F1BBCDC else 0xCA62C1D6)"

definition sha1_R :: "nat \<Rightarrow> u32 list \<Rightarrow> u32 \<times> u32 list" where
  "sha1_R t W =
     (let temp = W ! ((t - 3) mod 16) XOR W ! ((t - 8) mod 16) XOR W ! ((t - 14) mod 16) XOR W ! (t mod 16);
          W = W[t mod 16 := S temp 1]
      in (W ! (t mod 16), W))"

definition sha1_P :: "nat \<times> nat \<times> nat \<times> nat \<times> nat \<times> nat \<Rightarrow> u32 list \<times> u32 list \<Rightarrow> u32 list \<times> u32 list" where
  "sha1_P = (\<lambda>(a, b, c, d, e, t) (r, W).
     let (x, W) = (if t < 16 then (W ! t, W) else sha1_R t W);
         r = r[e := r ! e + (S (r ! a) 5 + sha1_F t (r ! b) (r ! c) (r ! d) + sha1_K t + x)];
         r = r[b := S (r ! b) 30]
     in (r, W))"

definition sha1_process :: "u32 list \<Rightarrow> bytes \<Rightarrow> u32 list" where
  "sha1_process st data =
     (let W = map (\<lambda>i. GET_UINT32_BE data (4 * i)) [0..<16];
          (r, W) = fold sha1_P sha1_calls (st, W)
      in map2 (+) st r)"

section \<open>Context, update and digest\<close>

type_synonym sha1_context = "(u32, u32 list) md_context"

definition sha1_starts :: "sha1_context \<Rightarrow> sha1_context" where
  "sha1_starts ctx = ctx\<lparr>total0 := 0, total1 := 0,
     state := [0x67452301, 0xEFCDAB89, 0x98BADCFE, 0x10325476, 0xC3D2E1F0]\<rparr>"

definition sha1_update :: "sha1_context \<Rightarrow> bytes \<Rightarrow> sha1_context" where
  "sha1_update = blk_update 64 sha1_process"

definition sha1_msglen :: "u32 \<Rightarrow> u32 \<Rightarrow> bytes" where
  "sha1_msglen high low = PUT_UINT32_BE high @ PUT_UINT32_BE low"

definition sha1_output :: "u32 list \<Rightarrow> bytes" where
  "sha1_output st = PUT_UINT32_BE (st ! 0) @ PUT_UINT32_BE (st ! 1) @ PUT_UINT32_BE (st ! 2) @
     PUT_UINT32_BE (st ! 3) @ PUT_UINT32_BE (st ! 4)"

definition sha1_finish :: "sha1_context \<Rightarrow> sha1_context \<times> bytes" where
  "sha1_finish ctx =
     (let ctx = blk_finish 64 sha1_process sha1_msglen ctx in (ctx, sha1_output (state ctx)))"

text \<open>An uninitialised context: whatever the stack holds, in arrays of their declared sizes.\<close>

definition sha1_uninit :: sha1_context where
  "sha1_uninit = \<lparr>total0 = 0, total1 = 0, state = replicate 5 0, buffer = replicate 64 0,
     ipad = replicate 64 0, opad = replicate 64 0\<rparr>"

definition sha1 :: "bytes \<Rightarrow> bytes" where
  "sha1 input =
     (let ctx = sha1_starts sha1_uninit;
          ctx = sha1_update ctx input
      in snd (sha1_finish ctx))"

definition sha1_hmac_starts :: "sha1_context \<Rightarrow> bytes \<Rightarrow> sha1_context" where
  "sha1_hmac_starts ctx key =
     (let key = (if 64 < length key then sha1 key else key);
          ctx = ctx\<lparr>ipad := hmac_pad 64 0x36 key, opad := hmac_pad 64 0x5C key\<rparr>;
          ctx = sha1_starts ctx
      in sha1_update ctx (ipad ctx))"

definition sha1_hmac_update :: "sha1_context \<Rightarrow> bytes \<Rightarrow> sha1_context" where
  "sha1_hmac_update ctx input = sha1_update ctx input"

definition sha1_hmac_finish :: "sha1_context \<Rightarrow> sha1_context \<times> bytes" where
  "sha1_hmac_finish ctx =
     (let (ctx, tmpbuf) = sha1_finish ctx;
          ctx = sha1_starts ctx;
          ctx = sha1_update ctx (opad ctx);
          ctx = sha1_update ctx tmpbuf
      in sha1_finish ctx)"

definition sha1_hmac_reset :: "sha1_context \<Rightarrow> sha1_context" where
  "sha1_hmac_reset ctx = (let ctx = sha1_starts ctx in sha1_update ctx (ipad ctx))"

definition sha1_hmac :: "bytes \<Rightarrow> bytes \<Rightarrow> bytes" where
  "sha1_hmac key input =
     (let ctx = sha1_hmac_starts sha1_uninit key;
          ctx = sha1_hmac_update ctx input
      in snd (sha1_hmac_finish ctx))"

section \<open>The reference: FIPS 180\<close>

definition fips_f :: "nat \<Rightarrow> u32 \<Rightarrow> u32 \<Rightarrow> u32 \<Rightarrow> u32" where
  "fips_f t x y z =
     (if t < 20 then (x AND y) XOR (NOT x AND z)
      else if t < 40 then x XOR y XOR z
      else if t < 60 then (x AND y) XOR (x AND z) XOR (y AND z)
      else x XOR y XOR z)"

fun fips_W :: "u32 list \<Rightarrow> nat \<Rightarrow> u32" where
  "fips_W M t =
     (if t < 16 then M ! t
      else word_rotl 1 (fips_W M (t - 3) XOR fips_W M (t - 8) XOR fips_W M (t - 14) XOR fips_W M (t - 16)))"

declare fips_W.simps [simp del]

fun fips_step :: "u32 list \<Rightarrow> nat \<Rightarrow> u32 \<times> u32 \<times> u32 \<times> u32 \<times> u32 \<Rightarrow> u32 \<times> u32 \<times> u32 \<times> u32 \<times> u32" where
  "fips_step M t (a, b, c, d, e) =
     (word_rotl 5 a + fips_f t b c d + e + sha1_K t + fips_W M t, a, word_rotl 30 b, c, d)"

definition fips_sha1_compress :: "u32 list \<Rightarrow> bytes \<Rightarrow> u32 list" where
  "fips_sha1_compress H data =
     (let M = map (\<lambda>i. GET_UINT32_BE data (4 * i)) [0..<16];
          (a, b, c, d, e) = fold (fips_step M) [0..<80] (H ! 0, H ! 1, H ! 2, H ! 3, H ! 4)
      in [H ! 0 + a, H ! 1 + b, H ! 2 + c, H ! 3 + d, H ! 4 + e])"

lemma fips_f_eq: "sha1_F t x y z = fips_f t x y z"
  by (rule bit_word_eqI) (auto simp: sha1_F_def fips_f_def bit_simps)

lemma sha1_calls_eq:
  "sha1_calls = map (\<lambda>t. ((4 * t) mod 5, (4 * t + 1) mod 5, (4 * t + 2) mod 5, (4 * t + 3) mod 5,
     (4 * t + 4) mod 5, t)) [0..<80]"
  by code_simp

text \<open>The registers rotate: register \<open>(4 * t + i) mod 5\<close> plays the role \<open>i\<close> in round \<open>t\<close>.\<close>

definition sha1_roles :: "nat \<Rightarrow> u32 list \<Rightarrow> u32 \<times> u32 \<times> u32 \<times> u32 \<times> u32" where
  "sha1_roles t r = (r ! ((4 * t) mod 5), r ! ((4 * t + 1) mod 5), r ! ((4 * t + 2) mod 5),
     r ! ((4 * t + 3) mod 5), r ! ((4 * t + 4) mod 5))"

text \<open>The ring \<^verbatim>\<open>W[16]\<close> holds the last 16 message words.\<close>

definition ring16 :: "(nat \<Rightarrow> 'a) \<Rightarrow> nat \<Rightarrow> 'a list \<Rightarrow> bool" where
  "ring16 w t W \<longleftrightarrow> length W = 16 \<and> (\<forall>i. max 16 t \<le> i + 16 \<and> i < max 16 t \<longrightarrow> W ! (i mod 16) = w i)"

lemma ring16_step:
  assumes "ring16 w t W" "16 \<le> t"
  shows "ring16 w (Suc t) (W[t mod 16 := w t])"
  unfolding ring16_def
proof (intro conjI allI impI)
  show "length (W[t mod 16 := w t]) = 16" using assms by (simp add: ring16_def)
  fix i assume i: "max 16 (Suc t) \<le> i + 16 \<and> i < max 16 (Suc t)"
  show "W[t mod 16 := w t] ! (i mod 16) = w i"
  proof (cases "i = t")
    case True
    then show ?thesis using assms by (simp add: ring16_def)
  next
    case False
    then have b: "t < i + 16" "i < t" using i assms(2) by auto
    have "i mod 16 \<noteq> t mod 16"
    proof
      assume "i mod 16 = t mod 16"
      then have "16 dvd t - i" using b(2) by (metis less_imp_le mod_eq_dvd_iff_nat)
      then show False using b by (auto dest: dvd_imp_le)
    qed
    moreover have "W ! (i mod 16) = w i" using assms b by (auto simp: ring16_def max_def)
    ultimately show ?thesis by simp
  qed
qed

lemma ring16_get:
  assumes "ring16 w t W" "16 \<le> t"
  shows "0 < d \<Longrightarrow> d \<le> 16 \<Longrightarrow> W ! ((t - d) mod 16) = w (t - d)" "W ! (t mod 16) = w (t - 16)"
proof -
  have g: "W ! (i mod 16) = w i" if "t \<le> i + 16" "i < t" for i
    using assms that by (auto simp: ring16_def max_def)
  show "W ! ((t - d) mod 16) = w (t - d)" if "0 < d" "d \<le> 16" using assms that by (intro g) simp_all
  have "t mod 16 = (t - 16) mod 16" using assms(2) by (simp add: le_mod_geq)
  then show "W ! (t mod 16) = w (t - 16)" using g [of "t - 16"] assms(2) by simp
qed

lemma sha1_R_ring:
  assumes "ring16 (fips_W M) t W" "16 \<le> t"
  shows "sha1_R t W = (fips_W M t, W[t mod 16 := fips_W M t])"
proof -
  have "W ! ((t - 3) mod 16) XOR W ! ((t - 8) mod 16) XOR W ! ((t - 14) mod 16) XOR W ! (t mod 16) =
      fips_W M (t - 3) XOR fips_W M (t - 8) XOR fips_W M (t - 14) XOR fips_W M (t - 16)"
    using ring16_get [OF assms] by simp
  moreover have "fips_W M t = word_rotl 1 (fips_W M (t - 3) XOR fips_W M (t - 8) XOR fips_W M (t - 14) XOR fips_W M (t - 16))"
    using assms(2) by (subst fips_W.simps) simp
  ultimately show ?thesis using assms(1) by (simp add: sha1_R_def Let_def S_rotl ring16_def)
qed

lemma sha1_roles_step:
  assumes r: "length r = 5" and v: "sha1_roles t r = (a, b, c, d, e)"
  shows "sha1_roles (Suc t) (r[(4 * t + 4) mod 5 := x, (4 * t + 1) mod 5 := y]) = (x, a, y, c, d)"
proof -
  define k where "k = (4 * t) mod 5"
  have k: "(4 * t + i) mod 5 = (k + i) mod 5" for i by (simp add: k_def mod_add_left_eq)
  have idx: "(4 * Suc t + i) mod 5 = (k + (4 + i)) mod 5" "(4 * Suc t) mod 5 = (k + 4) mod 5" for i
    using k [of "4 + i"] k [of 4] by (simp_all add: ac_simps)
  have "k < 5" unfolding k_def by simp
  then consider "k = 0" | "k = 1" | "k = 2" | "k = 3" | "k = 4" by linarith
  then show ?thesis using r v unfolding sha1_roles_def idx k k_def [symmetric]
    by cases (auto simp: numeral_2_eq_2)
qed

lemma sha1_P_step:
  assumes r: "length r = 5" and v: "sha1_roles t r = v" and W: "ring16 (fips_W M) t W"
  defines "s \<equiv> sha1_P ((4 * t) mod 5, (4 * t + 1) mod 5, (4 * t + 2) mod 5, (4 * t + 3) mod 5,
    (4 * t + 4) mod 5, t) (r, W)"
  shows "length (fst s) = 5" "sha1_roles (Suc t) (fst s) = fips_step M t v" "ring16 (fips_W M) (Suc t) (snd s)"
proof -
  obtain a b c d e where abc: "v = (a, b, c, d, e)" by (cases v) auto
  have regs: "r ! ((4 * t) mod 5) = a" "r ! ((4 * t + 1) mod 5) = b" "r ! ((4 * t + 2) mod 5) = c"
    "r ! ((4 * t + 3) mod 5) = d" "r ! ((4 * t + 4) mod 5) = e"
    using v abc by (simp_all add: sha1_roles_def)
  define W' where "W' = (if t < 16 then W else W[t mod 16 := fips_W M t])"
  have x: "(if t < 16 then (W ! t, W) else sha1_R t W) = (fips_W M t, W')"
    using W by (auto simp: sha1_R_ring W'_def ring16_def)
  have ne: "(4 * t + 4) mod 5 \<noteq> (4 * t + 1) mod 5" by presburger
  have s: "s = (r[(4 * t + 4) mod 5 := e + (S a 5 + sha1_F t b c d + sha1_K t + fips_W M t),
      (4 * t + 1) mod 5 := S b 30], W')"
    unfolding s_def sha1_P_def x split_conv Let_def regs using ne regs by simp
  show "length (fst s) = 5" using r by (simp add: s)
  show "sha1_roles (Suc t) (fst s) = fips_step M t v"
    unfolding s fst_conv sha1_roles_step [OF r v [unfolded abc]] abc
    by (simp add: S_rotl fips_f_eq ac_simps)
  show "ring16 (fips_W M) (Suc t) (snd s)"
  proof (cases "t < 16")
    case True
    then have "max 16 (Suc t) = max 16 t" by simp
    then show ?thesis using W True unfolding s W'_def ring16_def by simp
  next
    case False
    then show ?thesis using ring16_step [OF W] by (simp add: s W'_def)
  qed
qed

lemma sha1_fold:
  assumes "length r = 5" "length M = 16"
  defines "call \<equiv> \<lambda>t. ((4 * t) mod 5, (4 * t + 1) mod 5, (4 * t + 2) mod 5, (4 * t + 3) mod 5, (4 * t + 4) mod 5, t)"
  shows "length (fst (fold sha1_P (map call [0..<n]) (r, M))) = 5 \<and>
    sha1_roles n (fst (fold sha1_P (map call [0..<n]) (r, M))) = fold (fips_step M) [0..<n] (sha1_roles 0 r) \<and>
    ring16 (fips_W M) n (snd (fold sha1_P (map call [0..<n]) (r, M)))"
proof (induction n)
  case 0
  show ?case using assms(1,2) by (simp add: ring16_def fips_W.simps)
next
  case (Suc n)
  let ?s = "fold sha1_P (map call [0..<n]) (r, M)"
  note st = sha1_P_step [of "fst ?s" n _ M "snd ?s", folded call_def]
  have "fold sha1_P (map call [0..<Suc n]) (r, M) = sha1_P (call n) (fst ?s, snd ?s)" by simp
  then show ?case using st Suc unfolding call_def by simp
qed

lemma sha1_process_fips:
  assumes "length st = 5"
  shows "sha1_process st data = fips_sha1_compress st data"
proof -
  let ?M = "map (\<lambda>i. GET_UINT32_BE data (4 * i)) [0..<16]"
  let ?s = "fold sha1_P sha1_calls (st, ?M)"
  have f: "length (fst ?s) = 5" "sha1_roles 80 (fst ?s) = fold (fips_step ?M) [0..<80] (sha1_roles 0 st)"
    using sha1_fold [OF assms, of ?M 80] unfolding sha1_calls_eq by auto
  obtain A B C D E where r: "fst ?s = [A, B, C, D, E]"
    using f(1) by (auto simp: length_Suc_conv eval_nat_numeral)
  obtain a b c d e where h: "st = [a, b, c, d, e]"
    using assms by (auto simp: length_Suc_conv eval_nat_numeral)
  have "fold (fips_step ?M) [0..<80] (a, b, c, d, e) = (A, B, C, D, E)"
    using f(2) [unfolded r] h by (simp add: sha1_roles_def)
  then show ?thesis unfolding sha1_process_def fips_sha1_compress_def Let_def
    using r h by (simp add: case_prod_beta)
qed

section \<open>Streams\<close>

interpretation sha1_stream: md_stream 64 6 8 sha1_process sha1_msglen
  by unfold_locales (simp_all add: sha1_msglen_def)

definition sha1_IV :: "u32 list" where
  "sha1_IV = [0x67452301, 0xEFCDAB89, 0x98BADCFE, 0x10325476, 0xC3D2E1F0]"

text \<open>SHA-1 of FIPS 180: pad the message, compress block by block.\<close>

definition fips_sha1 :: "bytes \<Rightarrow> bytes" where
  "fips_sha1 msg = sha1_output (fst (md_blocks 64 fips_sha1_compress sha1_IV
     (msg @ md_pad 64 sha1_msglen (length msg))))"

lemma length_fips_sha1_compress: "length (fips_sha1_compress st d) = 5"
  by (simp add: fips_sha1_compress_def Let_def case_prod_beta)

lemma sha1_blocks_fips: "md_blocks 64 sha1_process sha1_IV x = md_blocks 64 fips_sha1_compress sha1_IV x"
  by (rule md_blocks_cong [where I = "\<lambda>st. length st = 5"])
    (simp_all add: sha1_process_fips length_fips_sha1_compress sha1_IV_def)

definition sha1_digests :: "sha1_context \<Rightarrow> bytes \<Rightarrow> bool" where
  "sha1_digests = md_absorbed 64 sha1_process sha1_IV"

lemma length_fips_sha1: "length (fips_sha1 msg) = 20"
  by (simp add: fips_sha1_def sha1_output_def)

interpretation sha1_md: md_digest "\<lambda>ctx. length (buffer ctx) = 64" sha1_digests sha1_starts sha1_update
  sha1_finish fips_sha1 64 "2 ^ 32" opad
proof unfold_locales
  show "sha1_digests (sha1_starts ctx) []" if "length (buffer ctx) = 64" for ctx
    using that by (simp add: sha1_digests_def sha1_starts_def sha1_IV_def md_absorbed_init)
  show "sha1_digests (sha1_update ctx input) (msg @ input)"
    if "sha1_digests ctx msg" "length input < 2 ^ 32" for ctx msg input
    using that sha1_stream.update_absorbs by (simp add: sha1_digests_def sha1_update_def)
  show "snd (sha1_finish ctx) = fips_sha1 msg" "length (buffer (fst (sha1_finish ctx))) = 64"
    if "sha1_digests ctx msg" for ctx msg
    using sha1_stream.finish_absorbs [OF that [unfolded sha1_digests_def]]
    by (simp_all add: sha1_finish_def Let_def fips_sha1_def sha1_blocks_fips md_absorbed_def)
qed (simp_all add: sha1_starts_def sha1_update_def sha1_finish_def Let_def length_fips_sha1)

lemma sha1_fips: "length input < 2 ^ 32 \<Longrightarrow> sha1 input = fips_sha1 input"
  using sha1_md.oneshot [of sha1_uninit input] by (simp add: sha1_def Let_def sha1_uninit_def)

lemma length_sha1: "length (sha1 x) = 20"
  by (simp add: sha1_def sha1_finish_def sha1_output_def Let_def)

lemma sha1_hmac_spec:
  assumes "length key < 2 ^ 32" "length input < 2 ^ 32"
  shows "sha1_hmac key input = hmac_spec 64 fips_sha1 key input"
proof -
  let ?key = "if 64 < length key then sha1 key else key"
  let ?ctx = "sha1_uninit\<lparr>ipad := hmac_pad 64 0x36 ?key, opad := hmac_pad 64 0x5C ?key\<rparr>"
  have "?key = (if 64 < length key then fips_sha1 key else key)" using assms(1) by (simp add: sha1_fips)
  from sha1_md.hmac [of ?ctx "[input]", OF _ _ this _ refl] assms(2) show ?thesis
    by (simp add: sha1_hmac_def sha1_hmac_starts_def sha1_hmac_update_def sha1_hmac_finish_def Let_def
        case_prod_beta sha1_starts_def sha1_uninit_def)
qed

end
