(* ===== verification/ShaRounds.thy ===== *)
theory ShaRounds
  imports Streaming
begin

text \<open>
  What \<^verbatim>\<open>sha2.c\<close> and \<^verbatim>\<open>sha4.c\<close> share, for words of 32 and of 64 bits: the macros \<^verbatim>\<open>F0\<close>,
  \<^verbatim>\<open>F1\<close> and \<^verbatim>\<open>P\<close>, and the FIPS 180 functions they are compared with.  A call \<^verbatim>\<open>P(a,...,h,x,K)\<close>
  names eight registers; here they are indices into the list of the registers A to H.
\<close>

definition F0 :: "'w::len word \<Rightarrow> 'w word \<Rightarrow> 'w word \<Rightarrow> 'w word" where
  "F0 x y z = (x AND y) OR (z AND (x OR y))"

definition F1 :: "'w::len word \<Rightarrow> 'w word \<Rightarrow> 'w word \<Rightarrow> 'w word" where
  "F1 x y z = z XOR (x AND (y XOR z))"

type_synonym regs8 = "nat \<times> nat \<times> nat \<times> nat \<times> nat \<times> nat \<times> nat \<times> nat"

definition sha_P :: "('w::len word \<Rightarrow> 'w word) \<Rightarrow> ('w word \<Rightarrow> 'w word) \<Rightarrow> regs8 \<Rightarrow> 'w word \<Rightarrow> 'w word \<Rightarrow>
    'w word list \<Rightarrow> 'w word list" where
  "sha_P S2 S3 = (\<lambda>(a, b, c, d, e, f, g, h) x k r.
     let temp1 = r ! h + S3 (r ! e) + F1 (r ! e) (r ! f) (r ! g) + k + x;
         temp2 = S2 (r ! a) + F0 (r ! a) (r ! b) (r ! c);
         r = r[d := r ! d + temp1];
         r = r[h := temp1 + temp2]
     in r)"

section \<open>The reference\<close>

definition Ch :: "'w::len word \<Rightarrow> 'w word \<Rightarrow> 'w word \<Rightarrow> 'w word" where
  "Ch x y z = (x AND y) XOR (NOT x AND z)"

definition Maj :: "'w::len word \<Rightarrow> 'w word \<Rightarrow> 'w word \<Rightarrow> 'w word" where
  "Maj x y z = (x AND y) XOR (x AND z) XOR (y AND z)"

fun sha_W :: "('w::len word \<Rightarrow> 'w word) \<Rightarrow> ('w word \<Rightarrow> 'w word) \<Rightarrow> 'w word list \<Rightarrow> nat \<Rightarrow> 'w word" where
  "sha_W s0 s1 M t =
     (if t < 16 then M ! t
      else s1 (sha_W s0 s1 M (t - 2)) + sha_W s0 s1 M (t - 7) + s0 (sha_W s0 s1 M (t - 15)) +
        sha_W s0 s1 M (t - 16))"

declare sha_W.simps [simp del]

type_synonym 'w vars8 = "'w word \<times> 'w word \<times> 'w word \<times> 'w word \<times> 'w word \<times> 'w word \<times> 'w word \<times> 'w word"

fun sha_step :: "('w::len word \<Rightarrow> 'w word) \<Rightarrow> ('w word \<Rightarrow> 'w word) \<Rightarrow> 'w word \<Rightarrow> 'w word \<Rightarrow> 'w vars8 \<Rightarrow> 'w vars8" where
  "sha_step S0 S1 k w (a, b, c, d, e, f, g, h) =
     (let T1 = h + S1 e + Ch e f g + k + w;
          T2 = S0 a + Maj a b c
      in (T1 + T2, a, b, c, d + T1, e, f, g))"

fun vars_list :: "'w vars8 \<Rightarrow> 'w word list" where
  "vars_list (a, b, c, d, e, f, g, h) = [a, b, c, d, e, f, g, h]"

lemma length_vars_list [simp]: "length (vars_list v) = 8"
  by (induction v rule: vars_list.induct) simp

section \<open>Macros and reference\<close>

lemma F0_Maj: "F0 x y z = Maj x y z"
  by (rule bit_word_eqI) (auto simp: F0_def Maj_def bit_simps)

lemma F1_Ch: "F1 x y z = Ch x y z"
  by (rule bit_word_eqI) (auto simp: F1_def Ch_def bit_simps)

lemma rotr_shifts:
  fixes x :: "'w::len word"
  assumes n: "0 < n" "n < LENGTH('w)"
  shows "drop_bit n x OR push_bit (LENGTH('w) - n) x = word_rotr n x"
proof (rule bit_word_eqI)
  fix m assume m: "m < LENGTH('w)"
  show "bit (drop_bit n x OR push_bit (LENGTH('w) - n) x) m = bit (word_rotr n x) m"
  proof (cases "m + n < LENGTH('w)")
    case True
    then have "\<not> LENGTH('w) - n \<le> m" by simp
    with True m show ?thesis by (simp add: bit_simps bit_word_rotr_iff add.commute)
  next
    case False
    then have "(m + n) mod LENGTH('w) = m - (LENGTH('w) - n)" using m n by (simp add: mod_if)
    moreover have "\<not> bit x (n + m)" using False bit_imp_le_length [of x "n + m"] by auto
    moreover have "LENGTH('w) - n \<le> m" using False by simp
    ultimately show ?thesis using m n by (simp add: bit_simps bit_word_rotr_iff)
  qed
qed

text \<open>Register \<open>(7 * t + i) mod 8\<close> plays the role \<open>i\<close> in round \<open>t\<close>.\<close>

definition idx8 :: "nat \<Rightarrow> regs8" where
  "idx8 t = ((7 * t) mod 8, (7 * t + 1) mod 8, (7 * t + 2) mod 8, (7 * t + 3) mod 8,
     (7 * t + 4) mod 8, (7 * t + 5) mod 8, (7 * t + 6) mod 8, (7 * t + 7) mod 8)"

definition roles8 :: "nat \<Rightarrow> 'w::len word list \<Rightarrow> 'w vars8" where
  "roles8 t r = (case idx8 t of (a, b, c, d, e, f, g, h) \<Rightarrow>
     (r ! a, r ! b, r ! c, r ! d, r ! e, r ! f, r ! g, r ! h))"

lemma roles8_0: "roles8 0 r = (r ! 0, r ! 1, r ! 2, r ! 3, r ! 4, r ! 5, r ! 6, r ! 7)"
proof -
  have "idx8 0 = (0, 1, 2, 3, 4, 5, 6, 7)" by code_simp
  then show ?thesis by (simp add: roles8_def)
qed

lemma list8:
  assumes "length r = 8"
  obtains r0 r1 r2 r3 r4 r5 r6 r7 where "r = [r0, r1, r2, r3, r4, r5, r6, r7]"
proof -
  have "r = map ((!) r) [0..<8]" using map_nth [of r] assms by simp
  also have "[0..<8] = [0, 1, 2, 3, 4, 5, 6, 7 :: nat]" by (simp add: upt_rec)
  finally show thesis using that by simp
qed

lemma roles8_step:
  assumes r: "length r = 8" and v: "roles8 t r = (a, b, c, d, e, f, g, h)"
  shows "roles8 (Suc t) (r[(7 * t + 3) mod 8 := x, (7 * t + 7) mod 8 := y]) = (y, a, b, c, x, e, f, g)"
proof -
  define k where "k = (7 * t) mod 8"
  have k: "(7 * t + i) mod 8 = (k + i) mod 8" for i by (simp add: k_def mod_add_left_eq)
  have idx: "(7 * Suc t + i) mod 8 = (k + (7 + i)) mod 8" "(7 * Suc t) mod 8 = (k + 7) mod 8" for i
    using k [of "7 + i"] k [of 7] by (simp_all add: ac_simps)
  have "k < 8" unfolding k_def by simp
  then consider "k = 0" | "k = 1" | "k = 2" | "k = 3" | "k = 4" | "k = 5" | "k = 6" | "k = 7" by linarith
  moreover obtain r0 r1 r2 r3 r4 r5 r6 r7 where r: "r = [r0, r1, r2, r3, r4, r5, r6, r7]"
    using list8 [OF r] by blast
  ultimately show ?thesis using v unfolding roles8_def idx8_def split_conv idx k k_def [symmetric] r
    by cases simp_all
qed

lemma sha_P_step:
  assumes r: "length r = 8"
  shows "length (sha_P S2 S3 (idx8 t) x k r) = 8"
    "roles8 (Suc t) (sha_P S2 S3 (idx8 t) x k r) = sha_step S2 S3 k x (roles8 t r)"
proof -
  obtain a b c d e f g h where v: "roles8 t r = (a, b, c, d, e, f, g, h)"
    by (cases "roles8 t r") auto
  then have regs: "r ! ((7 * t) mod 8) = a" "r ! ((7 * t + 1) mod 8) = b" "r ! ((7 * t + 2) mod 8) = c"
    "r ! ((7 * t + 3) mod 8) = d" "r ! ((7 * t + 4) mod 8) = e" "r ! ((7 * t + 5) mod 8) = f"
    "r ! ((7 * t + 6) mod 8) = g" "r ! ((7 * t + 7) mod 8) = h"
    by (simp_all add: roles8_def idx8_def)
  let ?T1 = "h + S3 e + Ch e f g + k + x" and ?T2 = "S2 a + Maj a b c"
  have P: "sha_P S2 S3 (idx8 t) x k r =
      r[(7 * t + 3) mod 8 := d + ?T1, (7 * t + 7) mod 8 := ?T1 + ?T2]"
    unfolding sha_P_def idx8_def split_conv Let_def regs F0_Maj F1_Ch ..
  show "length (sha_P S2 S3 (idx8 t) x k r) = 8" using r by (simp add: P)
  show "roles8 (Suc t) (sha_P S2 S3 (idx8 t) x k r) = sha_step S2 S3 k x (roles8 t r)"
    unfolding P roles8_step [OF r v] v by (simp add: Let_def)
qed

lemma roles8_list:
  assumes "length r = 8" "8 dvd t"
  shows "vars_list (roles8 t r) = r"
proof -
  obtain q where t: "t = 8 * q" using assms(2) by (elim dvdE)
  have "7 * t + i = i + (7 * q) * 8" for i using t by simp
  then have m: "(7 * t + i) mod 8 = i mod 8" for i by (metis mod_mult_self1)
  have m0: "(7 * t) mod 8 = 0" using m [of 0] by simp
  obtain r0 r1 r2 r3 r4 r5 r6 r7 where r: "r = [r0, r1, r2, r3, r4, r5, r6, r7]"
    using list8 [OF assms(1)] by blast
  show ?thesis unfolding roles8_def idx8_def split_conv m m0 r by simp
qed

end
