(* ===== verification/Sha2.thy ===== *)
theory Sha2
  imports ShaRounds
begin

text \<open>
  \<^verbatim>\<open>setsync/crypto/sha2.c\<close>: SHA-256 and SHA-224.  The 64 macro calls of \<^verbatim>\<open>sha2_process\<close> are a
  table of registers, message word and constant.  The compression function is proved equal to
  that of FIPS 180, and the whole digest, fed in any pieces, to its specification.
\<close>

section \<open>The compression function of the code\<close>

definition sha2_SHR :: "u32 \<Rightarrow> nat \<Rightarrow> u32" where
  "sha2_SHR x n = drop_bit n (x AND 0xFFFFFFFF)"

definition sha2_ROTR :: "u32 \<Rightarrow> nat \<Rightarrow> u32" where
  "sha2_ROTR x n = sha2_SHR x n OR push_bit (32 - n) x"

definition sha2_S0 :: "u32 \<Rightarrow> u32" where
  "sha2_S0 x = sha2_ROTR x 7 XOR sha2_ROTR x 18 XOR sha2_SHR x 3"

definition sha2_S1 :: "u32 \<Rightarrow> u32" where
  "sha2_S1 x = sha2_ROTR x 17 XOR sha2_ROTR x 19 XOR sha2_SHR x 10"

definition sha2_S2 :: "u32 \<Rightarrow> u32" where
  "sha2_S2 x = sha2_ROTR x 2 XOR sha2_ROTR x 13 XOR sha2_ROTR x 22"

definition sha2_S3 :: "u32 \<Rightarrow> u32" where
  "sha2_S3 x = sha2_ROTR x 6 XOR sha2_ROTR x 11 XOR sha2_ROTR x 25"

definition sha2_R :: "nat \<Rightarrow> u32 list \<Rightarrow> u32 list" where
  "sha2_R t W = W[t := sha2_S1 (W ! (t - 2)) + W ! (t - 7) + sha2_S0 (W ! (t - 15)) + W ! (t - 16)]"

definition sha2_calls :: "(regs8 \<times> nat \<times> u32) list" where
  "sha2_calls =
    [((0,1,2,3,4,5,6,7), 0, 0x428A2F98), ((7,0,1,2,3,4,5,6), 1, 0x71374491),
     ((6,7,0,1,2,3,4,5), 2, 0xB5C0FBCF), ((5,6,7,0,1,2,3,4), 3, 0xE9B5DBA5),
     ((4,5,6,7,0,1,2,3), 4, 0x3956C25B), ((3,4,5,6,7,0,1,2), 5, 0x59F111F1),
     ((2,3,4,5,6,7,0,1), 6, 0x923F82A4), ((1,2,3,4,5,6,7,0), 7, 0xAB1C5ED5),
     ((0,1,2,3,4,5,6,7), 8, 0xD807AA98), ((7,0,1,2,3,4,5,6), 9, 0x12835B01),
     ((6,7,0,1,2,3,4,5), 10, 0x243185BE), ((5,6,7,0,1,2,3,4), 11, 0x550C7DC3),
     ((4,5,6,7,0,1,2,3), 12, 0x72BE5D74), ((3,4,5,6,7,0,1,2), 13, 0x80DEB1FE),
     ((2,3,4,5,6,7,0,1), 14, 0x9BDC06A7), ((1,2,3,4,5,6,7,0), 15, 0xC19BF174),
     ((0,1,2,3,4,5,6,7), 16, 0xE49B69C1), ((7,0,1,2,3,4,5,6), 17, 0xEFBE4786),
     ((6,7,0,1,2,3,4,5), 18, 0x0FC19DC6), ((5,6,7,0,1,2,3,4), 19, 0x240CA1CC),
     ((4,5,6,7,0,1,2,3), 20, 0x2DE92C6F), ((3,4,5,6,7,0,1,2), 21, 0x4A7484AA),
     ((2,3,4,5,6,7,0,1), 22, 0x5CB0A9DC), ((1,2,3,4,5,6,7,0), 23, 0x76F988DA),
     ((0,1,2,3,4,5,6,7), 24, 0x983E5152), ((7,0,1,2,3,4,5,6), 25, 0xA831C66D),
     ((6,7,0,1,2,3,4,5), 26, 0xB00327C8), ((5,6,7,0,1,2,3,4), 27, 0xBF597FC7),
     ((4,5,6,7,0,1,2,3), 28, 0xC6E00BF3), ((3,4,5,6,7,0,1,2), 29, 0xD5A79147),
     ((2,3,4,5,6,7,0,1), 30, 0x06CA6351), ((1,2,3,4,5,6,7,0), 31, 0x14292967),
     ((0,1,2,3,4,5,6,7), 32, 0x27B70A85), ((7,0,1,2,3,4,5,6), 33, 0x2E1B2138),
     ((6,7,0,1,2,3,4,5), 34, 0x4D2C6DFC), ((5,6,7,0,1,2,3,4), 35, 0x53380D13),
     ((4,5,6,7,0,1,2,3), 36, 0x650A7354), ((3,4,5,6,7,0,1,2), 37, 0x766A0ABB),
     ((2,3,4,5,6,7,0,1), 38, 0x81C2C92E), ((1,2,3,4,5,6,7,0), 39, 0x92722C85),
     ((0,1,2,3,4,5,6,7), 40, 0xA2BFE8A1), ((7,0,1,2,3,4,5,6), 41, 0xA81A664B),
     ((6,7,0,1,2,3,4,5), 42, 0xC24B8B70), ((5,6,7,0,1,2,3,4), 43, 0xC76C51A3),
     ((4,5,6,7,0,1,2,3), 44, 0xD192E819), ((3,4,5,6,7,0,1,2), 45, 0xD6990624),
     ((2,3,4,5,6,7,0,1), 46, 0xF40E3585), ((1,2,3,4,5,6,7,0), 47, 0x106AA070),
     ((0,1,2,3,4,5,6,7), 48, 0x19A4C116), ((7,0,1,2,3,4,5,6), 49, 0x1E376C08),
     ((6,7,0,1,2,3,4,5), 50, 0x2748774C), ((5,6,7,0,1,2,3,4), 51, 0x34B0BCB5),
     ((4,5,6,7,0,1,2,3), 52, 0x391C0CB3), ((3,4,5,6,7,0,1,2), 53, 0x4ED8AA4A),
     ((2,3,4,5,6,7,0,1), 54, 0x5B9CCA4F), ((1,2,3,4,5,6,7,0), 55, 0x682E6FF3),
     ((0,1,2,3,4,5,6,7), 56, 0x748F82EE), ((7,0,1,2,3,4,5,6), 57, 0x78A5636F),
     ((6,7,0,1,2,3,4,5), 58, 0x84C87814), ((5,6,7,0,1,2,3,4), 59, 0x8CC70208),
     ((4,5,6,7,0,1,2,3), 60, 0x90BEFFFA), ((3,4,5,6,7,0,1,2), 61, 0xA4506CEB),
     ((2,3,4,5,6,7,0,1), 62, 0xBEF9A3F7), ((1,2,3,4,5,6,7,0), 63, 0xC67178F2)]"

definition sha2_call :: "regs8 \<times> nat \<times> u32 \<Rightarrow> u32 list \<times> u32 list \<Rightarrow> u32 list \<times> u32 list" where
  "sha2_call = (\<lambda>(regs, t, k) (r, W).
     let W = (if t < 16 then W else sha2_R t W)
     in (sha_P sha2_S2 sha2_S3 regs (W ! t) k r, W))"

definition sha2_process :: "u32 list \<Rightarrow> bytes \<Rightarrow> u32 list" where
  "sha2_process st data =
     (let W = map (\<lambda>i. GET_UINT32_BE data (4 * i)) [0..<16] @ replicate 48 0;
          (r, W) = fold sha2_call sha2_calls (st, W)
      in map2 (+) st r)"

section \<open>Context, update and digest\<close>

record sha2_context = "(u32, u32 list) md_context" +
  is224 :: bool

definition sha2_IV :: "bool \<Rightarrow> u32 list" where
  "sha2_IV f =
     (if \<not> f
      then [0x6A09E667, 0xBB67AE85, 0x3C6EF372, 0xA54FF53A, 0x510E527F, 0x9B05688C, 0x1F83D9AB, 0x5BE0CD19]
      else [0xC1059ED8, 0x367CD507, 0x3070DD17, 0xF70E5939, 0xFFC00B31, 0x68581511, 0x64F98FA7, 0xBEFA4FA4])"

definition sha2_starts :: "sha2_context \<Rightarrow> bool \<Rightarrow> sha2_context" where
  "sha2_starts ctx f = ctx\<lparr>total0 := 0, total1 := 0, state := sha2_IV f, is224 := f\<rparr>"

definition sha2_update :: "sha2_context \<Rightarrow> bytes \<Rightarrow> sha2_context" where
  "sha2_update = blk_update 64 sha2_process"

definition sha2_msglen :: "u32 \<Rightarrow> u32 \<Rightarrow> bytes" where
  "sha2_msglen high low = PUT_UINT32_BE high @ PUT_UINT32_BE low"

definition sha2_output :: "bool \<Rightarrow> u32 list \<Rightarrow> bytes" where
  "sha2_output f st = PUT_UINT32_BE (st ! 0) @ PUT_UINT32_BE (st ! 1) @ PUT_UINT32_BE (st ! 2) @
     PUT_UINT32_BE (st ! 3) @ PUT_UINT32_BE (st ! 4) @ PUT_UINT32_BE (st ! 5) @ PUT_UINT32_BE (st ! 6) @
     (if \<not> f then PUT_UINT32_BE (st ! 7) else [])"

definition sha2_finish :: "sha2_context \<Rightarrow> sha2_context \<times> bytes" where
  "sha2_finish ctx =
     (let ctx = blk_finish 64 sha2_process sha2_msglen ctx in (ctx, sha2_output (is224 ctx) (state ctx)))"

definition sha2_uninit :: sha2_context where
  "sha2_uninit = \<lparr>total0 = 0, total1 = 0, state = replicate 8 0, buffer = replicate 64 0,
     ipad = replicate 64 0, opad = replicate 64 0, is224 = False\<rparr>"

definition sha2 :: "bytes \<Rightarrow> bool \<Rightarrow> bytes" where
  "sha2 input f =
     (let ctx = sha2_starts sha2_uninit f;
          ctx = sha2_update ctx input
      in snd (sha2_finish ctx))"

definition sha2_hmac_starts :: "sha2_context \<Rightarrow> bytes \<Rightarrow> bool \<Rightarrow> sha2_context" where
  "sha2_hmac_starts ctx key f =
     (let key = (if 64 < length key then take (if f then 28 else 32) (sha2 key f) else key);
          ctx = ctx\<lparr>ipad := hmac_pad 64 0x36 key, opad := hmac_pad 64 0x5C key\<rparr>;
          ctx = sha2_starts ctx f
      in sha2_update ctx (ipad ctx))"

definition sha2_hmac_update :: "sha2_context \<Rightarrow> bytes \<Rightarrow> sha2_context" where
  "sha2_hmac_update ctx input = sha2_update ctx input"

definition sha2_hmac_finish :: "sha2_context \<Rightarrow> sha2_context \<times> bytes" where
  "sha2_hmac_finish ctx =
     (let f = is224 ctx;
          hlen = (if \<not> f then 32 else 28);
          (ctx, tmpbuf) = sha2_finish ctx;
          ctx = sha2_starts ctx f;
          ctx = sha2_update ctx (opad ctx);
          ctx = sha2_update ctx (take hlen tmpbuf)
      in sha2_finish ctx)"

definition sha2_hmac_reset :: "sha2_context \<Rightarrow> sha2_context" where
  "sha2_hmac_reset ctx = (let ctx = sha2_starts ctx (is224 ctx) in sha2_update ctx (ipad ctx))"

definition sha2_hmac :: "bytes \<Rightarrow> bytes \<Rightarrow> bool \<Rightarrow> bytes" where
  "sha2_hmac key input f =
     (let ctx = sha2_hmac_starts sha2_uninit key f;
          ctx = sha2_hmac_update ctx input
      in snd (sha2_hmac_finish ctx))"

section \<open>The reference: FIPS 180\<close>

definition sha256_K :: "u32 list" where
  "sha256_K =
    [0x428A2F98, 0x71374491, 0xB5C0FBCF, 0xE9B5DBA5, 0x3956C25B, 0x59F111F1,
     0x923F82A4, 0xAB1C5ED5, 0xD807AA98, 0x12835B01, 0x243185BE, 0x550C7DC3,
     0x72BE5D74, 0x80DEB1FE, 0x9BDC06A7, 0xC19BF174, 0xE49B69C1, 0xEFBE4786,
     0x0FC19DC6, 0x240CA1CC, 0x2DE92C6F, 0x4A7484AA, 0x5CB0A9DC, 0x76F988DA,
     0x983E5152, 0xA831C66D, 0xB00327C8, 0xBF597FC7, 0xC6E00BF3, 0xD5A79147,
     0x06CA6351, 0x14292967, 0x27B70A85, 0x2E1B2138, 0x4D2C6DFC, 0x53380D13,
     0x650A7354, 0x766A0ABB, 0x81C2C92E, 0x92722C85, 0xA2BFE8A1, 0xA81A664B,
     0xC24B8B70, 0xC76C51A3, 0xD192E819, 0xD6990624, 0xF40E3585, 0x106AA070,
     0x19A4C116, 0x1E376C08, 0x2748774C, 0x34B0BCB5, 0x391C0CB3, 0x4ED8AA4A,
     0x5B9CCA4F, 0x682E6FF3, 0x748F82EE, 0x78A5636F, 0x84C87814, 0x8CC70208,
     0x90BEFFFA, 0xA4506CEB, 0xBEF9A3F7, 0xC67178F2]"

definition sha256_s0 :: "u32 \<Rightarrow> u32" where
  "sha256_s0 x = word_rotr 7 x XOR word_rotr 18 x XOR drop_bit 3 x"

definition sha256_s1 :: "u32 \<Rightarrow> u32" where
  "sha256_s1 x = word_rotr 17 x XOR word_rotr 19 x XOR drop_bit 10 x"

definition sha256_S0 :: "u32 \<Rightarrow> u32" where
  "sha256_S0 x = word_rotr 2 x XOR word_rotr 13 x XOR word_rotr 22 x"

definition sha256_S1 :: "u32 \<Rightarrow> u32" where
  "sha256_S1 x = word_rotr 6 x XOR word_rotr 11 x XOR word_rotr 25 x"

definition fips_sha256_compress :: "u32 list \<Rightarrow> bytes \<Rightarrow> u32 list" where
  "fips_sha256_compress H data =
     (let M = map (\<lambda>i. GET_UINT32_BE data (4 * i)) [0..<16];
          v = (H ! 0, H ! 1, H ! 2, H ! 3, H ! 4, H ! 5, H ! 6, H ! 7);
          v = fold (\<lambda>t. sha_step sha256_S0 sha256_S1 (sha256_K ! t) (sha_W sha256_s0 sha256_s1 M t)) [0..<64] v
      in map2 (+) H (vars_list v))"

lemma sha2_SHR_eq: "sha2_SHR x n = drop_bit n x"
proof -
  have ones: "(0xFFFFFFFF :: u32) = - 1" by simp
  show ?thesis unfolding sha2_SHR_def ones by simp
qed

lemma sha2_ROTR_eq: "0 < n \<Longrightarrow> n < 32 \<Longrightarrow> sha2_ROTR x n = word_rotr n x"
  using rotr_shifts [of n x] by (simp add: sha2_ROTR_def sha2_SHR_eq)

lemma sha2_S_eq: "sha2_S0 = sha256_s0" "sha2_S1 = sha256_s1" "sha2_S2 = sha256_S0" "sha2_S3 = sha256_S1"
  by (simp_all add: fun_eq_iff sha2_S0_def sha2_S1_def sha2_S2_def sha2_S3_def sha256_s0_def sha256_s1_def
      sha256_S0_def sha256_S1_def sha2_ROTR_eq sha2_SHR_eq)

lemma sha2_calls_eq: "sha2_calls = map (\<lambda>t. (idx8 t, t, sha256_K ! t)) [0..<64]"
  by code_simp

text \<open>The words computed so far.\<close>

definition words_done :: "(nat \<Rightarrow> 'w) \<Rightarrow> nat \<Rightarrow> 'w list \<Rightarrow> bool" where
  "words_done w t W \<longleftrightarrow> (\<forall>i < max 16 t. W ! i = w i)"

abbreviation w256 :: "u32 list \<Rightarrow> nat \<Rightarrow> u32" where
  "w256 \<equiv> sha_W sha256_s0 sha256_s1"

lemma sha2_R_done:
  assumes "words_done (w256 M) t W" "16 \<le> t" "t < length W"
  shows "words_done (w256 M) (Suc t) (sha2_R t W)" "sha2_R t W ! t = w256 M t"
proof -
  have "sha2_R t W = W[t := w256 M t]" using assms
    by (subst sha_W.simps) (simp add: sha2_R_def words_done_def sha2_S_eq)
  then show "words_done (w256 M) (Suc t) (sha2_R t W)" "sha2_R t W ! t = w256 M t"
    using assms by (auto simp: words_done_def nth_list_update)
qed

lemma sha2_fold:
  assumes r: "length r = 8" and M: "length M = 16" and n: "n \<le> 64"
  defines "s \<equiv> \<lambda>n. fold sha2_call (map (\<lambda>t. (idx8 t, t, sha256_K ! t)) [0..<n]) (r, M @ replicate 48 0)"
  shows "length (fst (s n)) = 8 \<and> length (snd (s n)) = 64 \<and> words_done (w256 M) n (snd (s n)) \<and>
    roles8 n (fst (s n)) =
      fold (\<lambda>t. sha_step sha256_S0 sha256_S1 (sha256_K ! t) (w256 M t)) [0..<n] (roles8 0 r)"
  using n
proof (induction n)
  case 0
  show ?case using r M by (simp add: s_def words_done_def sha_W.simps nth_append)
next
  case (Suc n)
  obtain r' W where rW: "s n = (r', W)" by fastforce
  note IH = Suc.IH [unfolded rW fst_conv snd_conv]
  let ?W = "if n < 16 then W else sha2_R n W"
  have step: "s (Suc n) = (sha_P sha256_S0 sha256_S1 (idx8 n) (?W ! n) (sha256_K ! n) r', ?W)"
    using rW by (simp add: s_def sha2_call_def Let_def sha2_S_eq)
  have W: "length ?W = 64" "words_done (w256 M) (Suc n) ?W" "?W ! n = w256 M n"
    using IH Suc.prems sha2_R_done [of M n W]
    by (auto simp: sha2_R_def words_done_def max_def split: if_splits)
  show ?case using IH Suc.prems W sha_P_step [of r'] unfolding step by simp
qed

lemma sha2_process_fips:
  assumes "length st = 8"
  shows "sha2_process st data = fips_sha256_compress st data"
proof -
  let ?M = "map (\<lambda>i. GET_UINT32_BE data (4 * i)) [0..<16]"
  let ?s = "fold sha2_call sha2_calls (st, ?M @ replicate 48 0)"
  have f: "length (fst ?s) = 8" "roles8 64 (fst ?s) =
      fold (\<lambda>t. sha_step sha256_S0 sha256_S1 (sha256_K ! t) (w256 ?M t)) [0..<64] (roles8 0 st)"
    using sha2_fold [OF assms, of ?M 64] unfolding sha2_calls_eq by auto
  have "vars_list (roles8 64 (fst ?s)) = fst ?s" by (rule roles8_list [OF f(1)]) simp
  moreover have "roles8 0 st = (st ! 0, st ! 1, st ! 2, st ! 3, st ! 4, st ! 5, st ! 6, st ! 7)"
    by (rule roles8_0)
  ultimately show ?thesis using f(2)
    by (simp add: sha2_process_def fips_sha256_compress_def Let_def case_prod_beta)
qed

section \<open>The digest\<close>

interpretation sha2_stream: md_stream 64 6 8 sha2_process sha2_msglen
  by unfold_locales (simp_all add: sha2_msglen_def)

text \<open>SHA-256 (SHA-224 when \<open>f\<close>): pad the message, compress block by block.\<close>

definition fips_sha256 :: "bool \<Rightarrow> bytes \<Rightarrow> bytes" where
  "fips_sha256 f msg = sha2_output f (fst (md_blocks 64 fips_sha256_compress (sha2_IV f)
     (msg @ md_pad 64 sha2_msglen (length msg))))"

lemma sha2_blocks_fips:
  "md_blocks 64 sha2_process (sha2_IV f) x = md_blocks 64 fips_sha256_compress (sha2_IV f) x"
  by (rule md_blocks_cong [where I = "\<lambda>st. length st = 8"])
    (simp_all add: sha2_process_fips sha2_IV_def fips_sha256_compress_def Let_def)

definition sha2_digests :: "bool \<Rightarrow> sha2_context \<Rightarrow> bytes \<Rightarrow> bool" where
  "sha2_digests f ctx msg \<longleftrightarrow> md_absorbed 64 sha2_process (sha2_IV f) ctx msg \<and> is224 ctx = f"

lemma length_fips_sha256: "length (fips_sha256 f msg) = (if f then 28 else 32)"
  by (simp add: fips_sha256_def sha2_output_def)

lemma is224_update [simp]: "is224 (blk_update B p ctx x) = is224 ctx"
  by (simp add: blk_update_def Let_def case_prod_beta)

lemma is224_finish [simp]: "is224 (blk_finish B p e ctx) = is224 ctx"
  by (simp add: blk_finish_def Let_def)

interpretation sha2_md: md_digest "\<lambda>ctx. length (buffer ctx) = 64" "sha2_digests f"
  "\<lambda>ctx. sha2_starts ctx f" sha2_update sha2_finish "fips_sha256 f" 64 "2 ^ 32" opad for f
proof unfold_locales
  show "sha2_digests f (sha2_starts ctx f) []" if "length (buffer ctx) = 64" for ctx
    using that by (simp add: sha2_digests_def sha2_starts_def md_absorbed_init)
  show "sha2_digests f (sha2_update ctx input) (msg @ input)"
    if "sha2_digests f ctx msg" "length input < 2 ^ 32" for ctx msg input
    using that unfolding sha2_digests_def sha2_update_def
    by (auto intro!: sha2_stream.update_absorbs)
  show "snd (sha2_finish ctx) = fips_sha256 f msg" "length (buffer (fst (sha2_finish ctx))) = 64"
    if d: "sha2_digests f ctx msg" for ctx msg
  proof -
    have a: "md_absorbed 64 sha2_process (sha2_IV f) ctx msg" "is224 ctx = f"
      using d by (simp_all add: sha2_digests_def)
    show "snd (sha2_finish ctx) = fips_sha256 f msg" "length (buffer (fst (sha2_finish ctx))) = 64"
      using sha2_stream.finish_absorbs [OF a(1)] a(2)
      by (simp_all add: sha2_finish_def Let_def fips_sha256_def sha2_blocks_fips md_absorbed_def)
  qed
qed (simp_all add: sha2_starts_def sha2_update_def sha2_finish_def Let_def length_fips_sha256)

lemma sha2_fips: "length input < 2 ^ 32 \<Longrightarrow> sha2 input f = fips_sha256 f input"
  using sha2_md.oneshot [of sha2_uninit input f] by (simp add: sha2_def Let_def sha2_uninit_def)

lemma sha2_hmac_spec:
  assumes "length key < 2 ^ 32" "length input < 2 ^ 32"
  shows "sha2_hmac key input f = hmac_spec 64 (fips_sha256 f) key input"
proof -
  let ?hlen = "if f then 28 else 32"
  let ?key = "if 64 < length key then take ?hlen (sha2 key f) else key"
  let ?ctx = "sha2_uninit\<lparr>ipad := hmac_pad 64 0x36 ?key, opad := hmac_pad 64 0x5C ?key\<rparr>"
  have key: "?key = (if 64 < length key then fips_sha256 f key else key)"
    using assms(1) by (simp add: sha2_fips length_fips_sha256)
  let ?c1 = "sha2_update (sha2_update (sha2_starts ?ctx f) (hmac_pad 64 0x36 ?key)) input"
  have "length (snd (sha2_finish ?c1)) = ?hlen" "is224 ?c1 = f"
    by (simp_all add: sha2_finish_def sha2_output_def Let_def sha2_update_def sha2_starts_def)
  then have t: "take (if \<not> f then 32 else 28) (snd (sha2_finish ?c1)) = snd (sha2_finish ?c1)" by simp
  have "sha2_hmac key input f = snd (sha2_hmac_finish ?c1)"
    by (simp add: sha2_hmac_def sha2_hmac_starts_def sha2_hmac_update_def Let_def sha2_starts_def)
  also have "\<dots> = (let c = sha2_starts (fst (sha2_finish ?c1)) f
      in snd (sha2_finish (sha2_update (sha2_update c (opad c)) (snd (sha2_finish ?c1)))))"
    unfolding sha2_hmac_finish_def Let_def case_prod_beta \<open>is224 ?c1 = f\<close> t ..
  also have "\<dots> = hmac_spec 64 (fips_sha256 f) key input"
    unfolding Let_def using sha2_md.hmac [where ctx = ?ctx and chunks = "[input]" and key' = ?key and inner = ?c1, OF _ _ key] assms(2)
    by (simp add: sha2_uninit_def)
  finally show ?thesis .
qed

end
