(* ===== verification/Sha4.thy ===== *)
theory Sha4
  imports ShaRounds
begin

text \<open>
  \<^verbatim>\<open>setsync/crypto/sha4.c\<close>: SHA-512 and SHA-384.  As in \<^verbatim>\<open>sha2.c\<close>, with words of 64 bits,
  blocks of 128 bytes, and a loop of ten groups of eight macro calls instead of a straight line.
\<close>

section \<open>The compression function of the code\<close>

definition sha4_K :: "u64 list" where
  "sha4_K =
    [0x428A2F98D728AE22, 0x7137449123EF65CD, 0xB5C0FBCFEC4D3B2F, 0xE9B5DBA58189DBBC,
     0x3956C25BF348B538, 0x59F111F1B605D019, 0x923F82A4AF194F9B, 0xAB1C5ED5DA6D8118,
     0xD807AA98A3030242, 0x12835B0145706FBE, 0x243185BE4EE4B28C, 0x550C7DC3D5FFB4E2,
     0x72BE5D74F27B896F, 0x80DEB1FE3B1696B1, 0x9BDC06A725C71235, 0xC19BF174CF692694,
     0xE49B69C19EF14AD2, 0xEFBE4786384F25E3, 0x0FC19DC68B8CD5B5, 0x240CA1CC77AC9C65,
     0x2DE92C6F592B0275, 0x4A7484AA6EA6E483, 0x5CB0A9DCBD41FBD4, 0x76F988DA831153B5,
     0x983E5152EE66DFAB, 0xA831C66D2DB43210, 0xB00327C898FB213F, 0xBF597FC7BEEF0EE4,
     0xC6E00BF33DA88FC2, 0xD5A79147930AA725, 0x06CA6351E003826F, 0x142929670A0E6E70,
     0x27B70A8546D22FFC, 0x2E1B21385C26C926, 0x4D2C6DFC5AC42AED, 0x53380D139D95B3DF,
     0x650A73548BAF63DE, 0x766A0ABB3C77B2A8, 0x81C2C92E47EDAEE6, 0x92722C851482353B,
     0xA2BFE8A14CF10364, 0xA81A664BBC423001, 0xC24B8B70D0F89791, 0xC76C51A30654BE30,
     0xD192E819D6EF5218, 0xD69906245565A910, 0xF40E35855771202A, 0x106AA07032BBD1B8,
     0x19A4C116B8D2D0C8, 0x1E376C085141AB53, 0x2748774CDF8EEB99, 0x34B0BCB5E19B48A8,
     0x391C0CB3C5C95A63, 0x4ED8AA4AE3418ACB, 0x5B9CCA4F7763E373, 0x682E6FF3D6B2B8A3,
     0x748F82EE5DEFB2FC, 0x78A5636F43172F60, 0x84C87814A1F0AB72, 0x8CC702081A6439EC,
     0x90BEFFFA23631E28, 0xA4506CEBDE82BDE9, 0xBEF9A3F7B2C67915, 0xC67178F2E372532B,
     0xCA273ECEEA26619C, 0xD186B8C721C0C207, 0xEADA7DD6CDE0EB1E, 0xF57D4F7FEE6ED178,
     0x06F067AA72176FBA, 0x0A637DC5A2C898A6, 0x113F9804BEF90DAE, 0x1B710B35131C471B,
     0x28DB77F523047D84, 0x32CAAB7B40C72493, 0x3C9EBE0A15C9BEBC, 0x431D67C49C100D4C,
     0x4CC5D4BECB3E42B6, 0x597F299CFC657E2A, 0x5FCB6FAB3AD6FAEC, 0x6C44198C4A475817]"

definition sha4_SHR :: "u64 \<Rightarrow> nat \<Rightarrow> u64" where
  "sha4_SHR x n = drop_bit n x"

definition sha4_ROTR :: "u64 \<Rightarrow> nat \<Rightarrow> u64" where
  "sha4_ROTR x n = sha4_SHR x n OR push_bit (64 - n) x"

definition sha4_S0 :: "u64 \<Rightarrow> u64" where
  "sha4_S0 x = sha4_ROTR x 1 XOR sha4_ROTR x 8 XOR sha4_SHR x 7"

definition sha4_S1 :: "u64 \<Rightarrow> u64" where
  "sha4_S1 x = sha4_ROTR x 19 XOR sha4_ROTR x 61 XOR sha4_SHR x 6"

definition sha4_S2 :: "u64 \<Rightarrow> u64" where
  "sha4_S2 x = sha4_ROTR x 28 XOR sha4_ROTR x 34 XOR sha4_ROTR x 39"

definition sha4_S3 :: "u64 \<Rightarrow> u64" where
  "sha4_S3 x = sha4_ROTR x 14 XOR sha4_ROTR x 18 XOR sha4_ROTR x 41"

text \<open>The eight calls of the loop body, by their registers.\<close>

definition sha4_regs :: "regs8 list" where
  "sha4_regs =
    [(0,1,2,3,4,5,6,7), (7,0,1,2,3,4,5,6), (6,7,0,1,2,3,4,5), (5,6,7,0,1,2,3,4),
     (4,5,6,7,0,1,2,3), (3,4,5,6,7,0,1,2), (2,3,4,5,6,7,0,1), (1,2,3,4,5,6,7,0)]"

definition sha4_body :: "u64 list \<Rightarrow> nat \<times> u64 list \<Rightarrow> nat \<times> u64 list" where
  "sha4_body W =
     fold (\<lambda>regs (i, r). (i + 1, sha_P sha4_S2 sha4_S3 regs (W ! i) (sha4_K ! i) r)) sha4_regs"

lemma sha4_body_counter: "fst (sha4_body W (i, r)) = i + 8"
  by (simp add: sha4_body_def sha4_regs_def case_prod_beta)

function sha4_rounds :: "u64 list \<Rightarrow> nat \<Rightarrow> u64 list \<Rightarrow> u64 list" where
  "sha4_rounds W i r =
     (let (i', r') = sha4_body W (i, r)
      in if i' < 80 then sha4_rounds W i' r' else r')"
  by pat_completeness auto
termination
proof (relation "measure (\<lambda>(W, i, r). 80 - i)", goal_cases)
  case 1
  show ?case by simp
next
  case (2 W i r x i' r')
  have "i' = i + 8" using 2(1,2) sha4_body_counter by (metis fst_conv)
  then show ?case using 2(3) by simp
qed

declare sha4_rounds.simps [simp del]

definition sha4_W_step :: "nat \<Rightarrow> u64 list \<Rightarrow> u64 list" where
  "sha4_W_step i W = W[i := sha4_S1 (W ! (i - 2)) + W ! (i - 7) + sha4_S0 (W ! (i - 15)) + W ! (i - 16)]"

definition sha4_process :: "u64 list \<Rightarrow> bytes \<Rightarrow> u64 list" where
  "sha4_process st data =
     (let W = map (\<lambda>i. GET_UINT64_BE data (8 * i)) [0..<16] @ replicate 64 0;
          W = fold sha4_W_step [16..<80] W
      in map2 (+) st (sha4_rounds W 0 st))"

section \<open>Context, update and digest\<close>

record sha4_context = "(u64, u64 list) md_context" +
  is384 :: bool

definition sha4_IV :: "bool \<Rightarrow> u64 list" where
  "sha4_IV f =
     (if \<not> f
      then [0x6A09E667F3BCC908, 0xBB67AE8584CAA73B, 0x3C6EF372FE94F82B, 0xA54FF53A5F1D36F1,
            0x510E527FADE682D1, 0x9B05688C2B3E6C1F, 0x1F83D9ABFB41BD6B, 0x5BE0CD19137E2179]
      else [0xCBBB9D5DC1059ED8, 0x629A292A367CD507, 0x9159015A3070DD17, 0x152FECD8F70E5939,
            0x67332667FFC00B31, 0x8EB44A8768581511, 0xDB0C2E0D64F98FA7, 0x47B5481DBEFA4FA4])"

definition sha4_starts :: "sha4_context \<Rightarrow> bool \<Rightarrow> sha4_context" where
  "sha4_starts ctx f = ctx\<lparr>total0 := 0, total1 := 0, state := sha4_IV f, is384 := f\<rparr>"

definition sha4_update :: "sha4_context \<Rightarrow> bytes \<Rightarrow> sha4_context" where
  "sha4_update = blk_update 128 sha4_process"

definition sha4_msglen :: "u64 \<Rightarrow> u64 \<Rightarrow> bytes" where
  "sha4_msglen high low = PUT_UINT64_BE high @ PUT_UINT64_BE low"

definition sha4_output :: "bool \<Rightarrow> u64 list \<Rightarrow> bytes" where
  "sha4_output f st = PUT_UINT64_BE (st ! 0) @ PUT_UINT64_BE (st ! 1) @ PUT_UINT64_BE (st ! 2) @
     PUT_UINT64_BE (st ! 3) @ PUT_UINT64_BE (st ! 4) @ PUT_UINT64_BE (st ! 5) @
     (if \<not> f then PUT_UINT64_BE (st ! 6) @ PUT_UINT64_BE (st ! 7) else [])"

definition sha4_finish :: "sha4_context \<Rightarrow> sha4_context \<times> bytes" where
  "sha4_finish ctx =
     (let ctx = blk_finish 128 sha4_process sha4_msglen ctx in (ctx, sha4_output (is384 ctx) (state ctx)))"

definition sha4_uninit :: sha4_context where
  "sha4_uninit = \<lparr>total0 = 0, total1 = 0, state = replicate 8 0, buffer = replicate 128 0,
     ipad = replicate 128 0, opad = replicate 128 0, is384 = False\<rparr>"

definition sha4 :: "bytes \<Rightarrow> bool \<Rightarrow> bytes" where
  "sha4 input f =
     (let ctx = sha4_starts sha4_uninit f;
          ctx = sha4_update ctx input
      in snd (sha4_finish ctx))"

definition sha4_hmac_starts :: "sha4_context \<Rightarrow> bytes \<Rightarrow> bool \<Rightarrow> sha4_context" where
  "sha4_hmac_starts ctx key f =
     (let key = (if 128 < length key then take (if f then 48 else 64) (sha4 key f) else key);
          ctx = ctx\<lparr>ipad := hmac_pad 128 0x36 key, opad := hmac_pad 128 0x5C key\<rparr>;
          ctx = sha4_starts ctx f
      in sha4_update ctx (ipad ctx))"

definition sha4_hmac_update :: "sha4_context \<Rightarrow> bytes \<Rightarrow> sha4_context" where
  "sha4_hmac_update ctx input = sha4_update ctx input"

definition sha4_hmac_finish :: "sha4_context \<Rightarrow> sha4_context \<times> bytes" where
  "sha4_hmac_finish ctx =
     (let f = is384 ctx;
          hlen = (if \<not> f then 64 else 48);
          (ctx, tmpbuf) = sha4_finish ctx;
          ctx = sha4_starts ctx f;
          ctx = sha4_update ctx (opad ctx);
          ctx = sha4_update ctx (take hlen tmpbuf)
      in sha4_finish ctx)"

definition sha4_hmac_reset :: "sha4_context \<Rightarrow> sha4_context" where
  "sha4_hmac_reset ctx = (let ctx = sha4_starts ctx (is384 ctx) in sha4_update ctx (ipad ctx))"

definition sha4_hmac :: "bytes \<Rightarrow> bytes \<Rightarrow> bool \<Rightarrow> bytes" where
  "sha4_hmac key input f =
     (let ctx = sha4_hmac_starts sha4_uninit key f;
          ctx = sha4_hmac_update ctx input
      in snd (sha4_hmac_finish ctx))"

section \<open>The reference: FIPS 180\<close>

definition sha512_s0 :: "u64 \<Rightarrow> u64" where
  "sha512_s0 x = word_rotr 1 x XOR word_rotr 8 x XOR drop_bit 7 x"

definition sha512_s1 :: "u64 \<Rightarrow> u64" where
  "sha512_s1 x = word_rotr 19 x XOR word_rotr 61 x XOR drop_bit 6 x"

definition sha512_S0 :: "u64 \<Rightarrow> u64" where
  "sha512_S0 x = word_rotr 28 x XOR word_rotr 34 x XOR word_rotr 39 x"

definition sha512_S1 :: "u64 \<Rightarrow> u64" where
  "sha512_S1 x = word_rotr 14 x XOR word_rotr 18 x XOR word_rotr 41 x"

abbreviation w512 :: "u64 list \<Rightarrow> nat \<Rightarrow> u64" where
  "w512 \<equiv> sha_W sha512_s0 sha512_s1"

definition fips_sha512_compress :: "u64 list \<Rightarrow> bytes \<Rightarrow> u64 list" where
  "fips_sha512_compress H data =
     (let M = map (\<lambda>i. GET_UINT64_BE data (8 * i)) [0..<16];
          v = (H ! 0, H ! 1, H ! 2, H ! 3, H ! 4, H ! 5, H ! 6, H ! 7);
          v = fold (\<lambda>t. sha_step sha512_S0 sha512_S1 (sha4_K ! t) (w512 M t)) [0..<80] v
      in map2 (+) H (vars_list v))"

lemma sha4_ROTR_eq: "0 < n \<Longrightarrow> n < 64 \<Longrightarrow> sha4_ROTR x n = word_rotr n x"
  using rotr_shifts [of n x] by (simp add: sha4_ROTR_def sha4_SHR_def)

lemma sha4_S_eq: "sha4_S0 = sha512_s0" "sha4_S1 = sha512_s1" "sha4_S2 = sha512_S0" "sha4_S3 = sha512_S1"
  by (simp_all add: fun_eq_iff sha4_S0_def sha4_S1_def sha4_S2_def sha4_S3_def sha512_s0_def sha512_s1_def
      sha512_S0_def sha512_S1_def sha4_ROTR_eq sha4_SHR_def)

text \<open>The message schedule.\<close>

lemma sha4_schedule:
  assumes "length M = 16" "n \<le> 64"
  defines "s \<equiv> \<lambda>n. fold sha4_W_step [16..<16 + n] (M @ replicate 64 0)"
  shows "length (s n) = 80 \<and> (\<forall>i < 16 + n. s n ! i = w512 M i)"
  using assms(2)
proof (induction n)
  case 0
  show ?case using assms(1) by (simp add: s_def sha_W.simps nth_append)
next
  case (Suc n)
  then have IH: "length (s n) = 80" "\<And>i. i < 16 + n \<Longrightarrow> s n ! i = w512 M i" by simp_all
  let ?t = "16 + n"
  have "s (Suc n) = (s n)[?t := sha4_S1 (s n ! (?t - 2)) + s n ! (?t - 7) + sha4_S0 (s n ! (?t - 15)) + s n ! (?t - 16)]"
    by (simp only: s_def add_Suc_right upt_Suc_append le_add1 fold_append fold.simps o_apply id_apply
        sha4_W_step_def)
  also have "\<dots> = (s n)[?t := w512 M ?t]"
    by (subst sha_W.simps) (simp add: IH sha4_S_eq)
  finally show ?case using IH Suc.prems by (auto simp: nth_list_update less_Suc_eq)
qed

text \<open>The loop is 80 rounds in a row.\<close>

definition sha4_round :: "u64 list \<Rightarrow> nat \<Rightarrow> u64 list \<Rightarrow> u64 list" where
  "sha4_round W t r = sha_P sha4_S2 sha4_S3 (idx8 t) (W ! t) (sha4_K ! t) r"

lemma idx8_period: "idx8 (8 * q + j) = idx8 j"
proof -
  have m: "(7 * (8 * q + j) + i) mod 8 = (7 * j + i) mod 8" for i
  proof -
    have "7 * (8 * q + j) + i = (7 * j + i) + 7 * q * 8" by simp
    then show ?thesis by (metis mod_mult_self1)
  qed
  have m0: "(7 * (8 * q + j)) mod 8 = (7 * j) mod 8" using m [of 0] by simp
  show ?thesis unfolding idx8_def m m0 ..
qed

lemma sha4_regs_eq: "sha4_regs = map idx8 [0..<8]"
  by code_simp

lemma sha4_body_rounds: "sha4_body W (8 * q, r) = (8 * q + 8, fold (sha4_round W) [8 * q..<8 * q + 8] r)"
proof -
  have "fold (\<lambda>regs (i, r). (i + 1, sha_P sha4_S2 sha4_S3 regs (W ! i) (sha4_K ! i) r)) (map idx8 [0..<n]) (8 * q, r) =
      (8 * q + n, fold (sha4_round W) [8 * q..<8 * q + n] r)" for n
    by (induction n) (simp_all add: sha4_round_def idx8_period)
  from this [of 8] show ?thesis by (simp add: sha4_body_def sha4_regs_eq)
qed

lemma sha4_rounds_fold:
  "q < 10 \<Longrightarrow> sha4_rounds W (8 * q) r = fold (sha4_round W) [8 * q..<80] r"
proof (induction "9 - q" arbitrary: q r)
  case 0
  then have "q = 9" by simp
  then show ?case by (subst sha4_rounds.simps) (simp add: sha4_body_rounds [of W 9, simplified])
next
  case (Suc d)
  let ?r = "fold (sha4_round W) [8 * q..<8 * q + 8] r"
  have "q < 9" using Suc.hyps(2) by simp
  then have "sha4_rounds W (8 * q) r = sha4_rounds W (8 * Suc q) ?r"
    by (subst sha4_rounds.simps) (simp add: sha4_body_rounds add.commute)
  also have "\<dots> = fold (sha4_round W) [8 * Suc q..<80] ?r"
    using Suc.hyps(2) by (intro Suc.hyps(1)) simp_all
  also have "[8 * q..<80] = [8 * q..<8 * q + 8] @ [8 * Suc q..<80]"
    using Suc.hyps(2) upt_add_eq_append [of "8 * q" "8 * q + 8" "72 - 8 * q"] by (simp add: add.commute)
  ultimately show ?case by simp
qed

lemma sha4_fold:
  assumes "length r = 8" "\<forall>i < n. W ! i = w512 M i"
  shows "length (fold (sha4_round W) [0..<n] r) = 8 \<and> roles8 n (fold (sha4_round W) [0..<n] r) =
    fold (\<lambda>t. sha_step sha512_S0 sha512_S1 (sha4_K ! t) (w512 M t)) [0..<n] (roles8 0 r)"
  using assms(2)
proof (induction n)
  case 0
  show ?case using assms(1) by simp
next
  case (Suc n)
  let ?r = "fold (sha4_round W) [0..<n] r"
  have IH: "length ?r = 8" "roles8 n ?r =
      fold (\<lambda>t. sha_step sha512_S0 sha512_S1 (sha4_K ! t) (w512 M t)) [0..<n] (roles8 0 r)"
    using Suc by simp_all
  have "fold (sha4_round W) [0..<Suc n] r = sha4_round W n ?r" by simp
  also have "\<dots> = sha_P sha512_S0 sha512_S1 (idx8 n) (w512 M n) (sha4_K ! n) ?r"
    using Suc.prems by (simp add: sha4_round_def sha4_S_eq)
  finally show ?case using sha_P_step [OF IH(1)] IH(2) by simp
qed

lemma sha4_process_fips:
  assumes "length st = 8"
  shows "sha4_process st data = fips_sha512_compress st data"
proof -
  let ?M = "map (\<lambda>i. GET_UINT64_BE data (8 * i)) [0..<16]"
  define W where "W = fold sha4_W_step [16..<80] (?M @ replicate 64 0)"
  have W: "\<forall>i < 80. W ! i = w512 ?M i" using sha4_schedule [of ?M 64] by (simp add: W_def)
  have r: "sha4_rounds W 0 st = fold (sha4_round W) [0..<80] st" using sha4_rounds_fold [of 0 W st] by simp
  note f = sha4_fold [OF assms W]
  have "vars_list (roles8 80 (fold (sha4_round W) [0..<80] st)) = fold (sha4_round W) [0..<80] st"
    using f by (intro roles8_list) simp_all
  then have "fold (sha4_round W) [0..<80] st = vars_list (fold (\<lambda>t. sha_step sha512_S0 sha512_S1
      (sha4_K ! t) (w512 ?M t)) [0..<80] (roles8 0 st))"
    using conjunct2 [OF f] by metis
  then show ?thesis
    unfolding sha4_process_def fips_sha512_compress_def Let_def W_def [symmetric] r roles8_0 by (rule arg_cong)
qed

section \<open>The digest\<close>

interpretation sha4_stream: md_stream 128 7 16 sha4_process sha4_msglen
  by unfold_locales (simp_all add: sha4_msglen_def)

text \<open>SHA-512 (SHA-384 when \<open>f\<close>): pad the message, compress block by block.\<close>

definition fips_sha512 :: "bool \<Rightarrow> bytes \<Rightarrow> bytes" where
  "fips_sha512 f msg = sha4_output f (fst (md_blocks 128 fips_sha512_compress (sha4_IV f)
     (msg @ md_pad 128 sha4_msglen (length msg))))"

lemma sha4_blocks_fips:
  "md_blocks 128 sha4_process (sha4_IV f) x = md_blocks 128 fips_sha512_compress (sha4_IV f) x"
  by (rule md_blocks_cong [where I = "\<lambda>st. length st = 8"])
    (simp_all add: sha4_process_fips sha4_IV_def fips_sha512_compress_def Let_def)

definition sha4_digests :: "bool \<Rightarrow> sha4_context \<Rightarrow> bytes \<Rightarrow> bool" where
  "sha4_digests f ctx msg \<longleftrightarrow> md_absorbed 128 sha4_process (sha4_IV f) ctx msg \<and> is384 ctx = f"

lemma length_fips_sha512: "length (fips_sha512 f msg) = (if f then 48 else 64)"
  by (simp add: fips_sha512_def sha4_output_def)

lemma is384_update [simp]: "is384 (blk_update B p ctx x) = is384 ctx"
  by (simp add: blk_update_def Let_def case_prod_beta)

lemma is384_finish [simp]: "is384 (blk_finish B p e ctx) = is384 ctx"
  by (simp add: blk_finish_def Let_def)

interpretation sha4_md: md_digest "\<lambda>ctx. length (buffer ctx) = 128" "sha4_digests f"
  "\<lambda>ctx. sha4_starts ctx f" sha4_update sha4_finish "fips_sha512 f" 128 "2 ^ 64" opad for f
proof unfold_locales
  show "sha4_digests f (sha4_starts ctx f) []" if "length (buffer ctx) = 128" for ctx
    using that by (simp add: sha4_digests_def sha4_starts_def md_absorbed_init)
  show "sha4_digests f (sha4_update ctx input) (msg @ input)"
    if "sha4_digests f ctx msg" "length input < 2 ^ 64" for ctx msg input
    using that unfolding sha4_digests_def sha4_update_def
    by (auto intro!: sha4_stream.update_absorbs)
  show "snd (sha4_finish ctx) = fips_sha512 f msg" "length (buffer (fst (sha4_finish ctx))) = 128"
    if d: "sha4_digests f ctx msg" for ctx msg
  proof -
    have a: "md_absorbed 128 sha4_process (sha4_IV f) ctx msg" "is384 ctx = f"
      using d by (simp_all add: sha4_digests_def)
    show "snd (sha4_finish ctx) = fips_sha512 f msg" "length (buffer (fst (sha4_finish ctx))) = 128"
      using sha4_stream.finish_absorbs [OF a(1)] a(2)
      by (simp_all add: sha4_finish_def Let_def fips_sha512_def sha4_blocks_fips md_absorbed_def)
  qed
qed (simp_all add: sha4_starts_def sha4_update_def sha4_finish_def Let_def length_fips_sha512)

lemma sha4_fips: "length input < 2 ^ 64 \<Longrightarrow> sha4 input f = fips_sha512 f input"
  using sha4_md.oneshot [of sha4_uninit input f] by (simp add: sha4_def Let_def sha4_uninit_def)

lemma sha4_hmac_spec:
  assumes "length key < 2 ^ 64" "length input < 2 ^ 64"
  shows "sha4_hmac key input f = hmac_spec 128 (fips_sha512 f) key input"
proof -
  let ?hlen = "if f then 48 else 64"
  let ?key = "if 128 < length key then take ?hlen (sha4 key f) else key"
  let ?ctx = "sha4_uninit\<lparr>ipad := hmac_pad 128 0x36 ?key, opad := hmac_pad 128 0x5C ?key\<rparr>"
  have key: "?key = (if 128 < length key then fips_sha512 f key else key)"
    using assms(1) by (simp add: sha4_fips length_fips_sha512)
  let ?c1 = "sha4_update (sha4_update (sha4_starts ?ctx f) (hmac_pad 128 0x36 ?key)) input"
  have "length (snd (sha4_finish ?c1)) = ?hlen" "is384 ?c1 = f"
    by (simp_all add: sha4_finish_def sha4_output_def Let_def sha4_update_def sha4_starts_def)
  then have t: "take (if \<not> f then 64 else 48) (snd (sha4_finish ?c1)) = snd (sha4_finish ?c1)" by simp
  have "sha4_hmac key input f = snd (sha4_hmac_finish ?c1)"
    by (simp add: sha4_hmac_def sha4_hmac_starts_def sha4_hmac_update_def Let_def sha4_starts_def)
  also have "\<dots> = (let c = sha4_starts (fst (sha4_finish ?c1)) f
      in snd (sha4_finish (sha4_update (sha4_update c (opad c)) (snd (sha4_finish ?c1)))))"
    unfolding sha4_hmac_finish_def Let_def case_prod_beta \<open>is384 ?c1 = f\<close> t ..
  also have "\<dots> = hmac_spec 128 (fips_sha512 f) key input"
    unfolding Let_def using sha4_md.hmac [where ctx = ?ctx and chunks = "[input]" and key' = ?key and inner = ?c1, OF _ _ key] assms(2)
    by (simp add: sha4_uninit_def)
  finally show ?thesis .
qed

end
