(* ===== verification/MdWrap.thy ===== *)
theory MdWrap
  imports Md2 Md4 Md5 Sha1 Sha2 Sha4
begin

text \<open>
  \<^verbatim>\<open>setsync/crypto/md.h\<close> and \<^verbatim>\<open>md_wrap.c\<close>: the record \<open>md_info_t\<close> of function pointers and its
  eight instances.  A context pointer is a tagged context; a wrapper that casts it to the wrong
  structure is undefined behaviour, the value \<open>None\<close>.  \<open>mem\<close> says whether \<^verbatim>\<open>malloc\<close> succeeds;
  freeing a context only forgets it, so \<^verbatim>\<open>ctx_free_func\<close> has no counterpart.  The library is
  built without \<^verbatim>\<open>POLARSSL_FS_IO\<close>, so the file functions report that they are missing.
\<close>

datatype md_type_t = POLARSSL_MD_NONE | POLARSSL_MD_MD2 | POLARSSL_MD_MD4 | POLARSSL_MD_MD5
  | POLARSSL_MD_SHA1 | POLARSSL_MD_SHA224 | POLARSSL_MD_SHA256 | POLARSSL_MD_SHA384 | POLARSSL_MD_SHA512

datatype md_ctx = Md2Ctx md2_context | Md4Ctx md4_context | Md5Ctx md5_context
  | Sha1Ctx sha1_context | Sha2Ctx sha2_context | Sha4Ctx sha4_context

record md_info_t =
  md_type :: md_type_t
  md_name :: string
  md_size :: int
  starts_func :: "md_ctx \<Rightarrow> md_ctx option"
  update_func :: "md_ctx \<Rightarrow> bytes \<Rightarrow> md_ctx option"
  finish_func :: "md_ctx \<Rightarrow> (md_ctx \<times> bytes) option"
  digest_func :: "bytes \<Rightarrow> bytes option"
  file_func :: "string \<Rightarrow> int"
  hmac_starts_func :: "md_ctx \<Rightarrow> bytes \<Rightarrow> md_ctx option"
  hmac_update_func :: "md_ctx \<Rightarrow> bytes \<Rightarrow> md_ctx option"
  hmac_finish_func :: "md_ctx \<Rightarrow> (md_ctx \<times> bytes) option"
  hmac_reset_func :: "md_ctx \<Rightarrow> md_ctx option"
  hmac_func :: "bytes \<Rightarrow> bytes \<Rightarrow> bytes option"
  ctx_alloc_func :: "bool \<Rightarrow> md_ctx option"

definition POLARSSL_ERR_MD_FEATURE_UNAVAILABLE :: int where "POLARSSL_ERR_MD_FEATURE_UNAVAILABLE = - 0x5080"
definition POLARSSL_ERR_MD_BAD_INPUT_DATA :: int where "POLARSSL_ERR_MD_BAD_INPUT_DATA = - 0x5100"
definition POLARSSL_ERR_MD_ALLOC_FAILED :: int where "POLARSSL_ERR_MD_ALLOC_FAILED = - 0x5180"

section \<open>The wrappers and tables\<close>

subsection \<open>MD2\<close>

definition md2_starts_wrap :: "md_ctx \<Rightarrow> md_ctx option" where
  "md2_starts_wrap ctx = (case ctx of Md2Ctx ctx \<Rightarrow> Some (Md2Ctx (md2_starts ctx)) | _ \<Rightarrow> None)"

definition md2_update_wrap :: "md_ctx \<Rightarrow> bytes \<Rightarrow> md_ctx option" where
  "md2_update_wrap ctx input = (case ctx of Md2Ctx ctx \<Rightarrow> map_option Md2Ctx (md2_update ctx input) | _ \<Rightarrow> None)"

definition md2_finish_wrap :: "md_ctx \<Rightarrow> (md_ctx \<times> bytes) option" where
  "md2_finish_wrap ctx = (case ctx of Md2Ctx ctx \<Rightarrow> (case md2_finish ctx of (ctx, output) \<Rightarrow> Some (Md2Ctx ctx, output)) | _ \<Rightarrow> None)"

definition md2_file_wrap :: "string \<Rightarrow> int" where
  "md2_file_wrap path = POLARSSL_ERR_MD_FEATURE_UNAVAILABLE"

definition md2_hmac_starts_wrap :: "md_ctx \<Rightarrow> bytes \<Rightarrow> md_ctx option" where
  "md2_hmac_starts_wrap ctx key = (case ctx of Md2Ctx ctx \<Rightarrow> map_option Md2Ctx (md2_hmac_starts ctx key) | _ \<Rightarrow> None)"

definition md2_hmac_update_wrap :: "md_ctx \<Rightarrow> bytes \<Rightarrow> md_ctx option" where
  "md2_hmac_update_wrap ctx input = (case ctx of Md2Ctx ctx \<Rightarrow> map_option Md2Ctx (md2_hmac_update ctx input) | _ \<Rightarrow> None)"

definition md2_hmac_finish_wrap :: "md_ctx \<Rightarrow> (md_ctx \<times> bytes) option" where
  "md2_hmac_finish_wrap ctx = (case ctx of Md2Ctx ctx \<Rightarrow> map_option (\<lambda>(ctx, output). (Md2Ctx ctx, output)) (md2_hmac_finish ctx) | _ \<Rightarrow> None)"

definition md2_hmac_reset_wrap :: "md_ctx \<Rightarrow> md_ctx option" where
  "md2_hmac_reset_wrap ctx = (case ctx of Md2Ctx ctx \<Rightarrow> map_option Md2Ctx (md2_hmac_reset ctx) | _ \<Rightarrow> None)"

definition md2_ctx_alloc :: "bool \<Rightarrow> md_ctx option" where
  "md2_ctx_alloc mem = (if mem then Some (Md2Ctx md2_uninit) else None)"

definition md2_info :: md_info_t where
  "md2_info = \<lparr>md_type = POLARSSL_MD_MD2, md_name = ''MD2'', md_size = 16,
     starts_func = md2_starts_wrap, update_func = md2_update_wrap, finish_func = md2_finish_wrap,
     digest_func = md2, file_func = md2_file_wrap,
     hmac_starts_func = md2_hmac_starts_wrap, hmac_update_func = md2_hmac_update_wrap,
     hmac_finish_func = md2_hmac_finish_wrap, hmac_reset_func = md2_hmac_reset_wrap,
     hmac_func = md2_hmac, ctx_alloc_func = md2_ctx_alloc\<rparr>"

subsection \<open>MD4\<close>

definition md4_starts_wrap :: "md_ctx \<Rightarrow> md_ctx option" where
  "md4_starts_wrap ctx = (case ctx of Md4Ctx ctx \<Rightarrow> Some (Md4Ctx (md4_starts ctx)) | _ \<Rightarrow> None)"

definition md4_update_wrap :: "md_ctx \<Rightarrow> bytes \<Rightarrow> md_ctx option" where
  "md4_update_wrap ctx input = (case ctx of Md4Ctx ctx \<Rightarrow> Some (Md4Ctx (md4_update ctx input)) | _ \<Rightarrow> None)"

definition md4_finish_wrap :: "md_ctx \<Rightarrow> (md_ctx \<times> bytes) option" where
  "md4_finish_wrap ctx = (case ctx of Md4Ctx ctx \<Rightarrow> (case md4_finish ctx of (ctx, output) \<Rightarrow> Some (Md4Ctx ctx, output)) | _ \<Rightarrow> None)"

definition md4_file_wrap :: "string \<Rightarrow> int" where
  "md4_file_wrap path = POLARSSL_ERR_MD_FEATURE_UNAVAILABLE"

definition md4_hmac_starts_wrap :: "md_ctx \<Rightarrow> bytes \<Rightarrow> md_ctx option" where
  "md4_hmac_starts_wrap ctx key = (case ctx of Md4Ctx ctx \<Rightarrow> Some (Md4Ctx (md4_hmac_starts ctx key)) | _ \<Rightarrow> None)"

definition md4_hmac_update_wrap :: "md_ctx \<Rightarrow> bytes \<Rightarrow> md_ctx option" where
  "md4_hmac_update_wrap ctx input = (case ctx of Md4Ctx ctx \<Rightarrow> Some (Md4Ctx (md4_hmac_update ctx input)) | _ \<Rightarrow> None)"

definition md4_hmac_finish_wrap :: "md_ctx \<Rightarrow> (md_ctx \<times> bytes) option" where
  "md4_hmac_finish_wrap ctx = (case ctx of Md4Ctx ctx \<Rightarrow> (case md4_hmac_finish ctx of (ctx, output) \<Rightarrow> Some (Md4Ctx ctx, output)) | _ \<Rightarrow> None)"

definition md4_hmac_reset_wrap :: "md_ctx \<Rightarrow> md_ctx option" where
  "md4_hmac_reset_wrap ctx = (case ctx of Md4Ctx ctx \<Rightarrow> Some (Md4Ctx (md4_hmac_reset ctx)) | _ \<Rightarrow> None)"

definition md4_ctx_alloc :: "bool \<Rightarrow> md_ctx option" where
  "md4_ctx_alloc mem = (if mem then Some (Md4Ctx md4_uninit) else None)"

definition md4_info :: md_info_t where
  "md4_info = \<lparr>md_type = POLARSSL_MD_MD4, md_name = ''MD4'', md_size = 16,
     starts_func = md4_starts_wrap, update_func = md4_update_wrap, finish_func = md4_finish_wrap,
     digest_func = \<lambda>input. Some (md4 input), file_func = md4_file_wrap,
     hmac_starts_func = md4_hmac_starts_wrap, hmac_update_func = md4_hmac_update_wrap,
     hmac_finish_func = md4_hmac_finish_wrap, hmac_reset_func = md4_hmac_reset_wrap,
     hmac_func = \<lambda>key input. Some (md4_hmac key input), ctx_alloc_func = md4_ctx_alloc\<rparr>"

subsection \<open>MD5\<close>

definition md5_starts_wrap :: "md_ctx \<Rightarrow> md_ctx option" where
  "md5_starts_wrap ctx = (case ctx of Md5Ctx ctx \<Rightarrow> Some (Md5Ctx (md5_starts ctx)) | _ \<Rightarrow> None)"

definition md5_update_wrap :: "md_ctx \<Rightarrow> bytes \<Rightarrow> md_ctx option" where
  "md5_update_wrap ctx input = (case ctx of Md5Ctx ctx \<Rightarrow> Some (Md5Ctx (md5_update ctx input)) | _ \<Rightarrow> None)"

definition md5_finish_wrap :: "md_ctx \<Rightarrow> (md_ctx \<times> bytes) option" where
  "md5_finish_wrap ctx = (case ctx of Md5Ctx ctx \<Rightarrow> (case md5_finish ctx of (ctx, output) \<Rightarrow> Some (Md5Ctx ctx, output)) | _ \<Rightarrow> None)"

definition md5_file_wrap :: "string \<Rightarrow> int" where
  "md5_file_wrap path = POLARSSL_ERR_MD_FEATURE_UNAVAILABLE"

definition md5_hmac_starts_wrap :: "md_ctx \<Rightarrow> bytes \<Rightarrow> md_ctx option" where
  "md5_hmac_starts_wrap ctx key = (case ctx of Md5Ctx ctx \<Rightarrow> Some (Md5Ctx (md5_hmac_starts ctx key)) | _ \<Rightarrow> None)"

definition md5_hmac_update_wrap :: "md_ctx \<Rightarrow> bytes \<Rightarrow> md_ctx option" where
  "md5_hmac_update_wrap ctx input = (case ctx of Md5Ctx ctx \<Rightarrow> Some (Md5Ctx (md5_hmac_update ctx input)) | _ \<Rightarrow> None)"

definition md5_hmac_finish_wrap :: "md_ctx \<Rightarrow> (md_ctx \<times> bytes) option" where
  "md5_hmac_finish_wrap ctx = (case ctx of Md5Ctx ctx \<Rightarrow> (case md5_hmac_finish ctx of (ctx, output) \<Rightarrow> Some (Md5Ctx ctx, output)) | _ \<Rightarrow> None)"

definition md5_hmac_reset_wrap :: "md_ctx \<Rightarrow> md_ctx option" where
  "md5_hmac_reset_wrap ctx = (case ctx of Md5Ctx ctx \<Rightarrow> Some (Md5Ctx (md5_hmac_reset ctx)) | _ \<Rightarrow> None)"

definition md5_ctx_alloc :: "bool \<Rightarrow> md_ctx option" where
  "md5_ctx_alloc mem = (if mem then Some (Md5Ctx md5_uninit) else None)"

definition md5_info :: md_info_t where
  "md5_info = \<lparr>md_type = POLARSSL_MD_MD5, md_name = ''MD5'', md_size = 16,
     starts_func = md5_starts_wrap, update_func = md5_update_wrap, finish_func = md5_finish_wrap,
     digest_func = \<lambda>input. Some (md5 input), file_func = md5_file_wrap,
     hmac_starts_func = md5_hmac_starts_wrap, hmac_update_func = md5_hmac_update_wrap,
     hmac_finish_func = md5_hmac_finish_wrap, hmac_reset_func = md5_hmac_reset_wrap,
     hmac_func = \<lambda>key input. Some (md5_hmac key input), ctx_alloc_func = md5_ctx_alloc\<rparr>"

subsection \<open>SHA1\<close>

definition sha1_starts_wrap :: "md_ctx \<Rightarrow> md_ctx option" where
  "sha1_starts_wrap ctx = (case ctx of Sha1Ctx ctx \<Rightarrow> Some (Sha1Ctx (sha1_starts ctx)) | _ \<Rightarrow> None)"

definition sha1_update_wrap :: "md_ctx \<Rightarrow> bytes \<Rightarrow> md_ctx option" where
  "sha1_update_wrap ctx input = (case ctx of Sha1Ctx ctx \<Rightarrow> Some (Sha1Ctx (sha1_update ctx input)) | _ \<Rightarrow> None)"

definition sha1_finish_wrap :: "md_ctx \<Rightarrow> (md_ctx \<times> bytes) option" where
  "sha1_finish_wrap ctx = (case ctx of Sha1Ctx ctx \<Rightarrow> (case sha1_finish ctx of (ctx, output) \<Rightarrow> Some (Sha1Ctx ctx, output)) | _ \<Rightarrow> None)"

definition sha1_file_wrap :: "string \<Rightarrow> int" where
  "sha1_file_wrap path = POLARSSL_ERR_MD_FEATURE_UNAVAILABLE"

definition sha1_hmac_starts_wrap :: "md_ctx \<Rightarrow> bytes \<Rightarrow> md_ctx option" where
  "sha1_hmac_starts_wrap ctx key = (case ctx of Sha1Ctx ctx \<Rightarrow> Some (Sha1Ctx (sha1_hmac_starts ctx key)) | _ \<Rightarrow> None)"

definition sha1_hmac_update_wrap :: "md_ctx \<Rightarrow> bytes \<Rightarrow> md_ctx option" where
  "sha1_hmac_update_wrap ctx input = (case ctx of Sha1Ctx ctx \<Rightarrow> Some (Sha1Ctx (sha1_hmac_update ctx input)) | _ \<Rightarrow> None)"

definition sha1_hmac_finish_wrap :: "md_ctx \<Rightarrow> (md_ctx \<times> bytes) option" where
  "sha1_hmac_finish_wrap ctx = (case ctx of Sha1Ctx ctx \<Rightarrow> (case sha1_hmac_finish ctx of (ctx, output) \<Rightarrow> Some (Sha1Ctx ctx, output)) | _ \<Rightarrow> None)"

definition sha1_hmac_reset_wrap :: "md_ctx \<Rightarrow> md_ctx option" where
  "sha1_hmac_reset_wrap ctx = (case ctx of Sha1Ctx ctx \<Rightarrow> Some (Sha1Ctx (sha1_hmac_reset ctx)) | _ \<Rightarrow> None)"

definition sha1_ctx_alloc :: "bool \<Rightarrow> md_ctx option" where
  "sha1_ctx_alloc mem = (if mem then Some (Sha1Ctx sha1_uninit) else None)"

definition sha1_info :: md_info_t where
  "sha1_info = \<lparr>md_type = POLARSSL_MD_SHA1, md_name = ''SHA1'', md_size = 20,
     starts_func = sha1_starts_wrap, update_func = sha1_update_wrap, finish_func = sha1_finish_wrap,
     digest_func = \<lambda>input. Some (sha1 input), file_func = sha1_file_wrap,
     hmac_starts_func = sha1_hmac_starts_wrap, hmac_update_func = sha1_hmac_update_wrap,
     hmac_finish_func = sha1_hmac_finish_wrap, hmac_reset_func = sha1_hmac_reset_wrap,
     hmac_func = \<lambda>key input. Some (sha1_hmac key input), ctx_alloc_func = sha1_ctx_alloc\<rparr>"

subsection \<open>SHA224\<close>

definition sha224_starts_wrap :: "md_ctx \<Rightarrow> md_ctx option" where
  "sha224_starts_wrap ctx = (case ctx of Sha2Ctx ctx \<Rightarrow> Some (Sha2Ctx (sha2_starts ctx True)) | _ \<Rightarrow> None)"

definition sha224_update_wrap :: "md_ctx \<Rightarrow> bytes \<Rightarrow> md_ctx option" where
  "sha224_update_wrap ctx input = (case ctx of Sha2Ctx ctx \<Rightarrow> Some (Sha2Ctx (sha2_update ctx input)) | _ \<Rightarrow> None)"

definition sha224_finish_wrap :: "md_ctx \<Rightarrow> (md_ctx \<times> bytes) option" where
  "sha224_finish_wrap ctx = (case ctx of Sha2Ctx ctx \<Rightarrow> (case sha2_finish ctx of (ctx, output) \<Rightarrow> Some (Sha2Ctx ctx, output)) | _ \<Rightarrow> None)"

definition sha224_wrap :: "bytes \<Rightarrow> bytes option" where
  "sha224_wrap input = Some (sha2 input True)"

definition sha224_file_wrap :: "string \<Rightarrow> int" where
  "sha224_file_wrap path = POLARSSL_ERR_MD_FEATURE_UNAVAILABLE"

definition sha224_hmac_starts_wrap :: "md_ctx \<Rightarrow> bytes \<Rightarrow> md_ctx option" where
  "sha224_hmac_starts_wrap ctx key = (case ctx of Sha2Ctx ctx \<Rightarrow> Some (Sha2Ctx (sha2_hmac_starts ctx key True)) | _ \<Rightarrow> None)"

definition sha224_hmac_update_wrap :: "md_ctx \<Rightarrow> bytes \<Rightarrow> md_ctx option" where
  "sha224_hmac_update_wrap ctx input = (case ctx of Sha2Ctx ctx \<Rightarrow> Some (Sha2Ctx (sha2_hmac_update ctx input)) | _ \<Rightarrow> None)"

definition sha224_hmac_finish_wrap :: "md_ctx \<Rightarrow> (md_ctx \<times> bytes) option" where
  "sha224_hmac_finish_wrap ctx = (case ctx of Sha2Ctx ctx \<Rightarrow> (case sha2_hmac_finish ctx of (ctx, output) \<Rightarrow> Some (Sha2Ctx ctx, output)) | _ \<Rightarrow> None)"

definition sha224_hmac_reset_wrap :: "md_ctx \<Rightarrow> md_ctx option" where
  "sha224_hmac_reset_wrap ctx = (case ctx of Sha2Ctx ctx \<Rightarrow> Some (Sha2Ctx (sha2_hmac_reset ctx)) | _ \<Rightarrow> None)"

definition sha224_hmac_wrap :: "bytes \<Rightarrow> bytes \<Rightarrow> bytes option" where
  "sha224_hmac_wrap key input = Some (sha2_hmac key input True)"

definition sha224_ctx_alloc :: "bool \<Rightarrow> md_ctx option" where
  "sha224_ctx_alloc mem = (if mem then Some (Sha2Ctx sha2_uninit) else None)"

definition sha224_info :: md_info_t where
  "sha224_info = \<lparr>md_type = POLARSSL_MD_SHA224, md_name = ''SHA224'', md_size = 28,
     starts_func = sha224_starts_wrap, update_func = sha224_update_wrap, finish_func = sha224_finish_wrap,
     digest_func = sha224_wrap, file_func = sha224_file_wrap,
     hmac_starts_func = sha224_hmac_starts_wrap, hmac_update_func = sha224_hmac_update_wrap,
     hmac_finish_func = sha224_hmac_finish_wrap, hmac_reset_func = sha224_hmac_reset_wrap,
     hmac_func = sha224_hmac_wrap, ctx_alloc_func = sha224_ctx_alloc\<rparr>"

subsection \<open>SHA256\<close>

definition sha256_starts_wrap :: "md_ctx \<Rightarrow> md_ctx option" where
  "sha256_starts_wrap ctx = (case ctx of Sha2Ctx ctx \<Rightarrow> Some (Sha2Ctx (sha2_starts ctx False)) | _ \<Rightarrow> None)"

definition sha256_update_wrap :: "md_ctx \<Rightarrow> bytes \<Rightarrow> md_ctx option" where
  "sha256_update_wrap ctx input = (case ctx of Sha2Ctx ctx \<Rightarrow> Some (Sha2Ctx (sha2_update ctx input)) | _ \<Rightarrow> None)"

definition sha256_finish_wrap :: "md_ctx \<Rightarrow> (md_ctx \<times> bytes) option" where
  "sha256_finish_wrap ctx = (case ctx of Sha2Ctx ctx \<Rightarrow> (case sha2_finish ctx of (ctx, output) \<Rightarrow> Some (Sha2Ctx ctx, output)) | _ \<Rightarrow> None)"

definition sha256_wrap :: "bytes \<Rightarrow> bytes option" where
  "sha256_wrap input = Some (sha2 input False)"

definition sha256_file_wrap :: "string \<Rightarrow> int" where
  "sha256_file_wrap path = POLARSSL_ERR_MD_FEATURE_UNAVAILABLE"

definition sha256_hmac_starts_wrap :: "md_ctx \<Rightarrow> bytes \<Rightarrow> md_ctx option" where
  "sha256_hmac_starts_wrap ctx key = (case ctx of Sha2Ctx ctx \<Rightarrow> Some (Sha2Ctx (sha2_hmac_starts ctx key False)) | _ \<Rightarrow> None)"

definition sha256_hmac_update_wrap :: "md_ctx \<Rightarrow> bytes \<Rightarrow> md_ctx option" where
  "sha256_hmac_update_wrap ctx input = (case ctx of Sha2Ctx ctx \<Rightarrow> Some (Sha2Ctx (sha2_hmac_update ctx input)) | _ \<Rightarrow> None)"

definition sha256_hmac_finish_wrap :: "md_ctx \<Rightarrow> (md_ctx \<times> bytes) option" where
  "sha256_hmac_finish_wrap ctx = (case ctx of Sha2Ctx ctx \<Rightarrow> (case sha2_hmac_finish ctx of (ctx, output) \<Rightarrow> Some (Sha2Ctx ctx, output)) | _ \<Rightarrow> None)"

definition sha256_hmac_reset_wrap :: "md_ctx \<Rightarrow> md_ctx option" where
  "sha256_hmac_reset_wrap ctx = (case ctx of Sha2Ctx ctx \<Rightarrow> Some (Sha2Ctx (sha2_hmac_reset ctx)) | _ \<Rightarrow> None)"

definition sha256_hmac_wrap :: "bytes \<Rightarrow> bytes \<Rightarrow> bytes option" where
  "sha256_hmac_wrap key input = Some (sha2_hmac key input False)"

definition sha256_ctx_alloc :: "bool \<Rightarrow> md_ctx option" where
  "sha256_ctx_alloc mem = (if mem then Some (Sha2Ctx sha2_uninit) else None)"

definition sha256_info :: md_info_t where
  "sha256_info = \<lparr>md_type = POLARSSL_MD_SHA256, md_name = ''SHA256'', md_size = 32,
     starts_func = sha256_starts_wrap, update_func = sha256_update_wrap, finish_func = sha256_finish_wrap,
     digest_func = sha256_wrap, file_func = sha256_file_wrap,
     hmac_starts_func = sha256_hmac_starts_wrap, hmac_update_func = sha256_hmac_update_wrap,
     hmac_finish_func = sha256_hmac_finish_wrap, hmac_reset_func = sha256_hmac_reset_wrap,
     hmac_func = sha256_hmac_wrap, ctx_alloc_func = sha256_ctx_alloc\<rparr>"

subsection \<open>SHA384\<close>

definition sha384_starts_wrap :: "md_ctx \<Rightarrow> md_ctx option" where
  "sha384_starts_wrap ctx = (case ctx of Sha4Ctx ctx \<Rightarrow> Some (Sha4Ctx (sha4_starts ctx True)) | _ \<Rightarrow> None)"

definition sha384_update_wrap :: "md_ctx \<Rightarrow> bytes \<Rightarrow> md_ctx option" where
  "sha384_update_wrap ctx input = (case ctx of Sha4Ctx ctx \<Rightarrow> Some (Sha4Ctx (sha4_update ctx input)) | _ \<Rightarrow> None)"

definition sha384_finish_wrap :: "md_ctx \<Rightarrow> (md_ctx \<times> bytes) option" where
  "sha384_finish_wrap ctx = (case ctx of Sha4Ctx ctx \<Rightarrow> (case sha4_finish ctx of (ctx, output) \<Rightarrow> Some (Sha4Ctx ctx, output)) | _ \<Rightarrow> None)"

definition sha384_wrap :: "bytes \<Rightarrow> bytes option" where
  "sha384_wrap input = Some (sha4 input True)"

definition sha384_file_wrap :: "string \<Rightarrow> int" where
  "sha384_file_wrap path = POLARSSL_ERR_MD_FEATURE_UNAVAILABLE"

definition sha384_hmac_starts_wrap :: "md_ctx \<Rightarrow> bytes \<Rightarrow> md_ctx option" where
  "sha384_hmac_starts_wrap ctx key = (case ctx of Sha4Ctx ctx \<Rightarrow> Some (Sha4Ctx (sha4_hmac_starts ctx key True)) | _ \<Rightarrow> None)"

definition sha384_hmac_update_wrap :: "md_ctx \<Rightarrow> bytes \<Rightarrow> md_ctx option" where
  "sha384_hmac_update_wrap ctx input = (case ctx of Sha4Ctx ctx \<Rightarrow> Some (Sha4Ctx (sha4_hmac_update ctx input)) | _ \<Rightarrow> None)"

definition sha384_hmac_finish_wrap :: "md_ctx \<Rightarrow> (md_ctx \<times> bytes) option" where
  "sha384_hmac_finish_wrap ctx = (case ctx of Sha4Ctx ctx \<Rightarrow> (case sha4_hmac_finish ctx of (ctx, output) \<Rightarrow> Some (Sha4Ctx ctx, output)) | _ \<Rightarrow> None)"

definition sha384_hmac_reset_wrap :: "md_ctx \<Rightarrow> md_ctx option" where
  "sha384_hmac_reset_wrap ctx = (case ctx of Sha4Ctx ctx \<Rightarrow> Some (Sha4Ctx (sha4_hmac_reset ctx)) | _ \<Rightarrow> None)"

definition sha384_hmac_wrap :: "bytes \<Rightarrow> bytes \<Rightarrow> bytes option" where
  "sha384_hmac_wrap key input = Some (sha4_hmac key input True)"

definition sha384_ctx_alloc :: "bool \<Rightarrow> md_ctx option" where
  "sha384_ctx_alloc mem = (if mem then Some (Sha4Ctx sha4_uninit) else None)"

definition sha384_info :: md_info_t where
  "sha384_info = \<lparr>md_type = POLARSSL_MD_SHA384, md_name = ''SHA384'', md_size = 48,
     starts_func = sha384_starts_wrap, update_func = sha384_update_wrap, finish_func = sha384_finish_wrap,
     digest_func = sha384_wrap, file_func = sha384_file_wrap,
     hmac_starts_func = sha384_hmac_starts_wrap, hmac_update_func = sha384_hmac_update_wrap,
     hmac_finish_func = sha384_hmac_finish_wrap, hmac_reset_func = sha384_hmac_reset_wrap,
     hmac_func = sha384_hmac_wrap, ctx_alloc_func = sha384_ctx_alloc\<rparr>"

subsection \<open>SHA512\<close>

definition sha512_starts_wrap :: "md_ctx \<Rightarrow> md_ctx option" where
  "sha512_starts_wrap ctx = (case ctx of Sha4Ctx ctx \<Rightarrow> Some (Sha4Ctx (sha4_starts ctx False)) | _ \<Rightarrow> None)"

definition sha512_update_wrap :: "md_ctx \<Rightarrow> bytes \<Rightarrow> md_ctx option" where
  "sha512_update_wrap ctx input = (case ctx of Sha4Ctx ctx \<Rightarrow> Some (Sha4Ctx (sha4_update ctx input)) | _ \<Rightarrow> None)"

definition sha512_finish_wrap :: "md_ctx \<Rightarrow> (md_ctx \<times> bytes) option" where
  "sha512_finish_wrap ctx = (case ctx of Sha4Ctx ctx \<Rightarrow> (case sha4_finish ctx of (ctx, output) \<Rightarrow> Some (Sha4Ctx ctx, output)) | _ \<Rightarrow> None)"

definition sha512_wrap :: "bytes \<Rightarrow> bytes option" where
  "sha512_wrap input = Some (sha4 input False)"

definition sha512_file_wrap :: "string \<Rightarrow> int" where
  "sha512_file_wrap path = POLARSSL_ERR_MD_FEATURE_UNAVAILABLE"

definition sha512_hmac_starts_wrap :: "md_ctx \<Rightarrow> bytes \<Rightarrow> md_ctx option" where
  "sha512_hmac_starts_wrap ctx key = (case ctx of Sha4Ctx ctx \<Rightarrow> Some (Sha4Ctx (sha4_hmac_starts ctx key False)) | _ \<Rightarrow> None)"

definition sha512_hmac_update_wrap :: "md_ctx \<Rightarrow> bytes \<Rightarrow> md_ctx option" where
  "sha512_hmac_update_wrap ctx input = (case ctx of Sha4Ctx ctx \<Rightarrow> Some (Sha4Ctx (sha4_hmac_update ctx input)) | _ \<Rightarrow> None)"

definition sha512_hmac_finish_wrap :: "md_ctx \<Rightarrow> (md_ctx \<times> bytes) option" where
  "sha512_hmac_finish_wrap ctx = (case ctx of Sha4Ctx ctx \<Rightarrow> (case sha4_hmac_finish ctx of (ctx, output) \<Rightarrow> Some (Sha4Ctx ctx, output)) | _ \<Rightarrow> None)"

definition sha512_hmac_reset_wrap :: "md_ctx \<Rightarrow> md_ctx option" where
  "sha512_hmac_reset_wrap ctx = (case ctx of Sha4Ctx ctx \<Rightarrow> Some (Sha4Ctx (sha4_hmac_reset ctx)) | _ \<Rightarrow> None)"

definition sha512_hmac_wrap :: "bytes \<Rightarrow> bytes \<Rightarrow> bytes option" where
  "sha512_hmac_wrap key input = Some (sha4_hmac key input False)"

definition sha512_ctx_alloc :: "bool \<Rightarrow> md_ctx option" where
  "sha512_ctx_alloc mem = (if mem then Some (Sha4Ctx sha4_uninit) else None)"

definition sha512_info :: md_info_t where
  "sha512_info = \<lparr>md_type = POLARSSL_MD_SHA512, md_name = ''SHA512'', md_size = 64,
     starts_func = sha512_starts_wrap, update_func = sha512_update_wrap, finish_func = sha512_finish_wrap,
     digest_func = sha512_wrap, file_func = sha512_file_wrap,
     hmac_starts_func = sha512_hmac_starts_wrap, hmac_update_func = sha512_hmac_update_wrap,
     hmac_finish_func = sha512_hmac_finish_wrap, hmac_reset_func = sha512_hmac_reset_wrap,
     hmac_func = sha512_hmac_wrap, ctx_alloc_func = sha512_ctx_alloc\<rparr>"

section \<open>What a table promises\<close>

text \<open>
  The contract between \<^verbatim>\<open>md.c\<close> and a table: on the contexts it allocates its functions are
  defined and compute the digest \<open>H\<close> and the HMAC over it, of the size it names.
\<close>

locale md_provider =
  fixes info :: md_info_t and ok :: "md_ctx \<Rightarrow> bool" and holds :: "md_ctx \<Rightarrow> bytes \<Rightarrow> bool"
    and H :: "bytes \<Rightarrow> bytes" and B :: nat
  assumes alloc: "\<exists>c. ctx_alloc_func info True = Some c \<and> ok c"
    and no_memory: "ctx_alloc_func info False = None"
    and starts: "ok c \<Longrightarrow> \<exists>c'. starts_func info c = Some c' \<and> holds c' []"
    and update: "holds c msg \<Longrightarrow> length input < 2 ^ 32 \<Longrightarrow>
      \<exists>c'. update_func info c input = Some c' \<and> holds c' (msg @ input)"
    and finish: "holds c msg \<Longrightarrow> \<exists>c'. finish_func info c = Some (c', H msg) \<and> ok c'"
    and holds_ok: "holds c msg \<Longrightarrow> ok c"
    and digest: "length input < 2 ^ 32 \<Longrightarrow> digest_func info input = Some (H input)"
    and hmac_digest: "length key < 2 ^ 32 \<Longrightarrow> length input < 2 ^ 32 \<Longrightarrow>
      hmac_func info key input = Some (hmac_spec B H key input)"
    and size: "int (length (H msg)) = md_size info"

text \<open>A table whose wrappers tag the contexts of a digest with \<open>C\<close>.\<close>

locale md_wrapped = md_digest valid digests starts update finish H B limit ctx_opad
  for valid :: "'c \<Rightarrow> bool" and digests and starts and update and finish and H and B and limit
    and ctx_opad +
  fixes info :: md_info_t and C :: "'c \<Rightarrow> md_ctx" and uninit :: 'c
  assumes wrap_alloc: "ctx_alloc_func info mem = (if mem then Some (C uninit) else None)"
    and uninit_valid: "valid uninit"
    and digests_valid: "digests c msg \<Longrightarrow> valid c"
    and wrap_starts: "starts_func info (C c) = Some (C (starts c))"
    and wrap_update: "digests c msg \<Longrightarrow> update_func info (C c) input = Some (C (update c input))"
    and wrap_finish: "finish_func info (C c) = Some (C (fst (finish c)), snd (finish c))"
    and wrap_digest: "length input < 2 ^ 32 \<Longrightarrow> digest_func info input = Some (H input)"
    and wrap_hmac: "length key < 2 ^ 32 \<Longrightarrow> length input < 2 ^ 32 \<Longrightarrow>
      hmac_func info key input = Some (hmac_spec B H key input)"
    and wrap_size: "int (length (H msg)) = md_size info"
    and limit: "2 ^ 32 \<le> limit"

sublocale md_wrapped \<subseteq> provider: md_provider info "\<lambda>x. \<exists>c. x = C c \<and> valid c"
  "\<lambda>x msg. \<exists>c. x = C c \<and> digests c msg" H B
proof unfold_locales
  fix x msg input
  assume "\<exists>c. x = C c \<and> digests c msg" and l: "length (input :: bytes) < 2 ^ 32"
  then obtain c where c: "x = C c" "digests c msg" by blast
  have "length input < limit" using l limit by linarith
  then show "\<exists>c'. update_func info x input = Some c' \<and> (\<exists>c. c' = C c \<and> digests c (msg @ input))"
    using c wrap_update update_digests by auto
next
  fix x msg assume "\<exists>c. x = C c \<and> digests c msg"
  then obtain c where c: "x = C c" "digests c msg" by blast
  have "finish_func info x = Some (C (fst (finish c)), H msg)" "valid (fst (finish c))"
    using c wrap_finish finish_result finish_valid by simp_all
  then show "\<exists>c'. finish_func info x = Some (c', H msg) \<and> (\<exists>c. c' = C c \<and> valid c)" by blast
next
  fix x assume "\<exists>c. x = C c \<and> valid c"
  then obtain c where c: "x = C c" "valid c" by blast
  then have "starts_func info x = Some (C (starts c))" "digests (starts c) []"
    using wrap_starts starts_digests by simp_all
  then show "\<exists>c'. starts_func info x = Some c' \<and> (\<exists>c. c' = C c \<and> digests c [])" by blast
qed (auto simp: wrap_alloc uninit_valid digests_valid wrap_digest wrap_hmac wrap_size)

section \<open>The eight tables keep it\<close>

interpretation md2_table: md_wrapped "\<lambda>_. True" md2_digests
  md2_starts md2_updated md2_finish rfc1319_md2 16 "2 ^ 64" md2_opad
  md2_info Md2Ctx md2_uninit
  by unfold_locales (simp_all add: md2_info_def md2_ctx_alloc_def md2_starts_wrap_def md2_update_wrap_def
      md2_finish_wrap_def case_prod_beta md2_uninit_def
      md2_rfc1319 md2_hmac_spec md2_updated length_rfc1319_md2)

interpretation md4_table: md_wrapped "\<lambda>ctx. length (buffer ctx) = 64" md4_digests
  md4_starts md4_update md4_finish rfc1320_md4 64 "2 ^ 32" opad
  md4_info Md4Ctx md4_uninit
  by unfold_locales (simp_all add: md4_info_def md4_ctx_alloc_def md4_starts_wrap_def md4_update_wrap_def
      md4_finish_wrap_def case_prod_beta md4_uninit_def md4_digests_def md_absorbed_def
      md4_rfc1320 md4_hmac_spec length_rfc1320_md4)

interpretation md5_table: md_wrapped "\<lambda>ctx. length (buffer ctx) = 64" md5_digests
  md5_starts md5_update md5_finish rfc1321_md5 64 "2 ^ 32" opad
  md5_info Md5Ctx md5_uninit
  by unfold_locales (simp_all add: md5_info_def md5_ctx_alloc_def md5_starts_wrap_def md5_update_wrap_def
      md5_finish_wrap_def case_prod_beta md5_uninit_def md5_digests_def md_absorbed_def
      md5_rfc1321 md5_hmac_spec length_rfc1321_md5)

interpretation sha1_table: md_wrapped "\<lambda>ctx. length (buffer ctx) = 64" sha1_digests
  sha1_starts sha1_update sha1_finish fips_sha1 64 "2 ^ 32" opad
  sha1_info Sha1Ctx sha1_uninit
  by unfold_locales (simp_all add: sha1_info_def sha1_ctx_alloc_def sha1_starts_wrap_def sha1_update_wrap_def
      sha1_finish_wrap_def case_prod_beta sha1_uninit_def sha1_digests_def md_absorbed_def
      sha1_fips sha1_hmac_spec length_fips_sha1)

interpretation sha224_table: md_wrapped "\<lambda>ctx. length (buffer ctx) = 64" "sha2_digests True"
  "\<lambda>ctx. sha2_starts ctx True" sha2_update sha2_finish "fips_sha256 True" 64 "2 ^ 32" opad
  sha224_info Sha2Ctx sha2_uninit
  by unfold_locales (simp_all add: sha224_info_def sha224_ctx_alloc_def sha224_starts_wrap_def sha224_update_wrap_def
      sha224_finish_wrap_def case_prod_beta sha224_wrap_def sha224_hmac_wrap_def sha2_uninit_def sha2_digests_def md_absorbed_def
      sha2_fips sha2_hmac_spec length_fips_sha256)

interpretation sha256_table: md_wrapped "\<lambda>ctx. length (buffer ctx) = 64" "sha2_digests False"
  "\<lambda>ctx. sha2_starts ctx False" sha2_update sha2_finish "fips_sha256 False" 64 "2 ^ 32" opad
  sha256_info Sha2Ctx sha2_uninit
  by unfold_locales (simp_all add: sha256_info_def sha256_ctx_alloc_def sha256_starts_wrap_def sha256_update_wrap_def
      sha256_finish_wrap_def case_prod_beta sha256_wrap_def sha256_hmac_wrap_def sha2_uninit_def sha2_digests_def md_absorbed_def
      sha2_fips sha2_hmac_spec length_fips_sha256)

interpretation sha384_table: md_wrapped "\<lambda>ctx. length (buffer ctx) = 128" "sha4_digests True"
  "\<lambda>ctx. sha4_starts ctx True" sha4_update sha4_finish "fips_sha512 True" 128 "2 ^ 64" opad
  sha384_info Sha4Ctx sha4_uninit
  by unfold_locales (simp_all add: sha384_info_def sha384_ctx_alloc_def sha384_starts_wrap_def sha384_update_wrap_def
      sha384_finish_wrap_def case_prod_beta sha384_wrap_def sha384_hmac_wrap_def sha4_uninit_def sha4_digests_def md_absorbed_def
      sha4_fips sha4_hmac_spec length_fips_sha512)

interpretation sha512_table: md_wrapped "\<lambda>ctx. length (buffer ctx) = 128" "sha4_digests False"
  "\<lambda>ctx. sha4_starts ctx False" sha4_update sha4_finish "fips_sha512 False" 128 "2 ^ 64" opad
  sha512_info Sha4Ctx sha4_uninit
  by unfold_locales (simp_all add: sha512_info_def sha512_ctx_alloc_def sha512_starts_wrap_def sha512_update_wrap_def
      sha512_finish_wrap_def case_prod_beta sha512_wrap_def sha512_hmac_wrap_def sha4_uninit_def sha4_digests_def md_absorbed_def
      sha4_fips sha4_hmac_spec length_fips_sha512)

end
