(* ===== verification/MdInterface.thy ===== *)
theory MdInterface
  imports MdWrap
begin

text \<open>
  \<^verbatim>\<open>setsync/crypto/md.c\<close>, over the tables of \<open>MdWrap\<close>: the lookup of a table by name or type
  and the functions that call it, with their error codes.  A null pointer is \<open>None\<close>; a
  function returns \<open>None\<close> when it calls a table function on a null or a wrong context.
\<close>

section \<open>Lookup\<close>

definition md_list :: "md_type_t list" where
  "md_list = [POLARSSL_MD_MD2, POLARSSL_MD_MD4, POLARSSL_MD_MD5, POLARSSL_MD_SHA1, POLARSSL_MD_SHA224,
     POLARSSL_MD_SHA256, POLARSSL_MD_SHA384, POLARSSL_MD_SHA512]"

fun md_info_from_type :: "md_type_t \<Rightarrow> md_info_t option" where
  "md_info_from_type POLARSSL_MD_MD2 = Some md2_info"
| "md_info_from_type POLARSSL_MD_MD4 = Some md4_info"
| "md_info_from_type POLARSSL_MD_MD5 = Some md5_info"
| "md_info_from_type POLARSSL_MD_SHA1 = Some sha1_info"
| "md_info_from_type POLARSSL_MD_SHA224 = Some sha224_info"
| "md_info_from_type POLARSSL_MD_SHA256 = Some sha256_info"
| "md_info_from_type POLARSSL_MD_SHA384 = Some sha384_info"
| "md_info_from_type POLARSSL_MD_SHA512 = Some sha512_info"
| "md_info_from_type POLARSSL_MD_NONE = None"

text \<open>\<^verbatim>\<open>tolower\<close> and \<^verbatim>\<open>strcasecmp\<close> of the C library, in the C locale.\<close>

definition tolower :: "char \<Rightarrow> char" where
  "tolower c = (let n = of_char c :: nat in if 65 \<le> n \<and> n \<le> 90 then char_of (n + 32) else c)"

definition strcasecmp_eq :: "string \<Rightarrow> string \<Rightarrow> bool" where
  "strcasecmp_eq a b \<longleftrightarrow> map tolower a = map tolower b"

definition md_info_from_string :: "string option \<Rightarrow> md_info_t option" where
  "md_info_from_string name =
     (case name of
        None \<Rightarrow> None
      | Some name \<Rightarrow>
          if strcasecmp_eq ''MD2'' name then md_info_from_type POLARSSL_MD_MD2
          else if strcasecmp_eq ''MD4'' name then md_info_from_type POLARSSL_MD_MD4
          else if strcasecmp_eq ''MD5'' name then md_info_from_type POLARSSL_MD_MD5
          else if strcasecmp_eq ''SHA1'' name \<or> strcasecmp_eq ''SHA'' name
          then md_info_from_type POLARSSL_MD_SHA1
          else if strcasecmp_eq ''SHA224'' name then md_info_from_type POLARSSL_MD_SHA224
          else if strcasecmp_eq ''SHA256'' name then md_info_from_type POLARSSL_MD_SHA256
          else if strcasecmp_eq ''SHA384'' name then md_info_from_type POLARSSL_MD_SHA384
          else if strcasecmp_eq ''SHA512'' name then md_info_from_type POLARSSL_MD_SHA512
          else None)"

section \<open>Contexts\<close>

record md_context_t =
  md_info :: "md_info_t option"
  md_state :: "md_ctx option"

definition md_init_ctx :: "bool \<Rightarrow> md_context_t option \<Rightarrow> md_info_t option \<Rightarrow>
    (int \<times> md_context_t option) option" where
  "md_init_ctx mem ctx info =
     (case (info, ctx) of
        (Some info, Some _) \<Rightarrow>
          (let ctx = \<lparr>md_info = None, md_state = None\<rparr>
           in case ctx_alloc_func info mem of
                None \<Rightarrow> Some (POLARSSL_ERR_MD_ALLOC_FAILED, Some ctx)
              | Some c \<Rightarrow>
                  (case starts_func info c of
                     None \<Rightarrow> None
                   | Some c \<Rightarrow> Some (0, Some \<lparr>md_info = Some info, md_state = Some c\<rparr>)))
      | _ \<Rightarrow> Some (POLARSSL_ERR_MD_BAD_INPUT_DATA, ctx))"

definition md_free_ctx :: "md_context_t option \<Rightarrow> int \<times> md_context_t option" where
  "md_free_ctx ctx =
     (case ctx of
        None \<Rightarrow> (POLARSSL_ERR_MD_BAD_INPUT_DATA, ctx)
      | Some c \<Rightarrow>
          if md_info c = None then (POLARSSL_ERR_MD_BAD_INPUT_DATA, ctx)
          else (0, Some (c\<lparr>md_state := None\<rparr>)))"

text \<open>The guard and the call that the other functions share; \<open>out\<close> is what the call writes.\<close>

definition md_call :: "(md_info_t \<Rightarrow> md_ctx \<Rightarrow> (md_ctx \<times> 'a) option) \<Rightarrow> md_context_t option \<Rightarrow>
    (int \<times> md_context_t option \<times> 'a option) option" where
  "md_call f ctx =
     (case ctx of
        None \<Rightarrow> Some (POLARSSL_ERR_MD_BAD_INPUT_DATA, ctx, None)
      | Some c \<Rightarrow>
          (case md_info c of
             None \<Rightarrow> Some (POLARSSL_ERR_MD_BAD_INPUT_DATA, ctx, None)
           | Some info \<Rightarrow>
               (case md_state c of
                  None \<Rightarrow> None
                | Some st \<Rightarrow>
                    (case f info st of
                       None \<Rightarrow> None
                     | Some (st, out) \<Rightarrow> Some (0, Some (c\<lparr>md_state := Some st\<rparr>), Some out)))))"

definition no_out :: "md_ctx option \<Rightarrow> (md_ctx \<times> unit) option" where
  "no_out = map_option (\<lambda>c. (c, ()))"

definition md_starts :: "md_context_t option \<Rightarrow> (int \<times> md_context_t option \<times> unit option) option" where
  "md_starts = md_call (\<lambda>info c. no_out (starts_func info c))"

definition md_update :: "md_context_t option \<Rightarrow> bytes \<Rightarrow> (int \<times> md_context_t option \<times> unit option) option" where
  "md_update ctx input = md_call (\<lambda>info c. no_out (update_func info c input)) ctx"

definition md_finish :: "md_context_t option \<Rightarrow> (int \<times> md_context_t option \<times> bytes option) option" where
  "md_finish = md_call finish_func"

definition md :: "md_info_t option \<Rightarrow> bytes \<Rightarrow> (int \<times> bytes option) option" where
  "md info input =
     (case info of
        None \<Rightarrow> Some (POLARSSL_ERR_MD_BAD_INPUT_DATA, None)
      | Some info \<Rightarrow> map_option (\<lambda>output. (0, Some output)) (digest_func info input))"

definition md_file :: "md_info_t option \<Rightarrow> string \<Rightarrow> int" where
  "md_file info path =
     (case info of None \<Rightarrow> POLARSSL_ERR_MD_BAD_INPUT_DATA | Some info \<Rightarrow> POLARSSL_ERR_MD_FEATURE_UNAVAILABLE)"

definition md_hmac_starts :: "md_context_t option \<Rightarrow> bytes \<Rightarrow> (int \<times> md_context_t option \<times> unit option) option" where
  "md_hmac_starts ctx key = md_call (\<lambda>info c. no_out (hmac_starts_func info c key)) ctx"

definition md_hmac_update :: "md_context_t option \<Rightarrow> bytes \<Rightarrow> (int \<times> md_context_t option \<times> unit option) option" where
  "md_hmac_update ctx input = md_call (\<lambda>info c. no_out (hmac_update_func info c input)) ctx"

definition md_hmac_finish :: "md_context_t option \<Rightarrow> (int \<times> md_context_t option \<times> bytes option) option" where
  "md_hmac_finish = md_call hmac_finish_func"

definition md_hmac_reset :: "md_context_t option \<Rightarrow> (int \<times> md_context_t option \<times> unit option) option" where
  "md_hmac_reset = md_call (\<lambda>info c. no_out (hmac_reset_func info c))"

definition md_hmac :: "md_info_t option \<Rightarrow> bytes \<Rightarrow> bytes \<Rightarrow> (int \<times> bytes option) option" where
  "md_hmac info key input =
     (case info of
        None \<Rightarrow> Some (POLARSSL_ERR_MD_BAD_INPUT_DATA, None)
      | Some info \<Rightarrow> map_option (\<lambda>output. (0, Some output)) (hmac_func info key input))"

section \<open>Clients of a table\<close>

text \<open>A stream of updates, as the callers write it, that stops at an error or undefined behaviour.\<close>

fun md_updates :: "md_context_t option \<Rightarrow> bytes list \<Rightarrow> (int \<times> md_context_t option) option" where
  "md_updates ctx [] = Some (0, ctx)"
| "md_updates ctx (c # cs) =
     (case md_update ctx c of
        None \<Rightarrow> None
      | Some (code, ctx, _) \<Rightarrow> if code \<noteq> 0 then Some (code, ctx) else md_updates ctx cs)"

definition md_handle :: "md_info_t \<Rightarrow> md_ctx \<Rightarrow> md_context_t option" where
  "md_handle info c = Some \<lparr>md_info = Some info, md_state = Some c\<rparr>"

context md_provider begin

lemma init: "\<exists>c. md_init_ctx True (Some x) (Some info) = Some (0, md_handle info c) \<and> holds c []"
proof -
  obtain c where c: "ctx_alloc_func info True = Some c" "ok c" using alloc by blast
  obtain c' where "starts_func info c = Some c'" "holds c' []" using starts [OF c(2)] by blast
  with c show ?thesis by (simp add: md_init_ctx_def md_handle_def)
qed

lemma restart: "holds c msg \<Longrightarrow> \<exists>c'. md_starts (md_handle info c) = Some (0, md_handle info c', Some ()) \<and> holds c' []"
  using starts [OF holds_ok] by (fastforce simp: md_starts_def md_call_def md_handle_def no_out_def)

lemma updates:
  "holds c msg \<Longrightarrow> list_all (\<lambda>x. length x < 2 ^ 32) chunks \<Longrightarrow>
   \<exists>c'. md_updates (md_handle info c) chunks = Some (0, md_handle info c') \<and> holds c' (msg @ concat chunks)"
proof (induction chunks arbitrary: c msg)
  case (Cons x xs)
  then obtain c' where c': "update_func info c x = Some c'" "holds c' (msg @ x)"
    using update [of c msg x] by auto
  obtain c'' where "md_updates (md_handle info c') xs = Some (0, md_handle info c'')"
      "holds c'' ((msg @ x) @ concat xs)"
    using Cons.IH [OF c'(2)] Cons.prems by auto
  with c' show ?case by (simp add: md_update_def md_call_def md_handle_def no_out_def)
qed auto

lemma finishes:
  "holds c msg \<Longrightarrow> \<exists>c'. md_finish (md_handle info c) = Some (0, md_handle info c', Some (H msg)) \<and> ok c'"
  using finish by (fastforce simp: md_finish_def md_call_def md_handle_def)

lemma stream:
  assumes "list_all (\<lambda>x. length x < 2 ^ 32) chunks"
  shows "\<exists>ctx ctx' ctx''. md_init_ctx True (Some x) (Some info) = Some (0, ctx) \<and>
    md_updates ctx chunks = Some (0, ctx') \<and> md_finish ctx' = Some (0, ctx'', Some (H (concat chunks)))"
proof -
  obtain c where c: "md_init_ctx True (Some x) (Some info) = Some (0, md_handle info c)" "holds c []"
    using init by blast
  obtain c' where c': "md_updates (md_handle info c) chunks = Some (0, md_handle info c')"
      "holds c' (concat chunks)" using updates [OF c(2) assms] by auto
  from c c' finishes [OF c'(2)] show ?thesis by blast
qed

lemma oneshot: "length input < 2 ^ 32 \<Longrightarrow> md (Some info) input = Some (0, Some (H input))"
  by (simp add: md_def digest)

lemma hmac_oneshot: "length key < 2 ^ 32 \<Longrightarrow> length input < 2 ^ 32 \<Longrightarrow>
    md_hmac (Some info) key input = Some (0, Some (hmac_spec B H key input))"
  by (simp add: md_hmac_def hmac_digest)

end

section \<open>Every algorithm\<close>

text \<open>The published digest and the block size of each type.\<close>

fun md_reference :: "md_type_t \<Rightarrow> bytes \<Rightarrow> bytes" where
  "md_reference POLARSSL_MD_MD2 = rfc1319_md2"
| "md_reference POLARSSL_MD_MD4 = rfc1320_md4"
| "md_reference POLARSSL_MD_MD5 = rfc1321_md5"
| "md_reference POLARSSL_MD_SHA1 = fips_sha1"
| "md_reference POLARSSL_MD_SHA224 = fips_sha256 True"
| "md_reference POLARSSL_MD_SHA256 = fips_sha256 False"
| "md_reference POLARSSL_MD_SHA384 = fips_sha512 True"
| "md_reference POLARSSL_MD_SHA512 = fips_sha512 False"
| "md_reference POLARSSL_MD_NONE = (\<lambda>_. [])"

fun md_block :: "md_type_t \<Rightarrow> nat" where
  "md_block POLARSSL_MD_MD2 = 16"
| "md_block POLARSSL_MD_SHA384 = 128"
| "md_block POLARSSL_MD_SHA512 = 128"
| "md_block _ = 64"

lemma md_info_cases:
  assumes "md_info_from_type t = Some info"
  obtains ok holds where "md_provider info ok holds (md_reference t) (md_block t)"
  using assms md2_table.provider.md_provider_axioms md4_table.provider.md_provider_axioms
    md5_table.provider.md_provider_axioms sha1_table.provider.md_provider_axioms
    sha224_table.provider.md_provider_axioms sha256_table.provider.md_provider_axioms
    sha384_table.provider.md_provider_axioms sha512_table.provider.md_provider_axioms
  by (cases t) (auto intro: that)

lemma md_type_of_info: "md_info_from_type t = Some info \<Longrightarrow> md_type info = t"
  by (cases t) (auto simp: md2_info_def md4_info_def md5_info_def sha1_info_def sha224_info_def
      sha256_info_def sha384_info_def sha512_info_def)

lemma md_info_from_string_cases:
  "md_info_from_string (Some s) = Some info \<Longrightarrow> \<exists>t. md_info_from_type t = Some info"
  unfolding md_info_from_string_def option.case by (auto split: if_splits simp del: md_info_from_type.simps)

lemma md_info_from_string_case: "map tolower a = map tolower b \<Longrightarrow>
    md_info_from_string (Some a) = md_info_from_string (Some b)"
  by (simp add: md_info_from_string_def strcasecmp_eq_def)

end
