(* ===== verification/CryptoHash.thy ===== *)
theory CryptoHash
  imports MdInterface
begin

text \<open>
  \<^verbatim>\<open>setsync/crypto/CryptoHash.cpp\<close>, in the build without OpenSSL: the hash function class by
  name, its four \<^verbatim>\<open>hash\<close> overloads and \<^verbatim>\<open>CryptoHashContainer\<close>.  A call returns the code of
  \<^verbatim>\<open>md.c\<close> and the digest it wrote, if any.
\<close>

section \<open>Construction\<close>

record CryptoHash =
  ch_name :: string
  digit :: md_info_t
  ch_size :: u64

text \<open>What a C function sees of a string, and its bytes.\<close>

definition c_str :: "string \<Rightarrow> string" where
  "c_str s = takeWhile (\<lambda>c. c \<noteq> CHR 0x00) s"

definition str_bytes :: "string \<Rightarrow> bytes" where
  "str_bytes s = map of_char s"

definition CryptoHash_init :: "string \<Rightarrow> exn + CryptoHash" where
  "CryptoHash_init name =
     (case md_info_from_string (Some (c_str name)) of
        None \<Rightarrow> Inl (CString ''Crypto hash algorithm not found'')
      | Some d \<Rightarrow> Inr \<lparr>ch_name = name, digit = d, ch_size = word_of_int (md_size d)\<rparr>)"

definition CryptoHash_copy :: "CryptoHash \<Rightarrow> exn + CryptoHash" where
  "CryptoHash_copy h = CryptoHash_init (ch_name h)"

definition getHashSize :: "CryptoHash \<Rightarrow> u64" where
  "getHashSize h = ch_size h"

definition getDefaultName :: string where
  "getDefaultName = ''sha1''"

definition getDefaultDigitLength :: "exn + u64" where
  "getDefaultDigitLength = map_sum id getHashSize (CryptoHash_init getDefaultName)"

section \<open>Hashing\<close>

definition hash_cstr :: "CryptoHash \<Rightarrow> string \<Rightarrow> (int \<times> bytes option) option" where
  "hash_cstr h str = md (Some (digit h)) (str_bytes (c_str str))"

definition hash_data :: "CryptoHash \<Rightarrow> bytes \<Rightarrow> (int \<times> bytes option) option" where
  "hash_data h data = md (Some (digit h)) data"

definition hash_string :: "CryptoHash \<Rightarrow> string \<Rightarrow> (int \<times> bytes option) option" where
  "hash_string h str = md (Some (digit h)) (str_bytes str)"

text \<open>\<^verbatim>\<open>while (in.get(ch) && result == 1)\<close>: the condition takes a character off the stream.\<close>

fun stream_loop :: "int \<Rightarrow> md_context_t option \<Rightarrow> bytes \<Rightarrow> (int \<times> md_context_t option \<times> bytes) option" where
  "stream_loop result ctx [] = Some (result, ctx, [])"
| "stream_loop result ctx (ch # rest) =
     (if result \<noteq> 1 then Some (result, ctx, rest)
      else case md_update ctx [ch] of
             None \<Rightarrow> None
           | Some (result, ctx, _) \<Rightarrow> stream_loop result ctx rest)"

definition hash_istream :: "bool \<Rightarrow> CryptoHash \<Rightarrow> bytes \<Rightarrow> (int \<times> bytes option) option" where
  "hash_istream mem h input =
     (case md_init_ctx mem (Some \<lparr>md_info = None, md_state = None\<rparr>) (Some (digit h)) of
        None \<Rightarrow> None
      | Some (result, ctx) \<Rightarrow>
     (case md_starts ctx of
        None \<Rightarrow> None
      | Some (result, ctx, _) \<Rightarrow>
     (case stream_loop result ctx input of
        None \<Rightarrow> None
      | Some (result, ctx, _) \<Rightarrow>
     (case md_finish ctx of
        None \<Rightarrow> None
      | Some (result, ctx, target_md) \<Rightarrow>
          (case md_free_ctx ctx of (result, ctx) \<Rightarrow> Some (result, target_md))))))"

section \<open>Containers\<close>

record CryptoHashContainer =
  chc_md :: bytes
  chc_hash :: CryptoHash

definition chc_new :: "CryptoHash \<Rightarrow> bytes option \<Rightarrow> CryptoHashContainer" where
  "chc_new h target =
     (let n = unat (getHashSize h)
      in \<lparr>chc_md = (case target of Some x \<Rightarrow> take n x | None \<Rightarrow> replicate n 0), chc_hash = h\<rparr>)"

definition chc_set :: "CryptoHashContainer \<Rightarrow> bytes \<Rightarrow> CryptoHashContainer" where
  "chc_set c x = c\<lparr>chc_md := take (unat (getHashSize (chc_hash c))) x\<rparr>"

definition chc_copy :: "CryptoHashContainer \<Rightarrow> CryptoHashContainer" where
  "chc_copy other = \<lparr>chc_md = take (unat (getHashSize (chc_hash other))) (chc_md other),
     chc_hash = chc_hash other\<rparr>"

definition chc_eq :: "CryptoHashContainer \<Rightarrow> CryptoHashContainer \<Rightarrow> bool" where
  "chc_eq this other =
     (if getHashSize (chc_hash other) \<noteq> getHashSize (chc_hash this) then False
      else if ch_name (chc_hash other) \<noteq> ch_name (chc_hash this) then False
      else let n = unat (getHashSize (chc_hash this)) in take n (chc_md this) = take n (chc_md other))"

definition chc_eq_bytes :: "CryptoHashContainer \<Rightarrow> bytes \<Rightarrow> bool" where
  "chc_eq_bytes this other =
     (let n = unat (getHashSize (chc_hash this)) in take n (chc_md this) = take n other)"

section \<open>Lemmas\<close>

lemma tolower_names:
  "map tolower ''MD2'' = ''md2''" "map tolower ''MD4'' = ''md4''" "map tolower ''MD5'' = ''md5''"
    "map tolower ''SHA1'' = ''sha1''" "map tolower ''SHA'' = ''sha''" "map tolower ''SHA224'' = ''sha224''"
    "map tolower ''SHA256'' = ''sha256''" "map tolower ''SHA384'' = ''sha384''" "map tolower ''SHA512'' = ''sha512''"
    "map tolower ''sha1'' = ''sha1''" "c_str ''sha1'' = ''sha1''" "c_str ''SHA256'' = ''SHA256''"
  by code_simp+

lemma CryptoHash_init_cases:
  assumes "CryptoHash_init name = Inr h"
  obtains t ok holds where "md_info_from_type t = Some (digit h)" "ch_name h = name"
    "ch_size h = word_of_int (md_size (digit h))"
    "md_provider (digit h) ok holds (md_reference t) (md_block t)"
proof -
  obtain d where d: "md_info_from_string (Some (c_str name)) = Some d"
    "h = \<lparr>ch_name = name, digit = d, ch_size = word_of_int (md_size d)\<rparr>"
    using assms by (auto simp: CryptoHash_init_def split: option.splits)
  obtain t where t: "md_info_from_type t = Some d" using md_info_from_string_cases [OF d(1)] by blast
  show thesis by (rule md_info_cases [OF t]) (use d t that in auto)
qed

lemma CryptoHash_init_throws:
  "md_info_from_string (Some (c_str name)) = None \<Longrightarrow> CryptoHash_init name = Inl (CString ''Crypto hash algorithm not found'')"
  by (simp add: CryptoHash_init_def)

lemma md_size_pos: "md_info_from_type t = Some info \<Longrightarrow> 16 \<le> md_size info \<and> md_size info \<le> 64"
  by (cases t) (auto simp: md2_info_def md4_info_def md5_info_def sha1_info_def sha224_info_def
      sha256_info_def sha384_info_def sha512_info_def)

lemma hash_data_reference:
  assumes "CryptoHash_init name = Inr h" "length x < 2 ^ 32"
  shows "\<exists>t. md_info_from_type t = Some (digit h) \<and> hash_data h x = Some (0, Some (md_reference t x)) \<and>
    length (md_reference t x) = unat (getHashSize h)"
proof -
  obtain t ok holds where t: "md_info_from_type t = Some (digit h)"
    "ch_size h = word_of_int (md_size (digit h))"
    "md_provider (digit h) ok holds (md_reference t) (md_block t)"
    using assms(1) by (rule CryptoHash_init_cases)
  have "int (length (md_reference t x)) = md_size (digit h)" using t(3) by (rule md_provider.size)
  moreover have "unat (word_of_int (md_size (digit h)) :: u64) = nat (md_size (digit h))"
    using md_size_pos [OF t(1)] by (simp add: unsigned_of_int take_bit_int_eq_self)
  ultimately have "length (md_reference t x) = unat (getHashSize h)" unfolding getHashSize_def t(2) by linarith
  then show ?thesis using t md_provider.oneshot [OF t(3) assms(2)] by (auto simp: hash_data_def)
qed

text \<open>\<^verbatim>\<open>md_starts\<close> returns 0, so the loop reads one character and stops.\<close>

lemma hash_istream_ignores_input:
  assumes "CryptoHash_init name = Inr h"
  shows "hash_istream True h input = Some (0, snd (the (hash_data h [])))"
proof -
  obtain t ok holds where t: "md_info_from_type t = Some (digit h)"
    "md_provider (digit h) ok holds (md_reference t) (md_block t)"
    using assms by (rule CryptoHash_init_cases)
  let ?i = "digit h" and ?x = "\<lparr>md_info = None, md_state = None\<rparr>"
  obtain c where c: "md_init_ctx True (Some ?x) (Some ?i) = Some (0, md_handle ?i c)" "holds c []"
    using md_provider.init [OF t(2)] by blast
  obtain c' where c': "md_starts (md_handle ?i c) = Some (0, md_handle ?i c', Some ())" "holds c' []"
    using md_provider.restart [OF t(2) c(2)] by blast
  obtain c'' where c'': "md_finish (md_handle ?i c') = Some (0, md_handle ?i c'', Some (md_reference t []))"
    using md_provider.finishes [OF t(2) c'(2)] by blast
  have free: "fst (md_free_ctx (md_handle ?i c'')) = 0" by (simp add: md_free_ctx_def md_handle_def)
  have loop: "\<exists>rest. stream_loop 0 (md_handle ?i c') input = Some (0, md_handle ?i c', rest)"
    by (cases input) auto
  have "md (Some ?i) [] = Some (0, Some (md_reference t []))" using md_provider.oneshot [OF t(2)] by simp
  then show ?thesis unfolding hash_istream_def hash_data_def using c c' c'' loop free
    by (auto simp: case_prod_beta)
qed

end
