(* ===== verification/SetHash.thy ===== *)
theory SetHash
  imports CryptoHash TrieRep
begin

text \<open>
  The hash functions of \<^verbatim>\<open>CryptoHash\<close> as what the trie and the Bloom filter are built on: the
  digest of a byte array and its size.  \<open>junk\<close> is the uninitialised buffer of a new node.
\<close>

lemma init_sha1: "CryptoHash_init ''sha1'' = Inr \<lparr>ch_name = ''sha1'', digit = sha1_info, ch_size = 20\<rparr>"
  unfolding CryptoHash_init_def tolower_names md_info_from_string_def option.case strcasecmp_eq_def tolower_names
  by (simp add: sha1_info_def)

lemma init_md5: "CryptoHash_init ''md5'' = Inr \<lparr>ch_name = ''md5'', digit = md5_info, ch_size = 16\<rparr>"
proof -
  have "map tolower (c_str ''md5'') = ''md5''" by code_simp
  then show ?thesis unfolding CryptoHash_init_def tolower_names md_info_from_string_def option.case strcasecmp_eq_def
    by (simp add: md5_info_def)
qed

lemma init_sha256: "CryptoHash_init ''SHA256'' = Inr \<lparr>ch_name = ''SHA256'', digit = sha256_info, ch_size = 32\<rparr>"
  unfolding CryptoHash_init_def tolower_names md_info_from_string_def option.case strcasecmp_eq_def tolower_names
  by (simp add: sha256_info_def)

definition hash_env :: "CryptoHash \<Rightarrow> bytes \<Rightarrow> trie_env" where
  "hash_env h junk = \<lparr>te_hash = \<lambda>x. the (snd (the (hash_data h x))), te_size = unat (getHashSize h), te_junk = junk\<rparr>"

lemma length_sha2: "length (sha2 x f) = (if f then 28 else 32)"
  by (simp add: sha2_def sha2_finish_def sha2_output_def Let_def blk_finish_def sha2_update_def sha2_starts_def)

lemma length_sha4: "length (sha4 x f) = (if f then 48 else 64)"
  by (simp add: sha4_def sha4_finish_def sha4_output_def Let_def blk_finish_def sha4_update_def sha4_starts_def)

lemma digest_length:
  "md_info_from_type t = Some info \<Longrightarrow> \<exists>d. digest_func info x = Some d \<and> int (length d) = md_size info"
  by (cases t) (auto simp: md2_info_def md4_info_def md5_info_def sha1_info_def sha224_info_def
      sha256_info_def sha384_info_def sha512_info_def md2_rfc1319 length_rfc1319_md2 length_md4 length_md5
      length_sha1 sha224_wrap_def sha256_wrap_def sha384_wrap_def sha512_wrap_def length_sha2 length_sha4)

lemma hash_env_length:
  assumes "CryptoHash_init name = Inr h"
  shows "length (te_hash (hash_env h junk) x) = te_size (hash_env h junk)" "16 \<le> te_size (hash_env h junk)"
proof -
  obtain t where t: "md_info_from_type t = Some (digit h)" "ch_size h = word_of_int (md_size (digit h))"
    using assms by (rule CryptoHash_init_cases)
  obtain d where d: "digest_func (digit h) x = Some d" "int (length d) = md_size (digit h)"
    using digest_length [OF t(1)] by blast
  have u: "unat (word_of_int (md_size (digit h)) :: u64) = nat (md_size (digit h))"
    using md_size_pos [OF t(1)] by (simp add: unsigned_of_int take_bit_int_eq_self)
  show "length (te_hash (hash_env h junk) x) = te_size (hash_env h junk)"
    using d u t(2) by (simp add: hash_env_def hash_data_def md_def getHashSize_def)
  have "16 \<le> nat (md_size (digit h))" using md_size_pos [OF t(1)] by linarith
  then show "16 \<le> te_size (hash_env h junk)" using u t(2) by (simp add: hash_env_def getHashSize_def)
qed

lemma hash_env_trie_hash:
  assumes "CryptoHash_init name = Inr h" "length junk = unat (getHashSize h)"
  shows "trie_hash (hash_env h junk) \<longleftrightarrow> unat (getHashSize h) < 32"
proof
  assume "trie_hash (hash_env h junk)"
  then have "8 * te_size (hash_env h junk) < 256" by (rule trie_hash.size_byte)
  then show "unat (getHashSize h) < 32" by (simp add: hash_env_def)
next
  assume "unat (getHashSize h) < 32"
  moreover have "te_size (hash_env h junk) = unat (getHashSize h)" "te_junk (hash_env h junk) = junk"
    by (simp_all add: hash_env_def)
  ultimately show "trie_hash (hash_env h junk)" using hash_env_length [OF assms(1), of junk] assms(2)
    by unfold_locales auto
qed

text \<open>The algorithms whose digests fit, with any bytes in the uninitialised fields.\<close>

interpretation md5_trie: trie_hash "hash_env \<lparr>ch_name = ''md5'', digit = md5_info, ch_size = 16\<rparr> (replicate 16 b)" for b
  using hash_env_trie_hash [OF init_md5, of "replicate 16 b"] by (simp add: getHashSize_def)

interpretation sha1_trie: trie_hash "hash_env \<lparr>ch_name = ''sha1'', digit = sha1_info, ch_size = 20\<rparr> (replicate 20 b)" for b
  using hash_env_trie_hash [OF init_sha1, of "replicate 20 b"] by (simp add: getHashSize_def)

end
