(* ===== verification/TrieDot.thy ===== *)
theory TrieDot
  imports KeyValueTrie SetHash
begin

text \<open>
  The text of a trie in the language of Graphviz: \<^verbatim>\<open>toString\<close> of a node and of the root and
  \<^verbatim>\<open>toDotString\<close> of the trie.  A node is one block of memory, its hash first; the names of the
  nodes take as many bytes from it as the default digest has, which is 20, whatever the size of
  the trie's hashes.
\<close>

fun decimal :: "nat \<Rightarrow> string" where
  "decimal n = (if n < 10 then [char_of (48 + n)] else decimal (n div 10) @ [char_of (48 + n mod 10)])"

declare decimal.simps [simp del]

definition default_digits :: nat where
  "default_digits = (case getDefaultDigitLength of Inr n \<Rightarrow> unat n | Inl _ \<Rightarrow> 0)"

definition dot_name :: "bytes \<Rightarrow> string" where
  "dot_name block = CryptoHashtoString block default_digits"

text \<open>What lies in memory from the pointers \<^verbatim>\<open>hash\<close>, \<^verbatim>\<open>smaller\<close>, \<^verbatim>\<open>larger\<close> and \<^verbatim>\<open>parent\<close> on.\<close>

definition from_parent :: "trie_node \<Rightarrow> bytes" where "from_parent n = tn_parent n @ tn_prefix n"
definition from_larger :: "trie_node \<Rightarrow> bytes" where "from_larger n = tn_larger n @ from_parent n"
definition from_smaller :: "trie_node \<Rightarrow> bytes" where "from_smaller n = tn_smaller n @ from_larger n"
definition from_hash :: "trie_node \<Rightarrow> bytes" where "from_hash n = tn_hash n @ from_smaller n"

definition endl :: string where "endl = [CHR 0x0A]"
definition quote :: string where "quote = [CHR 0x22]"

definition node_lines :: "string \<Rightarrow> trie_node \<Rightarrow> string" where
  "node_lines nodePrefix n =
     nodePrefix @ dot_name (from_hash n) @ '' ['' @ ''label='' @ quote @
     (if tn_hasChildren n then ''{{'' else '''') @
     ''hash: 0x'' @ CryptoHashtoString (from_hash n) 3 @ ''...'' @
     (if \<not> tn_hasChildren n then [CHR 0x5C] @ ''n0b'' @ ArrayToBitString (tn_hash n) 8 @ ''...'' else '''') @
     (if tn_hasChildren n
      then ''}|{prefix('' @ decimal (unat (tn_prefix_mask n)) @ ''): '' @
        ArrayToBitString (tn_prefix n) (unat (tn_prefix_mask n)) @ ''}}''
      else '''') @ quote @
     (if tn_hasChildren n then '', shape=record'' else '''') @
     (if tn_dirty n then '', color=red'' else '''') @ ''];'' @ endl @
     (if tn_hasParent n
      then nodePrefix @ dot_name (from_hash n) @ '' -> '' @ nodePrefix @ dot_name (from_parent n) @
        '' [style=dotted];'' @ endl
      else '''') @
     (if tn_hasChildren n
      then nodePrefix @ dot_name (from_hash n) @ '' -> '' @ nodePrefix @ dot_name (from_smaller n) @
          '' [label='' @ quote @ ''smaller'' @ quote @ ''];'' @ endl @
        nodePrefix @ dot_name (from_hash n) @ '' -> '' @ nodePrefix @ dot_name (from_larger n) @
          '' [label='' @ quote @ ''larger'' @ quote @ ''];'' @ endl
      else '''')"

text \<open>The recursion is as deep as the trie, at most the number of bits of a hash.\<close>

fun node_toString :: "trie_env \<Rightarrow> nat \<Rightarrow> string \<Rightarrow> trie_node \<Rightarrow> string nprog" where
  "node_toString env 0 nodePrefix n = throw OutOfFuel"
| "node_toString env (Suc fuel) nodePrefix n =
     (if tn_hasChildren n then
        bindE (getSmaller env n) (\<lambda>smaller.
        bindE (node_toString env fuel nodePrefix smaller) (\<lambda>s.
        bindE (getLarger env n) (\<lambda>larger.
        bindE (node_toString env fuel nodePrefix larger) (\<lambda>l.
          ret (node_lines nodePrefix n @ s @ l)))))
      else ret (node_lines nodePrefix n))"

definition root_toString :: "trie_env \<Rightarrow> string \<Rightarrow> string nprog" where
  "root_toString env nodePrefix =
     catchE
       (bindE (root_get env) (\<lambda>n.
          ret (nodePrefix @ ''ROOT [label='' @ quote @ ''ROOT'' @ quote @ ''];'' @ endl @
            nodePrefix @ ''ROOT -> '' @ nodePrefix @ dot_name (from_hash n) @ '' [shape=plaintext];'' @ endl)))
       (\<lambda>_. ret (nodePrefix @ ''ROOT [label='' @ quote @ ''ROOT'' @ quote @ '';shape=plaintext];'' @ endl))"

fun is_DbTrieException :: "exn \<Rightarrow> bool" where
  "is_DbTrieException (DbTrieException m) = True"
| "is_DbTrieException _ = False"

text \<open>Only \<^verbatim>\<open>DbTrieException\<close> is caught, and what was written before it is kept.\<close>

definition toDotString :: "trie_env \<Rightarrow> trie_state \<Rightarrow> string \<Rightarrow> exn + string" where
  "toDotString env ts nodePrefix =
     (case root_toString env nodePrefix (ts_store ts) of
        (Inl e, _) \<Rightarrow> Inl e
      | (Inr r, _) \<Rightarrow>
          (case bindE (root_get env) (node_toString env loop_fuel nodePrefix) (ts_store ts) of
             (Inl e, _) \<Rightarrow> if is_DbTrieException e then Inr r else Inl e
           | (Inr s, _) \<Rightarrow> Inr (r @ s)))"

definition trie_toDotString :: "trie_env \<Rightarrow> trie_state \<Rightarrow> exn + string" where
  "trie_toDotString env ts = toDotString env ts ''N''"

definition trie_toString :: "trie_env \<Rightarrow> trie_state \<Rightarrow> exn + string" where
  "trie_toString env ts = map_sum id (\<lambda>s. ''digraph trie {'' @ endl @ s @ ''}'' @ endl) (trie_toDotString env ts)"

section \<open>Lemmas\<close>

lemma default_digits: "default_digits = 20"
  by (simp add: default_digits_def getDefaultDigitLength_def getDefaultName_def init_sha1 getHashSize_def)

text \<open>The text of a tree, for hashes of 20 bytes.\<close>

definition hex :: "bytes \<Rightarrow> string" where
  "hex k = CryptoHashtoString k 20"

definition tree_node :: "(bytes \<Rightarrow> bytes) \<Rightarrow> string \<Rightarrow> bytes option \<Rightarrow> ptree \<Rightarrow> string \<Rightarrow> string \<Rightarrow> string" where
  "tree_node H p q t label shape =
     p @ hex (thash H t) @ '' [label='' @ quote @ label @ quote @ shape @ ''];'' @ endl @
     (case q of None \<Rightarrow> '''' | Some a \<Rightarrow> p @ hex (thash H t) @ '' -> '' @ p @ hex a @ '' [style=dotted];'' @ endl)"

definition tree_edge :: "(bytes \<Rightarrow> bytes) \<Rightarrow> string \<Rightarrow> ptree \<Rightarrow> ptree \<Rightarrow> string \<Rightarrow> string" where
  "tree_edge H p t u label =
     p @ hex (thash H t) @ '' -> '' @ p @ hex (thash H u) @ '' [label='' @ quote @ label @ quote @ ''];'' @ endl"

fun tree_dot :: "(bytes \<Rightarrow> bytes) \<Rightarrow> string \<Rightarrow> bytes option \<Rightarrow> ptree \<Rightarrow> string" where
  "tree_dot H p q (Tip k) =
     tree_node H p q (Tip k) (''hash: 0x'' @ CryptoHashtoString k 3 @ ''...'' @ [CHR 0x5C] @ ''n0b'' @
       ArrayToBitString k 8 @ ''...'') ''''"
| "tree_dot H p q (Bin m l r) = (let t = Bin m l r in
     tree_node H p q t (''{{hash: 0x'' @ CryptoHashtoString (thash H t) 3 @ ''...}|{prefix('' @ decimal m @ ''): '' @
       ArrayToBitString (akey l) m @ ''}}'') '', shape=record'' @
     tree_edge H p t l ''smaller'' @ tree_edge H p t r ''larger'' @
     tree_dot H p (Some (thash H t)) l @ tree_dot H p (Some (thash H t)) r)"

lemma hex_prefix: "n \<le> length a \<Longrightarrow> CryptoHashtoString (a @ b) n = CryptoHashtoString a n"
  by (induction a n rule: CryptoHashtoString.induct) auto

lemma agree_bits: "agree m p k \<Longrightarrow> ArrayToBitString p m = ArrayToBitString k m"
  by (simp add: ArrayToBitString_def agree_iff)

context trie_hash
begin

lemma node_lines_tree:
  assumes "te_size env = 20" "node_core env t n" "parent_is q n"
  shows "node_lines p n = (case t of
      Tip k \<Rightarrow> tree_dot (te_hash env) p q t
    | Bin m l r \<Rightarrow>
        tree_node (te_hash env) p q t (''{{hash: 0x'' @ CryptoHashtoString (th env t) 3 @ ''...}|{prefix('' @ decimal m @ ''): '' @
          ArrayToBitString (akey l) m @ ''}}'') '', shape=record'' @
        tree_edge (te_hash env) p t l ''smaller'' @ tree_edge (te_hash env) p t r ''larger'')"
proof -
  have sized: "length (tn_hash n) = 20" "length (tn_parent n) = 20" "length (tn_smaller n) = 20" "length (tn_larger n) = 20"
    using node_core_sized [OF assms(2)] assms(1) by (simp_all add: node_sized_def)
  have names: "dot_name (from_hash n) = hex (tn_hash n)" "dot_name (from_parent n) = hex (tn_parent n)"
    "dot_name (from_smaller n) = hex (tn_smaller n)" "dot_name (from_larger n) = hex (tn_larger n)"
    "CryptoHashtoString (from_hash n) 3 = CryptoHashtoString (tn_hash n) 3"
    using sized by (simp_all add: dot_name_def default_digits hex_def from_hash_def from_parent_def from_smaller_def
        from_larger_def hex_prefix)
  show ?thesis
  proof (cases t)
    case (Tip k)
    then show ?thesis using assms(2,3) names by (cases q) (simp_all add: node_lines_def tree_node_def)
  next
    case (Bin m l r)
    have "agree m (tn_prefix n) (akey l)" using assms(2) Bin by simp
    then show ?thesis using assms(2,3) names Bin agree_bits
      by (cases q) (simp_all add: node_lines_def tree_node_def tree_edge_def)
  qed
qed

lemma node_toString_run:
  assumes "te_size env = 20"
  shows "rep env (nodes env st) q t \<Longrightarrow> nodes env st (th env t) = Some n \<Longrightarrow> height t < fuel \<Longrightarrow>
    node_toString env fuel p n st = (Inr (tree_dot (te_hash env) p q t), st)"
proof (induction t arbitrary: q n fuel)
  case (Tip k)
  then obtain f where f: "fuel = Suc f" by (cases fuel) auto
  have n: "node_core env (Tip k) n" "parent_is q n" using Tip.prems by (simp_all add: nodeat_def)
  show ?case using n node_lines_tree [OF assms n] by (simp add: f ret_run)
next
  case (Bin m l r)
  then obtain f where f: "fuel = Suc f" by (cases fuel) auto
  have n: "node_core env (Bin m l r) n" "parent_is q n" using Bin.prems by (simp_all add: nodeat_def)
  have sub: "rep env (nodes env st) (Some (th env (Bin m l r))) l" "rep env (nodes env st) (Some (th env (Bin m l r))) r"
    using Bin.prems(1) by simp_all
  obtain nl nr where k: "nodes env st (th env l) = Some nl" "nodes env st (th env r) = Some nr"
    using rep_present [OF sub(1) subs_self] rep_present [OF sub(2) subs_self] by blast
  have "node_toString env f p nl st = (Inr (tree_dot (te_hash env) p (Some (th env (Bin m l r))) l), st)"
    "node_toString env f p nr st = (Inr (tree_dot (te_hash env) p (Some (th env (Bin m l r))) r), st)"
    using Bin.IH(1) [OF sub(1) k(1)] Bin.IH(2) [OF sub(2) k(2)] Bin.prems(3) f by simp_all
  moreover have "getSmaller env n st = (Inr nl, st)" "getLarger env n st = (Inr nr, st)"
    using n(1) k by (simp_all add: getSmaller_def getLarger_def load_node_Some)
  ultimately show ?case using n(1) node_lines_tree [OF assms n] by (simp add: f bindE_def ret_def Let_def)
qed

end

text \<open>
  The text of a trie with 20-byte hashes is the picture of its tree: the root, and below it every
  node with its label, its edge to its parent and its edges to both children; printing an empty
  trie throws.
\<close>

theorem toDotString_is_tree:
  assumes "trie_hash env" "te_size env = 20" "trie_ok env ts ot"
  shows "toDotString env ts p = (case ot of
      None \<Rightarrow> Inl TrieRootNotFoundException
    | Some t \<Rightarrow> Inr (p @ ''ROOT [label='' @ quote @ ''ROOT'' @ quote @ ''];'' @ endl @
        p @ ''ROOT -> '' @ p @ hex (thash (te_hash env) t) @ '' [shape=plaintext];'' @ endl @
        tree_dot (te_hash env) p None t))"
proof (cases ot)
  case None
  then show ?thesis using assms(3)
    by (simp add: toDotString_def root_toString_def trie_ok_def root_get_None bindE_def catchE_def ret_def)
next
  case (Some t)
  have st: "stored env (ts_store ts) (Some t)" using assms(3) Some by (simp add: trie_ok_def)
  obtain n where n: "root_get env (ts_store ts) = (Inr n, ts_store ts)" "nodes env (ts_store ts) (th env t) = Some n"
    using trie_hash.root_get_Some [OF assms(1) st] by blast
  have rep: "rep env (nodes env (ts_store ts)) None t" and wf: "wf_tree (te_size env) t" using st by simp_all
  have "node_core env t n" using rep n(2) by (cases t) (auto simp: nodeat_def)
  then have "dot_name (from_hash n) = hex (th env t)"
    using node_core_sized [of env t n] node_core_hash [of env t n] assms(2)
    by (simp add: dot_name_def default_digits hex_def from_hash_def hex_prefix node_sized_def)
  moreover have "height t < loop_fuel" using height_le [OF wf] assms(2) by (simp add: loop_fuel_def)
  ultimately show ?thesis using Some n(1) trie_hash.node_toString_run [OF assms(1,2) rep n(2)]
    by (simp add: toDotString_def root_toString_def bindE_def catchE_def ret_def)
qed

definition dot_env :: trie_env where
  "dot_env = hash_env \<lparr>ch_name = ''sha1'', digit = sha1_info, ch_size = 20\<rparr> (replicate 20 0)"

lemma dot_env: "trie_hash dot_env" "te_size dot_env = 20"
  unfolding dot_env_def by (rule sha1_trie.trie_hash_axioms) (simp add: hash_env_def getHashSize_def)

theorem toDotString_is_tree_witness:
  "\<exists>ts. add dot_env (replicate 20 0xAB) True (open_trie (new_storage True)) = (Inr True, ts) \<and>
    toDotString dot_env ts ''N'' = Inr (''NROOT [label='' @ quote @ ''ROOT'' @ quote @ ''];'' @ endl @
      ''NROOT -> N'' @ concat (replicate 20 ''AB'') @ '' [shape=plaintext];'' @ endl @
      ''N'' @ concat (replicate 20 ''AB'') @ '' [label='' @ quote @ ''hash: 0xABABAB...'' @ [CHR 0x5C] @
        ''n0b11010101...'' @ quote @ ''];'' @ endl) \<and>
    toDotString dot_env (open_trie (new_storage True)) ''N'' = Inl TrieRootNotFoundException"
proof -
  let ?k = "replicate 20 0xAB :: bytes"
  have ok: "trie_ok dot_env (open_trie (new_storage True)) None"
    by (simp add: trie_ok_def open_trie_def Let_def)
  have "cf_step (te_hash dot_env) None (opt_insert (te_size dot_env) ?k None)"
    by (simp add: cf_step_def collision_free_def no_clash_def)
  moreover have "unat (ts_size (open_trie (new_storage True))) + 1 < 2 ^ 64" by (simp add: open_trie_def Let_def)
  ultimately obtain ts where ts: "add dot_env ?k True (open_trie (new_storage True)) = (Inr True, ts)" "trie_ok dot_env ts (Some (Tip ?k))"
    using trie_hash.add_refines [OF dot_env(1) ok, of ?k] by (auto simp: dot_env(2))
  have e: "hex ?k = concat (replicate 20 ''AB'')" "CryptoHashtoString ?k 3 = ''ABABAB''" "ArrayToBitString ?k 8 = ''11010101''"
    unfolding hex_def by code_simp+
  show ?thesis using toDotString_is_tree [OF dot_env ts(2), of "''N''"] toDotString_is_tree [OF dot_env ok, of "''N''"] ts(1) e
    by (intro exI [of _ ts]) (simp add: tree_node_def del: replicate.simps)
qed

end
