(* ===== verification/SubTrie.thy ===== *)
theory SubTrie
  imports KeyValueTrie
begin

text \<open>
  \<^verbatim>\<open>KeyValueTrie::getSubTrie\<close>: the hashes that one message of the synchronisation carries for a
  subtree.  The recursion descends from a node, halving the number of hashes it may use, and
  then expands the inner nodes it had to leave over while there is room.  The two vectors are
  lists with their backs at the end; counts are numbers, which no subtraction takes below
  zero, since every call returns at least one and at most what it was allowed.  The bound of
  the recursion is four times the number of leaves, more than the calls on a stored tree.
\<close>

fun sub_nodes :: "trie_env \<Rightarrow> nat \<Rightarrow> trie_node \<Rightarrow> nat \<Rightarrow> trie_node list \<Rightarrow> trie_node list \<Rightarrow>
    (nat \<times> trie_node list \<times> trie_node list) nprog"
  and sub_fill :: "trie_env \<Rightarrow> nat \<Rightarrow> nat \<Rightarrow> nat \<Rightarrow> trie_node list \<Rightarrow> trie_node list \<Rightarrow>
    (nat \<times> trie_node list \<times> trie_node list) nprog"
where
  "sub_nodes env 0 root numberOfNodes inner child = throw OutOfFuel"
| "sub_nodes env (Suc fuel) root numberOfNodes inner child =
     (if tn_hasChildren root \<and> 2 \<le> numberOfNodes then
        bindE (getSmaller env root) (\<lambda>smaller.
        bindE (getLarger env root) (\<lambda>larger.
        bindE (sub_nodes env fuel smaller (numberOfNodes div 2) inner child) (\<lambda>(smallercount, inner, child).
        bindE (sub_nodes env fuel larger (numberOfNodes - smallercount) inner child) (\<lambda>(largercount, inner, child).
          sub_fill env fuel numberOfNodes (smallercount + largercount) inner child))))
      else if tn_hasChildren root then ret (1, inner @ [root], child)
      else ret (1, inner, child @ [root]))"
| "sub_fill env 0 numberOfNodes cnt inner child = throw OutOfFuel"
| "sub_fill env (Suc fuel) numberOfNodes cnt inner child =
     (if cnt < numberOfNodes \<and> 0 < length inner then
        bindE (sub_nodes env fuel (last inner) (numberOfNodes - (cnt - 1)) (butlast inner) child)
          (\<lambda>(c, inner, child). sub_fill env fuel numberOfNodes (cnt - 1 + c) inner child)
      else ret (cnt, inner, child))"

definition subtrie_fuel :: "trie_state \<Rightarrow> nat" where
  "subtrie_fuel ts = 4 * unat (ts_size ts) + 4"

text \<open>The hashes are copied from the backs of the vectors.\<close>

definition node_hash_bytes :: "trie_env \<Rightarrow> trie_node list \<Rightarrow> bytes" where
  "node_hash_bytes env ns = concat (map (\<lambda>n. take (te_size env) (tn_hash n)) (rev ns))"

definition getSubTrie :: "trie_env \<Rightarrow> trie_state \<Rightarrow> bytes \<Rightarrow> bytes \<Rightarrow> nat \<Rightarrow> exn + (nat \<times> bytes)" where
  "getSubTrie env ts hash buffer buffersize =
     (let maxNumberOfHashes = buffersize div te_size env
      in if maxNumberOfHashes < 2 then Inl (CString ''buffer is too small!'')
         else case bindE (load_node env hash)
                (\<lambda>root. sub_nodes env (subtrie_fuel ts) root maxNumberOfHashes [] []) (ts_store ts) of
           (Inl e, _) \<Rightarrow> Inl e
         | (Inr (subtriesize, inner, child), _) \<Rightarrow>
             Inr (subtriesize * te_size env,
               memcpy_at buffer 0 (node_hash_bytes env inner @ node_hash_bytes env child)))"

section \<open>The frontier of a subtree\<close>

text \<open>
  A node of the storage stands for a subtree of the stored tree.  A frontier is the trees of
  the two vectors; what it holds is the keys below it, and its weight, the number of nodes
  below it, bounds the recursion.
\<close>

definition node_at :: "trie_env \<Rightarrow> kvstore \<Rightarrow> ptree \<Rightarrow> ptree \<Rightarrow> trie_node \<Rightarrow> bool" where
  "node_at env st t u n \<longleftrightarrow> u \<in> set (subs t) \<and> nodes env st (th env u) = Some n"

fun is_bin :: "ptree \<Rightarrow> bool" where
  "is_bin (Tip k) = False"
| "is_bin (Bin m l r) = True"

definition frontier :: "trie_env \<Rightarrow> kvstore \<Rightarrow> ptree \<Rightarrow> ptree list \<Rightarrow> ptree list \<Rightarrow> trie_node list \<Rightarrow> trie_node list \<Rightarrow> bool" where
  "frontier env st t us cs inner child \<longleftrightarrow>
     list_all2 (node_at env st t) us inner \<and> list_all2 (node_at env st t) cs child \<and>
     list_all is_bin us \<and> list_all (\<lambda>c. \<not> is_bin c) cs"

definition weight :: "ptree list \<Rightarrow> nat" where
  "weight us = sum_list (map (\<lambda>u. length (subs u)) us)"

definition below :: "ptree list \<Rightarrow> bytes multiset" where
  "below us = mset (concat (map key_list us))"

lemma weight_simps [simp]: "weight [] = 0" "weight (u # us) = length (subs u) + weight us"
  "weight (us @ vs) = weight us + weight vs"
  by (simp_all add: weight_def)

lemma below_simps [simp]: "below [] = {#}" "below (u # us) = mset (key_list u) + below us"
  "below (us @ vs) = below us + below vs"
  by (simp_all add: below_def)

lemma below_rev: "below (rev us) = below us"
  by (induction us) simp_all

lemma weight_rev: "weight (rev us) = weight us"
  by (simp add: weight_def flip: rev_map)

lemma length_subs_pos: "0 < length (subs u)"
  by (cases u) simp_all

lemma length_subs: "length (subs u) + 1 = 2 * length (key_list u)"
  by (induction u) auto

lemma subs_length_le: "u \<in> set (subs t) \<Longrightarrow> length (subs u) \<le> length (subs t)"
  by (induction t) fastforce+

context trie_hash
begin

lemma node_at_children:
  assumes st: "stored env st (Some t)" and n: "node_at env st t (Bin m l r) n"
  obtains nl nr where "tn_hasChildren n" "getSmaller env n st = (Inr nl, st)" "node_at env st t l nl"
    "getLarger env n st = (Inr nr, st)" "node_at env st t r nr"
proof -
  have u: "Bin m l r \<in> set (subs t)" "nodes env st (th env (Bin m l r)) = Some n" using n by (simp_all add: node_at_def)
  obtain c where c: "t = plug c (Bin m l r)" using subs_plug_ex [OF u(1)] by blast
  have core: "node_core env (Bin m l r) n" using stored_subtree(1) [of st c "Bin m l r" n] st u(2) c by simp
  have sub: "l \<in> set (subs t)" "r \<in> set (subs t)" using u(1) by (auto intro: subs_trans [of _ "Bin m l r"])
  have rep: "rep env (nodes env st) None t" using st by simp
  obtain nl nr where k: "nodes env st (th env l) = Some nl" "nodes env st (th env r) = Some nr"
    using rep_present [OF rep sub(1)] rep_present [OF rep sub(2)] by blast
  show thesis by (rule that [of nl nr])
    (use core sub k in \<open>simp_all add: getSmaller_def getLarger_def load_node_Some node_at_def\<close>)
qed

lemma node_at_tip:
  assumes st: "stored env st (Some t)" and n: "node_at env st t (Tip k) n"
  shows "\<not> tn_hasChildren n"
proof -
  have u: "Tip k \<in> set (subs t)" "nodes env st (th env (Tip k)) = Some n" using n by (simp_all add: node_at_def)
  obtain c where c: "t = plug c (Tip k)" using subs_plug_ex [OF u(1)] by blast
  show ?thesis using stored_subtree(1) [of st c "Tip k" n] st u(2) c by simp
qed

lemma frontier_last:
  assumes "frontier env st t us cs inner child" "0 < length inner"
  obtains us' u where "us = us' @ [u]" "is_bin u" "node_at env st t u (last inner)"
    "frontier env st t us' cs (butlast inner) child"
proof -
  have len: "length us = length inner" using assms(1) by (auto simp: frontier_def list_all2_lengthD)
  then have "us \<noteq> []" "inner \<noteq> []" using assms(2) by auto
  then obtain us' u inner' n where e: "us = us' @ [u]" "inner = inner' @ [n]" by (meson rev_exhaust)
  then show thesis using assms(1) len list_all2_append [of us' inner' "node_at env st t" "[u]" "[n]"]
    by (intro that [of us' u]) (simp_all add: frontier_def)
qed

lemma sub_nodes_run:
  assumes st: "stored env st (Some t)"
  shows "\<And>root n inner child u us cs. node_at env st t u root \<Longrightarrow> frontier env st t us cs inner child \<Longrightarrow> 1 \<le> n \<Longrightarrow>
     2 * (length (subs u) + weight us + weight cs) + 1 \<le> fuel \<Longrightarrow>
     \<exists>c us' cs' inner' child'. sub_nodes env fuel root n inner child st = (Inr (c, inner', child'), st) \<and>
       frontier env st t us' cs' inner' child' \<and> length us' + length cs' = length us + length cs + c \<and>
       1 \<le> c \<and> c \<le> n \<and> (is_bin u \<and> 2 \<le> n \<longrightarrow> 2 \<le> c) \<and>
       below (us' @ cs') = below (u # us @ cs) \<and>
       weight (us' @ cs') \<le> weight (u # us @ cs) \<and> (is_bin u \<and> 2 \<le> n \<longrightarrow> weight (us' @ cs') < weight (u # us @ cs))"
    and "\<And>n k inner child us cs. frontier env st t us cs inner child \<Longrightarrow> 1 \<le> k \<Longrightarrow> k \<le> n \<Longrightarrow>
     2 * (weight us + weight cs) + 2 \<le> fuel \<Longrightarrow>
     \<exists>c us' cs' inner' child'. sub_fill env fuel n k inner child st = (Inr (c, inner', child'), st) \<and>
       frontier env st t us' cs' inner' child' \<and> length us' + length cs' + k = length us + length cs + c \<and>
       k \<le> c \<and> c \<le> n \<and> below (us' @ cs') = below (us @ cs) \<and> weight (us' @ cs') \<le> weight (us @ cs)"
proof (induction fuel)
  case 0
  {
    case 1
    then show ?case by simp
  next
    case 2
    then show ?case by simp
  }
next
  case (Suc fuel)
  {
    case (1 root n inner child u us cs)
    show ?case
    proof (cases u)
      case (Tip k)
      have "\<not> tn_hasChildren root" using node_at_tip [OF st] 1(1) Tip by simp
      moreover have "frontier env st t us (cs @ [u]) inner (child @ [root])"
        using 1(1,2) Tip by (simp add: frontier_def list_all2_appendI)
      ultimately show ?thesis using 1(3) Tip
        by (intro exI [of _ 1] exI [of _ us] exI [of _ "cs @ [u]"] exI [of _ inner] exI [of _ "child @ [root]"])
          (simp add: ret_run)
    next
      case (Bin m l r)
      obtain nl nr where k: "tn_hasChildren root" "getSmaller env root st = (Inr nl, st)" "node_at env st t l nl"
        "getLarger env root st = (Inr nr, st)" "node_at env st t r nr"
        using node_at_children [OF st] 1(1) Bin by metis
      show ?thesis
      proof (cases "2 \<le> n")
        case False
        have "frontier env st t (us @ [u]) cs (inner @ [root]) child"
          using 1(1,2) Bin by (simp add: frontier_def list_all2_appendI)
        then show ?thesis using 1(3) Bin False k(1)
          by (intro exI [of _ 1] exI [of _ "us @ [u]"] exI [of _ cs] exI [of _ "inner @ [root]"] exI [of _ child])
            (simp add: ret_run)
      next
        case True
        have h: "1 \<le> n div 2" "2 * (length (subs l) + weight us + weight cs) + 1 \<le> fuel"
          using 1(4) True Bin by simp_all
        obtain c1 us1 cs1 inner1 child1 where s1: "sub_nodes env fuel nl (n div 2) inner child st = (Inr (c1, inner1, child1), st)"
          "frontier env st t us1 cs1 inner1 child1" "length us1 + length cs1 = length us + length cs + c1"
          "1 \<le> c1" "c1 \<le> n div 2" "below (us1 @ cs1) = below (l # us @ cs)" "weight (us1 @ cs1) \<le> weight (l # us @ cs)"
          using Suc.IH(1) [OF k(3) 1(2) h] by blast
        have h2: "1 \<le> n - c1" "2 * (length (subs r) + weight us1 + weight cs1) + 1 \<le> fuel"
          using 1(4) True Bin s1(5,7) by simp_all
        obtain c2 us2 cs2 inner2 child2 where s2: "sub_nodes env fuel nr (n - c1) inner1 child1 st = (Inr (c2, inner2, child2), st)"
          "frontier env st t us2 cs2 inner2 child2" "length us2 + length cs2 = length us1 + length cs1 + c2"
          "1 \<le> c2" "c2 \<le> n - c1" "below (us2 @ cs2) = below (r # us1 @ cs1)" "weight (us2 @ cs2) \<le> weight (r # us1 @ cs1)"
          using Suc.IH(1) [OF k(5) s1(2) h2] by blast
        have h3: "1 \<le> c1 + c2" "c1 + c2 \<le> n" "2 * (weight us2 + weight cs2) + 2 \<le> fuel"
          using 1(4) True Bin s1(4,5,7) s2(5,7) by simp_all
        obtain c3 us3 cs3 inner3 child3 where s3: "sub_fill env fuel n (c1 + c2) inner2 child2 st = (Inr (c3, inner3, child3), st)"
          "frontier env st t us3 cs3 inner3 child3" "length us3 + length cs3 + (c1 + c2) = length us2 + length cs2 + c3"
          "c1 + c2 \<le> c3" "c3 \<le> n" "below (us3 @ cs3) = below (us2 @ cs2)" "weight (us3 @ cs3) \<le> weight (us2 @ cs2)"
          using Suc.IH(2) [OF s2(2) h3] by blast
        have "sub_nodes env (Suc fuel) root n inner child st = (Inr (c3, inner3, child3), st)"
          using k(1,2,4) True s1(1) s2(1) s3(1) by (simp add: bindE_def)
        then show ?thesis using Bin s1(3-7) s2(3-7) s3(2-7)
          by (intro exI [of _ c3] exI [of _ us3] exI [of _ cs3] exI [of _ inner3] exI [of _ child3])
            (simp add: ac_simps)
      qed
    qed
  next
    case (2 n k inner child us cs)
    show ?case
    proof (cases "k < n \<and> 0 < length inner")
      case False
      then show ?thesis using 2
        by (intro exI [of _ k] exI [of _ us] exI [of _ cs] exI [of _ inner] exI [of _ child]) (auto simp: ret_run)
    next
      case True
      then have "0 < length inner" by simp
      with 2(1) obtain us0 u where u: "us = us0 @ [u]" "is_bin u" "node_at env st t u (last inner)"
        "frontier env st t us0 cs (butlast inner) child" by (rule frontier_last)
      have k: "k - 1 < k" "k < n" using 2(2) True by simp_all
      then have "2 \<le> n - (k - 1)" by arith
      then have h: "1 \<le> n - (k - 1)" "2 \<le> n - (k - 1)" "2 * (length (subs u) + weight us0 + weight cs) + 1 \<le> fuel"
        using 2(4) k u(1) by auto
      obtain c1 us1 cs1 inner1 child1 where s1:
        "sub_nodes env fuel (last inner) (n - (k - 1)) (butlast inner) child st = (Inr (c1, inner1, child1), st)"
        "frontier env st t us1 cs1 inner1 child1" "length us1 + length cs1 = length us0 + length cs + c1"
        "2 \<le> c1" "c1 \<le> n - (k - 1)" "below (us1 @ cs1) = below (u # us0 @ cs)" "weight (us1 @ cs1) < weight (u # us0 @ cs)"
        using Suc.IH(1) [OF u(3,4) h(1,3)] u(2) h(2) by blast
      have h2: "1 \<le> k - 1 + c1" "k - 1 + c1 \<le> n" "2 * (weight us1 + weight cs1) + 2 \<le> fuel"
        using 2(2-4) True u(1) s1(4,5,7) by simp_all
      obtain c2 us2 cs2 inner2 child2 where s2: "sub_fill env fuel n (k - 1 + c1) inner1 child1 st = (Inr (c2, inner2, child2), st)"
        "frontier env st t us2 cs2 inner2 child2" "length us2 + length cs2 + (k - 1 + c1) = length us1 + length cs1 + c2"
        "k - 1 + c1 \<le> c2" "c2 \<le> n" "below (us2 @ cs2) = below (us1 @ cs1)" "weight (us2 @ cs2) \<le> weight (us1 @ cs1)"
        using Suc.IH(2) [OF s1(2) h2] by blast
      have "sub_fill env (Suc fuel) n k inner child st = (Inr (c2, inner2, child2), st)"
        using True s1(1) s2(1) by (simp add: bindE_def)
      moreover have "length us2 + length cs2 + k = length us + length cs + c2" "k \<le> c2"
        using s1(3,4) s2(3,4) u(1) 2(2) by simp_all
      moreover have "below (us2 @ cs2) = below (us @ cs)" "weight (us2 @ cs2) \<le> weight (us @ cs)"
        using s1(6,7) s2(6,7) u(1) by (simp_all add: ac_simps)
      ultimately show ?thesis using s2(2,5) by blast
    qed
  }
qed

text \<open>The whole function, on the hash of a subtree of the trie.\<close>

text \<open>The whole function, on the hash of a subtree of the trie.\<close>

lemma below_empty: "below vs = {#} \<Longrightarrow> vs = []"
  by (cases vs) auto

lemma below_single: "below vs = {#k#} \<Longrightarrow> vs = [Tip k]"
proof (cases vs)
  case (Cons v vs')
  assume b: "below vs = {#k#}"
  then have "size (mset (key_list v)) + size (below vs') = 1" using Cons by (metis below_simps(2) size_single size_union)
  moreover have "1 \<le> length (key_list v)" using length_key_list_pos [of v] by linarith
  ultimately have e: "length (key_list v) = 1 \<and> size (below vs') = 0" unfolding size_mset by linarith
  then show ?thesis using b Cons below_empty [of vs'] by (cases v) (auto simp: add_is_1)
qed simp

lemma node_hash_bytes_trees:
  assumes st: "stored env st (Some t)" and "list_all2 (node_at env st t) us ns"
  shows "node_hash_bytes env ns = concat (map (th env) (rev us))"
  using assms(2)
proof (induction us ns rule: list_all2_induct)
  case (Cons u us n ns)
  obtain c where c: "t = plug c u" using Cons(1) subs_plug_ex by (auto simp: node_at_def)
  then have "node_core env u n" using stored_subtree(1) [of st c u n] st Cons(1) by (simp add: node_at_def)
  then have "tn_hash n = th env u" by (rule node_core_hash)
  moreover have "length (th env u) = te_size env" using st c wf_plugD by (intro length_thash) auto
  ultimately show ?case using Cons(3) by (simp add: node_hash_bytes_def)
qed (simp add: node_hash_bytes_def)

lemma getSubTrie_run:
  assumes ok: "trie_ok env ts (Some t)" and u: "u \<in> set (subs t)" and n: "2 \<le> buffersize div te_size env"
  shows "\<exists>vs. getSubTrie env ts (th env u) buffer buffersize =
      Inr (length vs * te_size env, memcpy_at buffer 0 (concat (map (th env) vs))) \<and>
    set vs \<subseteq> set (subs t) \<and> vs \<noteq> [] \<and> length vs \<le> buffersize div te_size env \<and> below vs = mset (key_list u) \<and>
    (if is_bin u then 2 \<le> length vs \<and> weight vs < length (subs u) else vs = [u])"
proof -
  have st: "stored env (ts_store ts) (Some t)" using ok by (simp add: trie_ok_def)
  then have rep: "rep env (nodes env (ts_store ts)) None t" by simp
  obtain root where root: "nodes env (ts_store ts) (th env u) = Some root" using rep_present [OF rep u] by blast
  have at: "node_at env (ts_store ts) t u root" using u root by (simp add: node_at_def)
  have fr: "frontier env (ts_store ts) t [] [] [] []" by (simp add: frontier_def)
  have "unat (ts_size ts) = length (key_list t)" using ok by (simp add: trie_ok_def)
  then have fuel: "2 * (length (subs u) + weight [] + weight []) + 1 \<le> subtrie_fuel ts"
    using subs_length_le [OF u] length_subs [of t] by (simp add: subtrie_fuel_def)
  let ?n = "buffersize div te_size env"
  have n1: "1 \<le> ?n" using n by simp
  obtain c us cs inner child where r:
    "sub_nodes env (subtrie_fuel ts) root ?n [] [] (ts_store ts) = (Inr (c, inner, child), ts_store ts)"
    "frontier env (ts_store ts) t us cs inner child" "length us + length cs = length ([] :: ptree list) + length ([] :: ptree list) + c"
    "1 \<le> c" "c \<le> ?n" "is_bin u \<and> 2 \<le> ?n \<longrightarrow> 2 \<le> c" "below (us @ cs) = below (u # [] @ [])"
    "weight (us @ cs) \<le> weight (u # [] @ [])" "is_bin u \<and> 2 \<le> ?n \<longrightarrow> weight (us @ cs) < weight (u # [] @ [])"
    using sub_nodes_run(1) [OF st at fr n1 fuel] by blast
  let ?vs = "rev us @ rev cs"
  have "load_node env (th env u) (ts_store ts) = (Inr root, ts_store ts)" using root by (rule load_node_Some)
  moreover have "node_hash_bytes env inner @ node_hash_bytes env child = concat (map (th env) ?vs)"
    using r(2) node_hash_bytes_trees [OF st] by (auto simp: frontier_def)
  ultimately have run: "getSubTrie env ts (th env u) buffer buffersize =
      Inr (length ?vs * te_size env, memcpy_at buffer 0 (concat (map (th env) ?vs)))"
    using n r(1,3) by (simp add: getSubTrie_def Let_def bindE_def)
  have sub: "set ?vs \<subseteq> set (subs t)"
    using r(2) by (fastforce simp: frontier_def list_all2_conv_all_nth node_at_def in_set_conv_nth)
  have bw: "below ?vs = below (us @ cs)" "weight ?vs = weight (us @ cs)"
    by (simp_all add: below_rev weight_rev)
  have single: "?vs = [u]" if "\<not> is_bin u"
    using that below_single [of ?vs] bw(1) r(7) by (cases u) simp_all
  have "length ?vs = c" using r(3) by simp
  then have "?vs \<noteq> []" "length ?vs \<le> ?n" "is_bin u \<Longrightarrow> 2 \<le> length ?vs" "is_bin u \<Longrightarrow> weight ?vs < length (subs u)"
    using r(4-6,9) n bw(2) by auto
  moreover have "below ?vs = mset (key_list u)" using bw(1) r(7) by simp
  ultimately show ?thesis using run sub single by (intro exI [of _ ?vs]) simp
qed

end

end
