(* ===== verification/Trie2Dot.thy ===== *)
theory Trie2Dot
  imports TrieDot SubTrie
begin

text \<open>
  The program \<^verbatim>\<open>tools/Trie2Dot.cpp\<close>: it fills two tries with a few strings and prints both, and
  then colours in both the nodes of the first message that the first trie would send.  The
  storages start empty, and what is printed is the result.
\<close>

definition leafs :: nat where "leafs = 6"

definition max_cut_size :: nat where "max_cut_size = 5"

definition leaf_string :: "nat \<Rightarrow> string" where
  "leaf_string i = ''test'' @ decimal i"

definition add_both :: "trie_env \<Rightarrow> nat \<Rightarrow> (trie_state \<times> trie_state, unit) prog" where
  "add_both env i = (\<lambda>(t1, t2).
     case add_string env (str_bytes (leaf_string i)) True t1 of
       (Inl e, t1) \<Rightarrow> (Inl e, (t1, t2))
     | (Inr _, t1) \<Rightarrow>
         if 0 < i then
           (case add_string env (str_bytes (leaf_string i)) True t2 of
              (Inl e, t2) \<Rightarrow> (Inl e, (t1, t2))
            | (Inr _, t2) \<Rightarrow> (Inr (), (t1, t2)))
         else (Inr (), (t1, t2)))"

text \<open>The lines for the hash at one place of the buffer.\<close>

definition style_line :: "string \<Rightarrow> bytes \<Rightarrow> string \<Rightarrow> string" where
  "style_line prefix block colour =
     prefix @ dot_name block @ '' [style=filled color='' @ quote @ colour @ quote @ ''];'' @ endl"

definition cut_lines :: "trie_env \<Rightarrow> trie_state \<Rightarrow> bytes \<Rightarrow> nat \<Rightarrow> string" where
  "cut_lines env ts buf j =
     (let block = drop (j * te_size env) buf;
          colour = (if contains env ts (take (te_size env) block) = LEAF_NODE then ''green'' else ''grey'')
      in style_line ''N'' block colour @ style_line ''_'' block colour)"

definition cut_text :: "trie_env \<Rightarrow> bytes \<Rightarrow> bytes \<Rightarrow> trie_state \<Rightarrow> exn + string" where
  "cut_text env junk_root buf ts =
     (let root = (case getRoot env ts of Some h \<Rightarrow> h | None \<Rightarrow> junk_root)
      in map_sum id (\<lambda>(cutsize, buf). concat (map (cut_lines env ts buf) [0..<cutsize div te_size env]))
           (getSubTrie env ts root buf (te_size env * max_cut_size)))"

definition out :: "trie_env \<Rightarrow> bytes \<Rightarrow> bytes \<Rightarrow> exn + string" where
  "out env junk_root buf =
     (let empty = open_trie (new_storage True)
      in case forE [0..<leafs] (add_both env) (empty, empty) of
           (Inl e, _) \<Rightarrow> Inl e
         | (Inr _, (t1, t2)) \<Rightarrow>
             (case trie_toDotString env t1 of Inl e \<Rightarrow> Inl e | Inr s1 \<Rightarrow>
             (case toDotString env t2 ''_'' of Inl e \<Rightarrow> Inl e | Inr s2 \<Rightarrow>
             map_sum id (\<lambda>s3. ''digraph trie {'' @ endl @ s1 @ s2 @ s3 @ ''}'' @ endl)
               (cut_text env junk_root buf t1))))"

section \<open>What is printed\<close>

definition leaf_key :: "trie_env \<Rightarrow> nat \<Rightarrow> bytes" where
  "leaf_key env i = te_hash env (str_bytes (leaf_string i))"

abbreviation leaf_ops :: "trie_env \<Rightarrow> nat list \<Rightarrow> trie_op list" where
  "leaf_ops env is \<equiv> map (\<lambda>i. Add (leaf_key env i)) is"

lemma add_key_run:
  assumes env: "trie_hash env" and ok: "trie_ok env ts ot"
    and cf: "cf_step (te_hash env) ot (opt_insert (te_size env) (leaf_key env i) ot)" and n: "length (tree_keys ot) + 1 < 2 ^ 64"
  obtains r ts' where "add_string env (str_bytes (leaf_string i)) True ts = (Inr r, ts')"
    "trie_ok env ts' (opt_insert (te_size env) (leaf_key env i) ot)"
    "length (tree_keys (opt_insert (te_size env) (leaf_key env i) ot)) \<le> length (tree_keys ot) + 1"
proof -
  have k: "length (leaf_key env i) = te_size env"
    unfolding leaf_key_def by (rule crypto_hash.length_H [OF trie_hash.axioms(1) [OF env]])
  have "unat (ts_size ts) + 1 < 2 ^ 64" using ok n by (simp add: trie_ok_def)
  then show thesis
    using trie_hash.add_refines [OF env ok k cf] length_tree_step [OF trie_hash.trie_ok_wf [OF env ok], of "Add (leaf_key env i)"]
      k that by (auto simp: add_string_def leaf_key_def)
qed

lemma add_both_run:
  assumes env: "trie_hash env"
  shows "trie_ok env t1 o1 \<Longrightarrow> trie_ok env t2 o2 \<Longrightarrow>
    cf_run (te_hash env) (te_size env) o1 (leaf_ops env is) \<Longrightarrow>
    cf_run (te_hash env) (te_size env) o2 (leaf_ops env (filter (\<lambda>i. 0 < i) is)) \<Longrightarrow>
    length (tree_keys o1) + length is < 2 ^ 64 \<Longrightarrow> length (tree_keys o2) + length is < 2 ^ 64 \<Longrightarrow>
    \<exists>t1' t2'. forE is (add_both env) (t1, t2) = (Inr (), (t1', t2')) \<and>
      trie_ok env t1' (fold (tree_step (te_size env)) (leaf_ops env is) o1) \<and>
      trie_ok env t2' (fold (tree_step (te_size env)) (leaf_ops env (filter (\<lambda>i. 0 < i) is)) o2)"
proof (induction "is" arbitrary: t1 t2 o1 o2)
  case Nil
  then show ?case by (simp add: ret_def)
next
  case (Cons i "is")
  obtain r s1 where 1: "add_string env (str_bytes (leaf_string i)) True t1 = (Inr r, s1)"
    "trie_ok env s1 (opt_insert (te_size env) (leaf_key env i) o1)"
    "length (tree_keys (opt_insert (te_size env) (leaf_key env i) o1)) \<le> length (tree_keys o1) + 1"
    using add_key_run [OF env Cons.prems(1)] Cons.prems(3,5) by auto
  show ?case
  proof (cases "0 < i")
    case True
    obtain r' s2 where 2: "add_string env (str_bytes (leaf_string i)) True t2 = (Inr r', s2)"
      "trie_ok env s2 (opt_insert (te_size env) (leaf_key env i) o2)"
      "length (tree_keys (opt_insert (te_size env) (leaf_key env i) o2)) \<le> length (tree_keys o2) + 1"
      using add_key_run [OF env Cons.prems(2)] Cons.prems(4,6) True by auto
    show ?thesis using Cons.IH [OF 1(2) 2(2)] Cons.prems(3-6) True 1 2 by (simp add: bindE_def add_both_def)
  next
    case False
    then show ?thesis using Cons.IH [OF 1(2) Cons.prems(2)] Cons.prems(3-6) 1 by (simp add: bindE_def add_both_def)
  qed
qed

definition picture :: "(bytes \<Rightarrow> bytes) \<Rightarrow> string \<Rightarrow> ptree \<Rightarrow> string" where
  "picture H p t = p @ ''ROOT [label='' @ quote @ ''ROOT'' @ quote @ ''];'' @ endl @
     p @ ''ROOT -> '' @ p @ hex (thash H t) @ '' [shape=plaintext];'' @ endl @ tree_dot H p None t"

definition cut_line :: "(bytes \<Rightarrow> bytes) \<Rightarrow> ptree \<Rightarrow> string" where
  "cut_line H u = concat (map (\<lambda>p. p @ hex (thash H u) @ '' [style=filled color='' @ quote @
     (if is_bin u then ''grey'' else ''green'') @ quote @ ''];'' @ endl) [''N'', ''_''])"

lemma contains_node:
  assumes env: "trie_hash env" and ok: "trie_ok env ts (Some t)" and cf: "collision_free (te_hash env) [t]"
    and u: "u \<in> set (subs t)"
  shows "contains env ts (th env u) = LEAF_NODE \<longleftrightarrow> \<not> is_bin u"
proof -
  have wf: "wf_tree (te_size env) t" using trie_hash.trie_ok_wf [OF env ok] by simp
  have "length (th env u) = te_size env"
    by (rule crypto_hash.length_thash [OF trie_hash.axioms(1) [OF env] subs_wf [OF u wf]])
  then have "contains env ts (th env u) = LEAF_NODE \<longleftrightarrow> th env u \<in> keys t"
    using trie_hash.contains_tree [OF env ok] by simp
  also have "\<dots> \<longleftrightarrow> \<not> is_bin u"
  proof (cases u)
    case (Tip k)
    then show ?thesis using u by (simp add: key_Tip_subs)
  next
    case (Bin m l r)
    have "th env u \<noteq> th env (Tip k)" if "k \<in> keys t" for k
      using crypto_hash.thash_inj_subs [OF trie_hash.axioms(1) [OF env] cf, of t t u "Tip k"] wf u that Bin
      by (auto simp: key_Tip_subs simp del: thash.simps)
    then show ?thesis using Bin by (auto simp del: thash.simps simp: thash.simps(1))
  qed
  finally show ?thesis .
qed

lemma cut_lines_run:
  assumes env: "trie_hash env" "te_size env = 20" and ok: "trie_ok env ts (Some t)" and cf: "collision_free (te_hash env) [t]"
    and buf: "length buf = te_size env * max_cut_size"
  shows "\<exists>vs. cut_text env junk buf ts = Inr (concat (map (cut_line (te_hash env)) vs)) \<and> set vs \<subseteq> set (subs t) \<and>
    length vs \<le> max_cut_size \<and> mset (concat (map key_list vs)) = mset (key_list t)"
proof -
  have n: "2 \<le> te_size env * max_cut_size div te_size env" using env(2) by (simp add: max_cut_size_def)
  obtain vs where vs: "getSubTrie env ts (th env t) buf (te_size env * max_cut_size) =
      Inr (length vs * te_size env, memcpy_at buf 0 (concat (map (th env) vs)))"
    "set vs \<subseteq> set (subs t)" "length vs \<le> max_cut_size" "below vs = mset (key_list t)"
    using trie_hash.getSubTrie_run [OF env(1) ok subs_self n, of buf] env(2) by auto
  have wf: "wf_tree 20 t" using trie_hash.trie_ok_wf [OF env(1) ok] env(2) by simp
  have len: "length (th env u) = 20" if "u \<in> set vs" for u
    using crypto_hash.length_thash [OF trie_hash.axioms(1) [OF env(1)]] subs_wf [OF _ wf] vs(2) that env(2) by auto
  let ?xs = "map (th env) vs"
  have l: "list_all (\<lambda>x. length x = 20) ?xs" using len by (simp add: list_all_iff)
  have "length (concat ?xs) = 20 * length vs" using l by (induction vs) auto
  then have buf': "memcpy_at buf 0 (concat ?xs) = concat ?xs @ drop (20 * length vs) buf" by (simp add: memcpy_at_def)
  have block: "\<exists>rest. drop (j * 20) (concat ?xs @ drop (20 * length vs) buf) = th env (vs ! j) @ rest" if "j < length vs" for j
  proof -
    have "slice (j * 20) 20 (concat ?xs @ drop (20 * length vs) buf) = th env (vs ! j)"
      using slice_concat [OF l, of j] that by simp
    then show ?thesis unfolding slice_def by (metis append_take_drop_id)
  qed
  have "cut_lines env ts (memcpy_at buf 0 (concat ?xs)) j = cut_line (te_hash env) (vs ! j)" if j: "j < length vs" for j
  proof -
    obtain rest where r: "drop (j * 20) (memcpy_at buf 0 (concat ?xs)) = th env (vs ! j) @ rest" using block [OF j] buf' by auto
    have v: "vs ! j \<in> set vs" "vs ! j \<in> set (subs t)" using j vs(2) by auto
    have "dot_name (th env (vs ! j) @ rest) = hex (th env (vs ! j))"
      using len [OF v(1)] by (simp add: dot_name_def default_digits hex_def hex_prefix)
    then show ?thesis using r len [OF v(1)] contains_node [OF env(1) ok cf v(2)] env(2)
      by (simp add: cut_lines_def Let_def style_line_def cut_line_def)
  qed
  then have "concat (map (cut_lines env ts (memcpy_at buf 0 (concat ?xs))) [0..<length vs]) =
      concat (map (cut_line (te_hash env)) (map (\<lambda>j. vs ! j) [0..<length vs]))"
    unfolding map_map comp_def by (intro arg_cong [where f = concat] map_cong refl) simp
  also have "map (\<lambda>j. vs ! j) [0..<length vs] = vs" by (rule map_nth)
  finally have "cut_text env junk buf ts = Inr (concat (map (cut_line (te_hash env)) vs))"
    using trie_hash.getRoot_tree [OF env(1) ok] vs(1) env(2) by (simp add: cut_text_def Let_def)
  then show ?thesis using vs(2-4) by (auto simp: below_def)
qed

text \<open>C39: the program prints one graph: the pictures of the trie of the six strings and of the trie
  of the last five of them, and a colour for at most five nodes of the first that partition its
  keys, green for the leaves and grey for the others.\<close>

theorem out_prints:
  assumes "trie_hash env" "te_size env = 20" "length buf = te_size env * max_cut_size"
    and "cf_run (te_hash env) (te_size env) None (leaf_ops env [0..<6])"
    and "cf_run (te_hash env) (te_size env) None (leaf_ops env [1..<6])"
    and "fold (tree_step (te_size env)) (leaf_ops env [0..<6]) None = Some t1"
    and "fold (tree_step (te_size env)) (leaf_ops env [1..<6]) None = Some t2"
    and "collision_free (te_hash env) [t1]"
  shows "\<exists>vs. out env junk buf = Inr (''digraph trie {'' @ endl @ picture (te_hash env) ''N'' t1 @
      picture (te_hash env) ''_'' t2 @ concat (map (cut_line (te_hash env)) vs) @ ''}'' @ endl) \<and>
    set vs \<subseteq> set (subs t1) \<and> length vs \<le> 5 \<and> mset (concat (map key_list vs)) = mset (key_list t1)"
proof -
  let ?e = "open_trie (new_storage True)"
  have e: "trie_ok env ?e None" by (simp add: trie_ok_def open_trie_def Let_def)
  have f: "filter (\<lambda>i. 0 < i) [0..<6] = [1..<6 :: nat]" by (simp add: upt_rec)
  have n: "length (tree_keys None) + length [0..<6] < 2 ^ 64" by simp
  obtain s1 s2 where s: "forE [0..<6] (add_both env) (?e, ?e) = (Inr (), (s1, s2))" "trie_ok env s1 (Some t1)" "trie_ok env s2 (Some t2)"
    using add_both_run [OF assms(1) e e, of "[0..<6]"] assms(4-7) n unfolding f by (auto simp only:)
  obtain vs where vs: "cut_text env junk buf s1 = Inr (concat (map (cut_line (te_hash env)) vs))" "set vs \<subseteq> set (subs t1)"
    "length vs \<le> max_cut_size" "mset (concat (map key_list vs)) = mset (key_list t1)"
    using cut_lines_run [OF assms(1,2) s(2) assms(8,3)] by blast
  show ?thesis
    using vs s(1) toDotString_is_tree [OF assms(1,2) s(2), of "''N''"] toDotString_is_tree [OF assms(1,2) s(3), of "''_''"]
    by (intro exI [of _ vs]) (simp add: out_def Let_def leafs_def trie_toDotString_def picture_def max_cut_size_def)
qed

definition two_byte_hash :: "bytes \<Rightarrow> bytes" where
  "two_byte_hash xs =
     (if length xs = 40 then [hd xs + hd (drop 20 xs), 1] else [push_bit (unat (last xs) - 48) 1, 0]) @ replicate 18 0"

definition two_byte_env :: trie_env where
  "two_byte_env = \<lparr>te_hash = two_byte_hash, te_size = 20, te_junk = replicate 20 0\<rparr>"

lemma two_byte_env: "trie_hash two_byte_env" "te_size two_byte_env = 20"
  by (unfold_locales) (simp_all add: two_byte_env_def two_byte_hash_def)

definition toy_leaves :: "bytes \<Rightarrow> trie_op list" where
  "toy_leaves bs = map (\<lambda>b. Add (b # replicate 19 0)) bs"

lemma toy_leaf_ops: "leaf_ops two_byte_env [0..<6] = toy_leaves [1, 2, 4, 8, 16, 32]"
  "leaf_ops two_byte_env [1..<6] = toy_leaves [2, 4, 8, 16, 32]"
  by code_simp+

theorem out_prints_witness:
  "\<exists>rest vs. out two_byte_env (replicate 20 0) (replicate 100 0) = Inr (''digraph trie {'' @ endl @ rest) \<and>
    length vs \<le> 5 \<and> length (concat (map key_list vs)) = 6"
proof -
  let ?t = "\<lambda>bs. fold (tree_step 20) (toy_leaves bs) None"
  have cf: "cf_run two_byte_hash 20 None (toy_leaves [1, 2, 4, 8, 16, 32])"
    "cf_run two_byte_hash 20 None (toy_leaves [2, 4, 8, 16, 32])" by code_simp+
  have some: "?t [1, 2, 4, 8, 16, 32] = Some (the (?t [1, 2, 4, 8, 16, 32]))" "?t [2, 4, 8, 16, 32] = Some (the (?t [2, 4, 8, 16, 32]))"
    by code_simp+
  have c: "collision_free two_byte_hash [the (?t [1, 2, 4, 8, 16, 32])]" "length (key_list (the (?t [1, 2, 4, 8, 16, 32]))) = 6"
    by code_simp+
  have e: "te_hash two_byte_env = two_byte_hash" "length (replicate 100 0 :: bytes) = 20 * max_cut_size"
    by (simp_all add: two_byte_env_def max_cut_size_def)
  obtain rest vs where v: "out two_byte_env (replicate 20 0) (replicate 100 0) = Inr (''digraph trie {'' @ endl @ rest)"
    "length vs \<le> 5" "mset (concat (map key_list vs)) = mset (key_list (the (?t [1, 2, 4, 8, 16, 32])))"
    using out_prints [OF two_byte_env, unfolded two_byte_env(2) toy_leaf_ops e(1), OF e(2) cf some c(1), of "replicate 20 0"] by blast
  have "length (concat (map key_list vs)) = 6" using mset_eq_length [OF v(3)] c(2) by simp
  then show ?thesis using v(1,2) by blast
qed

end
