(* ===== verification/CryptoProps.thy ===== *)
theory CryptoProps
  imports SetHash
begin

text \<open>
  The properties of the digests: the compression functions of the code are those of the
  standards, the generic interface of \<^verbatim>\<open>md.c\<close> computes the published digests and HMACs however
  the message is cut into updates, and what \<^verbatim>\<open>CryptoHash\<close> makes of it; the last one connects
  the hash functions to what the trie asks of them.
\<close>

section \<open>The compression functions\<close>



text \<open>C28: the 64 unrolled steps of \<^verbatim>\<open>sha2_process\<close> are the compression function of SHA-256.\<close>

theorem sha2_process_is_fips180:
  assumes "length st = 8"
  shows "sha2_process st data = fips_sha256_compress st data"
  using assms by (rule sha2_process_fips)

theorem sha2_process_is_fips180_witness:
  "sha2_process (sha2_IV False) (replicate 64 0) = fips_sha256_compress (sha2_IV False) (replicate 64 0)"
  by (rule sha2_process_is_fips180) (simp add: sha2_IV_def)



text \<open>The 64 calls of \<^verbatim>\<open>md5_process\<close> are the four rounds of RFC 1321, and the 48 calls of
  \<^verbatim>\<open>md4_process\<close> the three rounds of RFC 1320.\<close>

theorem md5_md4_process_are_the_rfcs:
  assumes "length st = 4"
  shows "md5_process st data = rfc1321_md5_compress st data \<and>
    md4_process st data = rfc1320_md4_compress st data"
  using md5_process_rfc1321 [OF assms] md4_process_rfc1320 [OF assms] by blast

theorem md5_md4_process_are_the_rfcs_witness:
  "md5_process md_IV (replicate 64 0) = rfc1321_md5_compress md_IV (replicate 64 0) \<and>
   md4_process md_IV (replicate 64 0) = rfc1320_md4_compress md_IV (replicate 64 0)"
  by (rule md5_md4_process_are_the_rfcs) (simp add: md_IV_def)

section \<open>The interface of md.c\<close>







text \<open>Null pointers and unset tables are reported as bad input by every function of \<^verbatim>\<open>md.c\<close>,
  and leave the context as it was; only a context freed before it is used again is undefined.\<close>

theorem md_bad_input:
  assumes "ctx = None \<or> ctx = Some \<lparr>md_info = None, md_state = s\<rparr>"
  shows "md_starts ctx = Some (POLARSSL_ERR_MD_BAD_INPUT_DATA, ctx, None) \<and>
    md_update ctx x = Some (POLARSSL_ERR_MD_BAD_INPUT_DATA, ctx, None) \<and>
    md_finish ctx = Some (POLARSSL_ERR_MD_BAD_INPUT_DATA, ctx, None) \<and>
    md_hmac_starts ctx x = Some (POLARSSL_ERR_MD_BAD_INPUT_DATA, ctx, None) \<and>
    md_free_ctx ctx = (POLARSSL_ERR_MD_BAD_INPUT_DATA, ctx) \<and>
    md None x = Some (POLARSSL_ERR_MD_BAD_INPUT_DATA, None) \<and>
    md_init_ctx mem ctx None = Some (POLARSSL_ERR_MD_BAD_INPUT_DATA, ctx) \<and>
    md_update (snd (md_free_ctx (md_handle info c))) x = None"
  using assms by (auto simp: md_starts_def md_update_def md_finish_def md_hmac_starts_def md_free_ctx_def
      md_call_def md_def md_init_ctx_def md_handle_def)

theorem md_bad_input_witness:
  "md_starts None = Some (POLARSSL_ERR_MD_BAD_INPUT_DATA, None, None) \<and>
   md_update (snd (md_free_ctx (md_handle md5_info (Md5Ctx md5_uninit)))) [1] = None"
  using md_bad_input [of None] by blast

text \<open>A single update of exactly \<open>2 ^ 32\<close> bytes leaves the byte counter where it was, so the
  length in the padding of SHA-1 misses the whole update.\<close>

lemma blk_update_total1:
  "length input \<noteq> 0 \<Longrightarrow> total1 (blk_update B p ctx input) =
     (if total0 ctx + word_of_nat (length input) < word_of_nat (length input) then total1 ctx + 1 else total1 ctx)"
  by (simp add: blk_update_def Let_def case_prod_beta)

theorem sha1_update_4GB_not_counted:
  assumes "length input = 2 ^ 32"
  shows "total0 (sha1_update ctx input) = total0 ctx \<and> total1 (sha1_update ctx input) = total1 ctx"
proof -
  have w: "(word_of_nat (length input) :: u32) = 0" unfolding assms by simp
  have "length input \<noteq> 0" unfolding assms by simp
  then show ?thesis by (simp add: sha1_update_def blk_update_total blk_update_total1 w)
qed

theorem sha1_update_4GB_not_counted_witness:
  "total0 (sha1_update (sha1_starts sha1_uninit) (replicate (2 ^ 32) 0)) = 0 \<and>
   total1 (sha1_update (sha1_starts sha1_uninit) (replicate (2 ^ 32) 0)) = 0"
proof -
  have "length (replicate (2 ^ 32) (0 :: byte)) = 2 ^ 32" by (rule length_replicate)
  from sha1_update_4GB_not_counted [OF this, of "sha1_starts sha1_uninit"] show ?thesis
    by (simp add: sha1_starts_def)
qed

section \<open>CryptoHash\<close>

text \<open>A hash function is found exactly by the documented names, in any case, and \<^verbatim>\<open>SHA\<close>; an
  unknown name throws.\<close>

theorem CryptoHash_names:
  "(\<exists>h. CryptoHash_init name = Inr h) \<longleftrightarrow>
     map tolower (c_str name) \<in> {''md2'', ''md4'', ''md5'', ''sha1'', ''sha'', ''sha224'', ''sha256'', ''sha384'', ''sha512''}"
proof -
  have "(\<exists>h. CryptoHash_init name = Inr h) \<longleftrightarrow> md_info_from_string (Some (c_str name)) \<noteq> None"
    by (auto simp: CryptoHash_init_def split: option.split)
  then show ?thesis unfolding md_info_from_string_def strcasecmp_eq_def option.case tolower_names by auto
qed

text \<open>Hashing byte arrays gives the published digest of the named algorithm, in
  \<^verbatim>\<open>getHashSize\<close> bytes, and the code 0.\<close>

theorem CryptoHash_computes_the_digest:
  assumes "CryptoHash_init name = Inr h" "length x < 2 ^ 32"
  shows "\<exists>t. md_info_from_type t = Some (digit h) \<and> hash_data h x = Some (0, Some (md_reference t x)) \<and>
    length (md_reference t x) = unat (getHashSize h)"
  using assms by (rule hash_data_reference)

theorem CryptoHash_computes_the_digest_witness:
  "\<exists>h t. CryptoHash_init ''sha1'' = Inr h \<and> hash_data h [0x61] = Some (0, Some (md_reference t [0x61])) \<and>
    length (md_reference t [0x61]) = unat (getHashSize h)"
  using CryptoHash_computes_the_digest [of "''sha1''" _ "[0x61]"] init_sha1 by fastforce

text \<open>Hashing a stream gives the digest of the empty message, whatever the stream holds: the
  loop waits for the code 1, and \<^verbatim>\<open>md_starts\<close> returns 0.\<close>

theorem CryptoHash_stream_not_hashed:
  assumes "CryptoHash_init name = Inr h"
  shows "hash_istream True h input = hash_data h []"
proof -
  obtain t where "hash_data h [] = Some (0, Some (md_reference t []))"
    using hash_data_reference [OF assms, of "[]"] by auto
  then show ?thesis using hash_istream_ignores_input [OF assms, of input] by simp
qed

theorem CryptoHash_stream_not_hashed_witness:
  "\<exists>h. CryptoHash_init ''sha1'' = Inr h \<and> hash_istream True h [0x61, 0x62, 0x63] = hash_data h []"
  using CryptoHash_stream_not_hashed init_sha1 by blast

section \<open>The hash functions and the trie\<close>

text \<open>Of the eight hash functions exactly those with less than 32 bytes meet what the trie
  needs: MD2, MD4, MD5, SHA-1 and SHA-224.\<close>

theorem trie_hash_functions:
  assumes "CryptoHash_init name = Inr h" "length junk = unat (getHashSize h)"
  shows "trie_hash (hash_env h junk) \<longleftrightarrow> unat (getHashSize h) < 32"
  by (rule hash_env_trie_hash [OF assms])

theorem trie_hash_functions_witness:
  "\<exists>h. CryptoHash_init ''sha1'' = Inr h \<and> trie_hash (hash_env h (replicate 20 0)) \<and>
     (\<exists>h'. CryptoHash_init ''SHA256'' = Inr h' \<and> \<not> trie_hash (hash_env h' (replicate 32 0)))"
proof -
  show ?thesis using trie_hash_functions [OF init_sha1, of "replicate 20 0"]
      trie_hash_functions [OF init_sha256, of "replicate 32 0"] init_sha1 init_sha256
    by (simp add: getHashSize_def)
qed

end
