(* ===== verification/DigestFiles.thy ===== *)
theory DigestFiles
  imports CryptoHash
begin

text \<open>
  The functions that digest a file, in the build with \<^verbatim>\<open>POLARSSL_FS_IO\<close>: \<^verbatim>\<open>sha1_file\<close> and its five
  siblings.  A file that \<^verbatim>\<open>fopen\<close> opened is what reading it gives until the end or an error, and
  whether there was an error; \<^verbatim>\<open>fread\<close> fills the buffer of 1024 bytes unless one of the two comes first.
\<close>

record FILE =
  fl_bytes :: bytes
  fl_error :: bool

fun fread_all :: "bytes \<Rightarrow> bytes list" where
  "fread_all xs = (if xs = [] then [] else take 1024 xs # fread_all (drop 1024 xs))"

declare fread_all.simps [simp del]

definition POLARSSL_ERR_MD2_FILE_IO_ERROR :: int where "POLARSSL_ERR_MD2_FILE_IO_ERROR = - 0x0070"
definition POLARSSL_ERR_MD4_FILE_IO_ERROR :: int where "POLARSSL_ERR_MD4_FILE_IO_ERROR = - 0x0072"
definition POLARSSL_ERR_MD5_FILE_IO_ERROR :: int where "POLARSSL_ERR_MD5_FILE_IO_ERROR = - 0x0074"
definition POLARSSL_ERR_SHA1_FILE_IO_ERROR :: int where "POLARSSL_ERR_SHA1_FILE_IO_ERROR = - 0x0076"
definition POLARSSL_ERR_SHA2_FILE_IO_ERROR :: int where "POLARSSL_ERR_SHA2_FILE_IO_ERROR = - 0x0078"
definition POLARSSL_ERR_SHA4_FILE_IO_ERROR :: int where "POLARSSL_ERR_SHA4_FILE_IO_ERROR = - 0x007A"

text \<open>The code that is returned, and what is written to the output.\<close>

definition md2_file :: "FILE option \<Rightarrow> (int \<times> bytes option) option" where
  "md2_file f =
     (case f of
        None \<Rightarrow> Some (POLARSSL_ERR_MD2_FILE_IO_ERROR, None)
      | Some f \<Rightarrow>
          (case fold (\<lambda>buf ctx. Option.bind ctx (\<lambda>ctx. md2_update ctx buf)) (fread_all (fl_bytes f))
                  (Some (md2_starts md2_uninit)) of
             None \<Rightarrow> None
           | Some ctx \<Rightarrow>
               let output = snd (md2_finish ctx)
               in Some (if fl_error f then POLARSSL_ERR_MD2_FILE_IO_ERROR else 0, Some output)))"

definition md4_file :: "FILE option \<Rightarrow> int \<times> bytes option" where
  "md4_file f =
     (case f of
        None \<Rightarrow> (POLARSSL_ERR_MD4_FILE_IO_ERROR, None)
      | Some f \<Rightarrow>
          let ctx = fold (\<lambda>buf ctx. md4_update ctx buf) (fread_all (fl_bytes f)) (md4_starts md4_uninit);
              output = snd (md4_finish ctx)
          in (if fl_error f then POLARSSL_ERR_MD4_FILE_IO_ERROR else 0, Some output))"

definition md5_file :: "FILE option \<Rightarrow> int \<times> bytes option" where
  "md5_file f =
     (case f of
        None \<Rightarrow> (POLARSSL_ERR_MD5_FILE_IO_ERROR, None)
      | Some f \<Rightarrow>
          let ctx = fold (\<lambda>buf ctx. md5_update ctx buf) (fread_all (fl_bytes f)) (md5_starts md5_uninit);
              output = snd (md5_finish ctx)
          in (if fl_error f then POLARSSL_ERR_MD5_FILE_IO_ERROR else 0, Some output))"

definition sha1_file :: "FILE option \<Rightarrow> int \<times> bytes option" where
  "sha1_file f =
     (case f of
        None \<Rightarrow> (POLARSSL_ERR_SHA1_FILE_IO_ERROR, None)
      | Some f \<Rightarrow>
          let ctx = fold (\<lambda>buf ctx. sha1_update ctx buf) (fread_all (fl_bytes f)) (sha1_starts sha1_uninit);
              output = snd (sha1_finish ctx)
          in (if fl_error f then POLARSSL_ERR_SHA1_FILE_IO_ERROR else 0, Some output))"

definition sha2_file :: "FILE option \<Rightarrow> bool \<Rightarrow> int \<times> bytes option" where
  "sha2_file f short =
     (case f of
        None \<Rightarrow> (POLARSSL_ERR_SHA2_FILE_IO_ERROR, None)
      | Some f \<Rightarrow>
          let ctx = fold (\<lambda>buf ctx. sha2_update ctx buf) (fread_all (fl_bytes f)) (sha2_starts sha2_uninit short);
              output = snd (sha2_finish ctx)
          in (if fl_error f then POLARSSL_ERR_SHA2_FILE_IO_ERROR else 0, Some output))"

definition sha4_file :: "FILE option \<Rightarrow> bool \<Rightarrow> int \<times> bytes option" where
  "sha4_file f short =
     (case f of
        None \<Rightarrow> (POLARSSL_ERR_SHA4_FILE_IO_ERROR, None)
      | Some f \<Rightarrow>
          let ctx = fold (\<lambda>buf ctx. sha4_update ctx buf) (fread_all (fl_bytes f)) (sha4_starts sha4_uninit short);
              output = snd (sha4_finish ctx)
          in (if fl_error f then POLARSSL_ERR_SHA4_FILE_IO_ERROR else 0, Some output))"

section \<open>What is read\<close>

lemma concat_fread_all: "concat (fread_all xs) = xs"
proof (induction xs rule: fread_all.induct)
  case (1 xs)
  then show ?case by (subst fread_all.simps) auto
qed

lemma fread_all_short: "1024 < limit \<Longrightarrow> list_all (\<lambda>c. length c < limit) (fread_all xs)"
proof (induction xs rule: fread_all.induct)
  case (1 xs)
  then show ?case by (subst fread_all.simps) auto
qed

lemma md2_updates:
  "md2_digests ctx msg \<Longrightarrow>
   fold (\<lambda>buf ctx. Option.bind ctx (\<lambda>ctx. md2_update ctx buf)) bufs (Some ctx) =
     Some (fold (\<lambda>buf ctx. md2_updated ctx buf) bufs ctx)"
proof (induction bufs arbitrary: ctx msg)
  case (Cons b bs)
  then show ?case using Cons.IH [OF md2_updated_digests] md2_updated by simp
qed simp


end
