(* ===== verification/HashFunctions.thy ===== *)
theory HashFunctions
  imports Prelude
begin

text \<open>
  \<^verbatim>\<open>setsync/bloom/HashFunction.cpp\<close> and \<^verbatim>\<open>DoubleHashingScheme.cpp\<close>: the hash functions of a
  Bloom filter, numbered, made from the first two words of a cryptographic hash.
\<close>

definition dh_hash :: "nat \<Rightarrow> bytes \<Rightarrow> nat \<Rightarrow> u64 \<Rightarrow> exn + u64" where
  "dh_hash hashsize input len function =
     (if hashsize < 16 \<or> hashsize \<noteq> len then Inl (CString ''Must be implemented'')
      else let f1 = size_of_bytes (slice 0 8 input);
               f2 = size_of_bytes (slice 8 8 input)
           in Inr (f1 + (function + 1) * f2))"

definition dh_count :: u64 where
  "dh_count = - 1"

text \<open>The two call operators of \<^verbatim>\<open>HashFunction\<close>.\<close>

definition hash_call :: "nat \<Rightarrow> bytes \<Rightarrow> nat \<Rightarrow> u64 \<Rightarrow> exn + u64" where
  "hash_call hashsize input len function = dh_hash hashsize input len function"

definition hash_call0 :: "nat \<Rightarrow> bytes \<Rightarrow> nat \<Rightarrow> exn + u64" where
  "hash_call0 hashsize input len = dh_hash hashsize input len 0"

text \<open>The extended scheme: the rest of the key, shifted in from the left, times the number.\<close>

definition extendedHash :: "bytes \<Rightarrow> nat \<Rightarrow> u64 \<Rightarrow> u64" where
  "extendedHash input remaining function =
     (if 0 < remaining
      then fold (\<lambda>j f3. push_bit 8 (f3 OR ucast (input ! j))) [0..<min 8 remaining] 0 * function
      else function)"

definition ext_hash :: "nat \<Rightarrow> bytes \<Rightarrow> nat \<Rightarrow> u64 \<Rightarrow> exn + u64" where
  "ext_hash hashsize input len function =
     (case dh_hash hashsize input len function of
        Inl e \<Rightarrow> Inl e
      | Inr h \<Rightarrow> Inr (h + extendedHash (drop 16 input) (len - 16) function))"

lemma dh_hash_Inr:
  "16 \<le> n \<Longrightarrow> dh_hash n input n i =
     Inr (size_of_bytes (slice 0 8 input) + (i + 1) * size_of_bytes (slice 8 8 input))"
  by (simp add: dh_hash_def Let_def)

text \<open>Successive functions differ by the second word of the key.\<close>

lemma dh_hash_step:
  assumes "dh_hash n input len i = Inr a" "dh_hash n input len (i + 1) = Inr b"
  shows "b = a + size_of_bytes (slice 8 8 input)"
  using assms by (auto simp: dh_hash_def Let_def distrib_right split: if_splits)

end
