(* ===== verification/BloomFilter.thy ===== *)
theory BloomFilter
  imports HashFunctions BitSet
begin

text \<open>
  \<^verbatim>\<open>setsync/bloom/BloomFilter.cpp\<close>: the members that every filter has, and the filter in
  memory.  The number of bits and of hash functions that \<^verbatim>\<open>init\<close> computes with the logarithms
  of the C library are parameters; everything done with them is modelled.  A filter of no bits
  (for no elements) divides by zero, so the invariant \<open>bloom_ok\<close> excludes it.  The locale
  \<open>bloom_filter\<close> is what a filter promises, over the set of its bits.
\<close>

record bloom =
  filterSize :: u64
  itemCount :: u64
  functionCount :: u32
  hardMaximum :: bool
  maxElements :: u64
  hashSize :: nat \<comment> \<open>of the cryptographic hash function\<close>
  hashFunction :: "nat option" \<comment> \<open>the double hashing object, by its hash size; None if never set\<close>
  bitArray :: bytes

section \<open>What all filters share\<close>

definition bit_mask :: bytes where
  "bit_mask = [0x01, 0x02, 0x04, 0x08, 0x10, 0x20, 0x40, 0x80]"

definition bf_size :: "'a bloom_scheme \<Rightarrow> u64" where
  "bf_size bf = (filterSize bf + 7) div 8"

definition exactBitSize :: "'a bloom_scheme \<Rightarrow> u64" where
  "exactBitSize bf = filterSize bf"

definition numberOfElements :: "'a bloom_scheme \<Rightarrow> u64" where
  "numberOfElements bf = itemCount bf"

definition numberOfFunctions :: "'a bloom_scheme \<Rightarrow> u64" where
  "numberOfFunctions bf = ucast (functionCount bf)"

text \<open>Hash function \<open>i\<close> of a key, and key \<open>i\<close> of an array of keys.\<close>

definition bf_hash :: "'a bloom_scheme \<Rightarrow> bytes \<Rightarrow> nat \<Rightarrow> exn + u64" where
  "bf_hash bf key i =
     (case hashFunction bf of
        None \<Rightarrow> Inl UndefinedBehaviour
      | Some n \<Rightarrow> hash_call n key (hashSize bf) (word_of_nat i))"

definition key_at :: "'a bloom_scheme \<Rightarrow> bytes \<Rightarrow> nat \<Rightarrow> bytes" where
  "key_at bf keys i = slice (hashSize bf * i) (hashSize bf) keys"

text \<open>The \<^verbatim>\<open>hashes\<close> array of \<^verbatim>\<open>addAll\<close>: every function of every key, in order.\<close>

fun all_hashes :: "'a bloom_scheme \<Rightarrow> bytes \<Rightarrow> (nat \<times> nat) list \<Rightarrow> exn + u64 list" where
  "all_hashes bf keys [] = Inr []"
| "all_hashes bf keys ((i, j) # ijs) =
     (case bf_hash bf (key_at bf keys i) j of
        Inl e \<Rightarrow> Inl e
      | Inr h \<Rightarrow> (case all_hashes bf keys ijs of Inl e \<Rightarrow> Inl e | Inr hs \<Rightarrow> Inr (h # hs)))"

definition hash_order :: "'a bloom_scheme \<Rightarrow> nat \<Rightarrow> (nat \<times> nat) list" where
  "hash_order bf n = List.product [0..<n] [0..<unat (functionCount bf)]"

definition incItems :: "'a bloom_scheme \<Rightarrow> 'a bloom_scheme" where
  "incItems bf = (if itemCount bf < - 1 then bf\<lparr>itemCount := itemCount bf + 1\<rparr> else bf)"

definition addItems :: "nat \<Rightarrow> 'a bloom_scheme \<Rightarrow> 'a bloom_scheme" where
  "addItems n bf =
     (if itemCount bf + word_of_nat n < - 1 then bf\<lparr>itemCount := itemCount bf + word_of_nat n\<rparr>
      else bf\<lparr>itemCount := - 1\<rparr>)"

definition merge_bytes :: "(byte \<Rightarrow> byte \<Rightarrow> byte) \<Rightarrow> nat \<Rightarrow> bytes \<Rightarrow> bytes \<Rightarrow> bytes" where
  "merge_bytes f n a b = fold (\<lambda>i a. a[i := f (a ! i) (b ! i)]) [0..<n] a"

text \<open>The comparison of \<^verbatim>\<open>operator ==\<close>, of whole bytes and of the last one shifted.\<close>

definition bits_equal :: "u64 \<Rightarrow> bytes \<Rightarrow> bytes \<Rightarrow> bool" where
  "bits_equal fsize a b =
     (let n = unat (fsize div 8); remainder = unat (fsize mod 8)
      in if take n a \<noteq> take n b then False
         else if remainder = 0 then True
         else drop_bit (8 - remainder) (a ! n) = drop_bit (8 - remainder) (b ! n))"

section \<open>The filter in memory\<close>

definition bloom_init :: "bool \<Rightarrow> u64 \<Rightarrow> u32 \<Rightarrow> bool \<Rightarrow> u64 \<Rightarrow> u64 \<Rightarrow> nat \<Rightarrow> bool \<Rightarrow> exn + bloom" where
  "bloom_init rate_ok fsize functions hardmax n junk hsize mem =
     (if \<not> rate_ok then Inl (CString '''')
      else
        let bf = \<lparr>filterSize = fsize, itemCount = 0,
              functionCount = (if functions < 1 then 1 else functions),
              hardMaximum = hardmax, maxElements = (if hardmax then n else junk), hashSize = hsize,
              hashFunction = Some hsize, bitArray = []\<rparr>
        in if \<not> mem then Inl (CString ''MALLOC failed!'')
           else Inr (bf\<lparr>bitArray := replicate (unat (bf_size bf)) 0\<rparr>))"

definition bf_compute_indices :: "'a bloom_scheme \<Rightarrow> u64 \<Rightarrow> u64 \<times> u64" where
  "bf_compute_indices bf h = (let bit_index = h mod filterSize bf in (bit_index, bit_index mod 8))"

definition bf_set :: "u64 \<Rightarrow> 'a bloom_scheme \<Rightarrow> 'a bloom_scheme" where
  "bf_set h bf =
     (case bf_compute_indices bf h of (bit_index, b) \<Rightarrow>
        let i = unat (bit_index div 8)
        in bf\<lparr>bitArray := (bitArray bf)[i := bitArray bf ! i OR bit_mask ! unat b]\<rparr>)"

definition bf_bit :: "'a bloom_scheme \<Rightarrow> u64 \<Rightarrow> bool" where
  "bf_bit bf h =
     (case bf_compute_indices bf h of (bit_index, b) \<Rightarrow>
        (bitArray bf ! unat (bit_index div 8)) AND bit_mask ! unat b = bit_mask ! unat b)"

definition bloom_clear :: "bloom \<Rightarrow> bloom" where
  "bloom_clear bf = bf\<lparr>bitArray := replicate (unat (bf_size bf)) 0, itemCount := 0\<rparr>"

definition bloom_add :: "bytes \<Rightarrow> (bloom, unit) prog" where
  "bloom_add key = (\<lambda>bf.
     if hardMaximum bf \<and> maxElements bf \<le> itemCount bf
     then (Inl (CString ''Maximum of Elements reached, adding failed''), bf)
     else bindE (forE [0..<unat (functionCount bf)] (\<lambda>i bf.
            case bf_hash bf key i of Inl e \<Rightarrow> (Inl e, bf) | Inr h \<Rightarrow> (Inr (), bf_set h bf)))
          (\<lambda>_. modify incItems) bf)"

definition bloom_addAll :: "bytes \<Rightarrow> nat \<Rightarrow> (bloom, unit) prog" where
  "bloom_addAll keys n = (\<lambda>bf.
     if hardMaximum bf \<and> maxElements bf < itemCount bf + word_of_nat n
     then (Inl (CString ''Maximum of Elements reached, adding failed''), bf)
     else (case all_hashes bf keys (hash_order bf n) of
        Inl e \<Rightarrow> (Inl e, bf)
      | Inr hs \<Rightarrow> (Inr (), addItems n (fold bf_set (sort hs) bf))))"

fun bloom_contains_from :: "bloom \<Rightarrow> bytes \<Rightarrow> nat list \<Rightarrow> exn + bool" where
  "bloom_contains_from bf key [] = Inr True"
| "bloom_contains_from bf key (i # is) =
     (case bf_hash bf key i of
        Inl e \<Rightarrow> Inl e
      | Inr h \<Rightarrow> if \<not> bf_bit bf h then Inr False else bloom_contains_from bf key is)"

definition bloom_contains :: "bloom \<Rightarrow> bytes \<Rightarrow> exn + bool" where
  "bloom_contains bf key = bloom_contains_from bf key [0..<unat (functionCount bf)]"

fun bloom_containsAll_from :: "bloom \<Rightarrow> bytes \<Rightarrow> nat \<Rightarrow> nat list \<Rightarrow> exn + nat" where
  "bloom_containsAll_from bf keys n [] = Inr n"
| "bloom_containsAll_from bf keys n (i # is) =
     (case bloom_contains bf (key_at bf keys i) of
        Inl e \<Rightarrow> Inl e
      | Inr c \<Rightarrow> if \<not> c then Inr i else bloom_containsAll_from bf keys n is)"

definition bloom_containsAll :: "bloom \<Rightarrow> bytes \<Rightarrow> nat \<Rightarrow> exn + nat" where
  "bloom_containsAll bf keys n = bloom_containsAll_from bf keys n [0..<n]"

definition bloom_merge :: "(byte \<Rightarrow> byte \<Rightarrow> byte) \<Rightarrow> bloom \<Rightarrow> bloom \<Rightarrow> bloom" where
  "bloom_merge f this other =
     (if filterSize this = filterSize other
      then this\<lparr>bitArray := merge_bytes f (unat (bf_size this)) (bitArray this) (bitArray other)\<rparr>
      else this)"

definition bloom_and :: "bloom \<Rightarrow> bloom \<Rightarrow> bloom" where "bloom_and = bloom_merge (AND)"
definition bloom_or :: "bloom \<Rightarrow> bloom \<Rightarrow> bloom" where "bloom_or = bloom_merge (OR)"
definition bloom_xor :: "bloom \<Rightarrow> bloom \<Rightarrow> bloom" where "bloom_xor = bloom_merge (XOR)"

definition bloom_eq :: "bloom \<Rightarrow> bloom \<Rightarrow> bool" where
  "bloom_eq this other =
     (if filterSize this \<noteq> filterSize other then False
      else bits_equal (filterSize this) (bitArray this) (bitArray other))"

definition bloom_neq :: "bloom \<Rightarrow> bloom \<Rightarrow> bool" where
  "bloom_neq this other =
     (if filterSize this \<noteq> filterSize other then True
      else \<not> bits_equal (filterSize this) (bitArray this) (bitArray other))"

definition bloom_not :: "bloom \<Rightarrow> bool" where
  "bloom_not bf \<longleftrightarrow> 0 = filterSize bf"

definition bloom_copy :: "bloom \<Rightarrow> bloom" where
  "bloom_copy other = other\<lparr>hashFunction := None,
     bitArray := take (unat (bf_size other)) (bitArray other)\<rparr>"

definition bloom_assign :: "bool \<Rightarrow> bloom \<Rightarrow> (bloom, unit) prog" where
  "bloom_assign mem other = (\<lambda>this.
     let this = this\<lparr>filterSize := filterSize other, hardMaximum := hardMaximum other,
           functionCount := functionCount other, itemCount := itemCount other\<rparr>
     in if \<not> mem then (Inl (CString ''MALLOC FAILD!''), this\<lparr>bitArray := []\<rparr>)
        else (Inr (), this\<lparr>bitArray := take (unat (bf_size this)) (bitArray other)\<rparr>))"

text \<open>Reading fewer bytes than the filter has raises the stream's exception.\<close>

definition bloom_load :: "bytes \<Rightarrow> u64 \<Rightarrow> (bloom, unit) prog" where
  "bloom_load input n = (\<lambda>bf.
     if itemCount bf = 0
     then let sz = unat ((filterSize bf + 7) div 8);
              bf = bf\<lparr>bitArray := memcpy_at (bitArray bf) 0 (take sz input)\<rparr>
          in if length input < sz then (Inl IosFailure, bf) else (Inr (), bf\<lparr>itemCount := n\<rparr>)
     else (Inl (CString ''This bloom filter already has got elements''), bf))"

definition bloom_save :: "bloom \<Rightarrow> bytes \<times> u64" where
  "bloom_save bf = (take (unat ((filterSize bf + 7) div 8)) (bitArray bf), itemCount bf)"

definition bloom_toString :: "bloom \<Rightarrow> string" where
  "bloom_toString bf = concat (map (\<lambda>i.
     map (\<lambda>j. if bitArray bf ! i AND push_bit j 1 \<noteq> 0 then CHR ''1'' else CHR ''0'') (rev [0..<8]))
     [0..<unat ((filterSize bf + 7) div 8)])"

section \<open>The bits of a filter\<close>

definition bloom_ok :: "'a bloom_scheme \<Rightarrow> bool" where
  "bloom_ok bf \<longleftrightarrow> 0 < filterSize bf \<and> unat (filterSize bf) + 7 < 2 ^ 64 \<and>
     length (bitArray bf) = (unat (filterSize bf) + 7) div 8 \<and>
     16 \<le> hashSize bf \<and> hashFunction bf = Some (hashSize bf)"

definition bf_bits :: "'a bloom_scheme \<Rightarrow> nat set" where
  "bf_bits bf = {p. p < unat (filterSize bf) \<and> BITTEST (bitArray bf) p}"

definition key_hash :: "bytes \<Rightarrow> nat \<Rightarrow> u64" where
  "key_hash key i = size_of_bytes (slice 0 8 key) + (word_of_nat i + 1) * size_of_bytes (slice 8 8 key)"

text \<open>The bit positions of a key.\<close>

definition bf_pos :: "'a bloom_scheme \<Rightarrow> bytes \<Rightarrow> nat set" where
  "bf_pos bf key = (\<lambda>i. unat (key_hash key i mod filterSize bf)) ` {..<unat (functionCount bf)}"

lemma bf_hash_ok: "bloom_ok bf \<Longrightarrow> bf_hash bf key i = Inr (key_hash key i)"
  by (simp add: bf_hash_def bloom_ok_def hash_call_def dh_hash_Inr key_hash_def)

lemma bit_mask_nth: "b < 8 \<Longrightarrow> bit_mask ! b = push_bit b 1"
proof -
  have "\<forall>b \<in> set [0..<8]. bit_mask ! b = push_bit b 1" by code_simp
  then show "b < 8 \<Longrightarrow> ?thesis" by simp
qed

lemma bit_mask_BITMASK: "bit_mask ! (p mod 8) = BITMASK p"
  by (simp add: bit_mask_nth BITMASK_def)

lemma and_BITMASK_eq: "w AND BITMASK b = BITMASK b \<longleftrightarrow> bit w (b mod 8)"
proof
  assume "w AND BITMASK b = BITMASK b"
  then have "bit (w AND BITMASK b) (b mod 8) = bit (BITMASK b) (b mod 8)" by simp
  then show "bit w (b mod 8)" by (simp add: bit_and_iff bit_BITMASK)
next
  assume "bit w (b mod 8)"
  then show "w AND BITMASK b = BITMASK b" by (intro bit_eqI) (auto simp: bit_and_iff bit_BITMASK)
qed

lemma pos_less: "0 < filterSize bf \<Longrightarrow> unat (h mod filterSize bf) < unat (filterSize bf)"
  by (simp add: unat_mod_distrib word_gt_0 unat_gt_0)

lemma pos_byte: "bloom_ok bf \<Longrightarrow> unat (h mod filterSize bf) div 8 < length (bitArray bf)"
  using pos_less [of bf h] by (auto simp: bloom_ok_def)

lemma bf_set_eq: "bf_set h bf = bf\<lparr>bitArray := BITSET (bitArray bf) (unat (h mod filterSize bf))\<rparr>"
  by (simp add: bf_set_def bf_compute_indices_def Let_def BITSET_def BITSLOT_def
      unat_div_distrib unat_mod_distrib bit_mask_BITMASK)

lemma bf_bit_eq: "bf_bit bf h = BITTEST (bitArray bf) (unat (h mod filterSize bf))"
  by (simp add: bf_bit_def bf_compute_indices_def Let_def unat_div_distrib unat_mod_distrib
      bit_mask_BITMASK and_BITMASK_eq BITTEST_bit)

text \<open>A loop that sets the bits of a list of hashes, in any order.\<close>

lemma set_bits:
  fixes bf :: "'a bloom_scheme"
  assumes "bloom_ok bf"
  shows "bloom_ok (fold bf_set hs bf) \<and>
    bf_bits (fold bf_set hs bf) = bf_bits bf \<union> (\<lambda>h. unat (h mod filterSize bf)) ` set hs \<and>
    fold bf_set hs bf = bf\<lparr>bitArray := bitArray (fold bf_set hs bf)\<rparr>"
  using assms
proof (induction hs arbitrary: bf)
  case (Cons h hs)
  let ?bf = "bf_set h bf"
  have ok: "bloom_ok ?bf" using Cons.prems by (simp add: bf_set_eq bloom_ok_def)
  have same: "filterSize ?bf = filterSize bf" by (simp add: bf_set_eq)
  have "bf_bits ?bf = insert (unat (h mod filterSize bf)) (bf_bits bf)"
    using Cons.prems pos_less [of bf h] pos_byte [of bf h]
    by (auto simp: bf_bits_def bf_set_eq BITTEST_BITSET bloom_ok_def)
  moreover have "fold bf_set hs ?bf = ?bf\<lparr>bitArray := bitArray (fold bf_set hs ?bf)\<rparr>"
    using Cons.IH [OF ok] by blast
  then have "fold bf_set hs ?bf = bf\<lparr>bitArray := bitArray (fold bf_set hs ?bf)\<rparr>"
    by (simp add: bf_set_eq)
  ultimately show ?case using Cons.IH [OF ok] by (simp add: same)
qed simp

lemma bf_items [simp]:
  "bf_bits (bf\<lparr>itemCount := n\<rparr>) = bf_bits bf" "bloom_ok (bf\<lparr>itemCount := n\<rparr>) = bloom_ok bf"
  "bf_pos (bf\<lparr>itemCount := n\<rparr>) = bf_pos bf" "bf_pos (bf\<lparr>bitArray := a\<rparr>) = bf_pos bf"
  by (simp_all add: bf_bits_def bloom_ok_def bf_pos_def fun_eq_iff)

lemma incItems_same [simp]:
  "bf_bits (incItems bf) = bf_bits bf" "bloom_ok (incItems bf) = bloom_ok bf" "bf_pos (incItems bf) = bf_pos bf"
  by (simp_all add: incItems_def)

lemma addItems_same [simp]:
  "bf_bits (addItems n bf) = bf_bits bf" "bloom_ok (addItems n bf) = bloom_ok bf" "bf_pos (addItems n bf) = bf_pos bf"
  by (simp_all add: addItems_def)

section \<open>What a filter promises\<close>

locale bloom_filter =
  fixes ok :: "'s \<Rightarrow> bool" and bits :: "'s \<Rightarrow> nat set" and pos :: "'s \<Rightarrow> bytes \<Rightarrow> nat set"
    and add :: "bytes \<Rightarrow> ('s, unit) prog" and contains :: "'s \<Rightarrow> bytes \<Rightarrow> exn + bool"
    and clear :: "'s \<Rightarrow> 's"
  assumes contains_bits: "ok s \<Longrightarrow> contains s k = Inr (pos s k \<subseteq> bits s)"
    and add_bits: "ok s \<Longrightarrow> add k s = (Inr (), s') \<Longrightarrow>
      ok s' \<and> bits s' = bits s \<union> pos s k \<and> pos s' = pos s"
    and clear_bits: "ok s \<Longrightarrow> ok (clear s) \<and> bits (clear s) = {} \<and> pos (clear s) = pos s"
begin

lemma adds:
  "ok s \<Longrightarrow> forE ks add s = (Inr (), s') \<Longrightarrow>
   ok s' \<and> bits s' = bits s \<union> (\<Union>k \<in> set ks. pos s k) \<and> pos s' = pos s"
proof (induction ks arbitrary: s)
  case (Cons k ks)
  obtain t where t: "add k s = (Inr (), t)" "forE ks add t = (Inr (), s')"
    using Cons.prems(2) by (auto simp: bindE_def split: prod.splits sum.splits)
  have "ok t \<and> bits t = bits s \<union> pos s k \<and> pos t = pos s" by (rule add_bits [OF Cons.prems(1) t(1)])
  then show ?case using Cons.IH [OF _ t(2)] by auto
qed (auto simp: ret_def)

text \<open>After adding keys, exactly those are reported whose positions the added keys cover.\<close>

lemma contains_adds:
  "ok s \<Longrightarrow> forE ks add (clear s) = (Inr (), s') \<Longrightarrow>
   contains s' k = Inr (pos s k \<subseteq> (\<Union>k \<in> set ks. pos s k))"
  using adds [of "clear s" ks s'] clear_bits [of s] contains_bits [of s' k] by auto

lemma no_false_negative:
  "ok s \<Longrightarrow> forE ks add s = (Inr (), s') \<Longrightarrow> k \<in> set ks \<Longrightarrow> contains s' k = Inr True"
  using adds [of s ks s'] contains_bits [of s' k] by auto

end

lemma bloom_add_loop:
  "bloom_ok bf \<Longrightarrow>
   forE is (\<lambda>i bf. case bf_hash bf key i of Inl e \<Rightarrow> (Inl e, bf) | Inr h \<Rightarrow> (Inr (), bf_set h bf)) bf =
     (Inr (), fold (\<lambda>i. bf_set (key_hash key i)) is bf)"
  using forE_pure [where I = bloom_ok and g = "\<lambda>i. bf_set (key_hash key i)" and s = bf and ks = "is"
      and f = "\<lambda>i bf. case bf_hash bf key i of Inl e \<Rightarrow> (Inl e, bf) | Inr h \<Rightarrow> (Inr (), bf_set h bf)"]
  by (simp add: bf_hash_ok bf_set_eq bloom_ok_def)

lemma bloom_add_run:
  assumes "bloom_ok bf"
  shows "bloom_add key bf =
    (if hardMaximum bf \<and> maxElements bf \<le> itemCount bf
     then (Inl (CString ''Maximum of Elements reached, adding failed''), bf)
     else (Inr (), incItems (fold bf_set (map (key_hash key) [0..<unat (functionCount bf)]) bf)))"
  using assms by (simp add: bloom_add_def bindE_def bloom_add_loop modify_def fold_map comp_def)

lemma image_functions: "(\<lambda>h. unat (h mod filterSize bf)) ` set (map (key_hash key) [0..<unat (functionCount bf)]) = bf_pos bf key"
  by (auto simp: bf_pos_def)

lemma bloom_contains_bits:
  assumes "bloom_ok bf"
  shows "bloom_contains bf key = Inr (bf_pos bf key \<subseteq> bf_bits bf)"
proof -
  have "bloom_contains_from bf key is =
      Inr (\<forall>i \<in> set is. unat (key_hash key i mod filterSize bf) \<in> bf_bits bf)" for "is"
    using assms pos_less [of bf]
    by (induction "is") (auto simp: bf_hash_ok bf_bit_eq bf_bits_def bloom_ok_def)
  then show ?thesis by (auto simp: bloom_contains_def bf_pos_def)
qed

lemma bf_size_ok: "bloom_ok bf \<Longrightarrow> unat (bf_size bf) = (unat (filterSize bf) + 7) div 8"
  by (simp add: bf_size_def bloom_ok_def unat_div_distrib unat_word_ariths)

lemma BITTEST_replicate: "p div 8 < n \<Longrightarrow> \<not> BITTEST (replicate n 0) p"
  by (simp add: BITTEST_bit)

interpretation mem_bloom: bloom_filter bloom_ok bf_bits bf_pos bloom_add bloom_contains bloom_clear
proof unfold_locales
  show "bloom_ok s' \<and> bf_bits s' = bf_bits s \<union> bf_pos s k \<and> bf_pos s' = bf_pos s"
    if ok: "bloom_ok s" and a: "bloom_add k s = (Inr (), s')" for s k s'
  proof -
    let ?hs = "map (key_hash k) [0..<unat (functionCount s)]"
    have "s' = incItems (fold bf_set ?hs s)" using a ok by (simp add: bloom_add_run split: if_splits)
    moreover have "fold bf_set ?hs s = s\<lparr>bitArray := bitArray (fold bf_set ?hs s)\<rparr>"
      using set_bits [OF ok] by blast
    then have "bf_pos (fold bf_set ?hs s) = bf_pos s" using bf_items(4) [where bf = s] by metis
    ultimately show ?thesis using set_bits [OF ok, of ?hs] by (simp only: incItems_same image_functions)
  qed
  show "bloom_ok (bloom_clear s) \<and> bf_bits (bloom_clear s) = {} \<and> bf_pos (bloom_clear s) = bf_pos s"
    if "bloom_ok s" for s
    using that bf_size_ok [OF that]
    by (auto simp: bloom_clear_def bloom_ok_def bf_bits_def bf_pos_def fun_eq_iff BITTEST_replicate)
qed (rule bloom_contains_bits)

end
