(* ===== verification/BloomAlgebra.thy ===== *)
theory BloomAlgebra
  imports BloomFilter
begin

text \<open>
  Lemmas on the bulk operations of a filter in memory: adding an array of keys, union,
  intersection and difference, comparison, saving and loading.
\<close>

section \<open>Arrays of keys\<close>

lemma all_hashes_ok:
  "bloom_ok bf \<Longrightarrow> all_hashes bf keys ijs = Inr (map (\<lambda>(i, j). key_hash (key_at bf keys i) j) ijs)"
  by (induction bf keys ijs rule: all_hashes.induct) (simp_all add: bf_hash_ok)

lemma hash_order_image:
  "(\<lambda>h. unat (h mod filterSize bf)) ` set (map (\<lambda>(i, j). key_hash (key_at bf keys i) j) (hash_order bf n)) =
     (\<Union>i < n. bf_pos bf (key_at bf keys i))"
proof -
  have "set (hash_order bf n) = {..<n} \<times> {..<unat (functionCount bf)}"
    by (simp add: hash_order_def lessThan_atLeast0)
  then show ?thesis by (force simp: bf_pos_def image_image case_prod_beta)
qed

lemma bloom_addAll_bits:
  assumes "bloom_ok bf" "\<not> (hardMaximum bf \<and> maxElements bf < itemCount bf + word_of_nat n)"
  shows "\<exists>bf'. bloom_addAll keys n bf = (Inr (), bf') \<and> bloom_ok bf' \<and>
    bf_bits bf' = bf_bits bf \<union> (\<Union>i < n. bf_pos bf (key_at bf keys i)) \<and>
    itemCount bf' = (if itemCount bf + word_of_nat n < - 1 then itemCount bf + word_of_nat n else - 1)"
proof -
  let ?hs = "sort (map (\<lambda>(i, j). key_hash (key_at bf keys i) j) (hash_order bf n))"
  have run: "bloom_addAll keys n bf = (Inr (), addItems n (fold bf_set ?hs bf))"
    using assms by (simp add: bloom_addAll_def all_hashes_ok del: set_sort)
  have keep: "fold bf_set ?hs bf = bf\<lparr>bitArray := bitArray (fold bf_set ?hs bf)\<rparr>"
    using set_bits [OF assms(1)] by blast
  have "itemCount (fold bf_set ?hs bf) = itemCount (bf\<lparr>bitArray := bitArray (fold bf_set ?hs bf)\<rparr>)"
    using keep by simp
  then have cnt: "itemCount (fold bf_set ?hs bf) = itemCount bf" by simp
  have "bloom_ok (addItems n (fold bf_set ?hs bf))"
    "bf_bits (addItems n (fold bf_set ?hs bf)) = bf_bits bf \<union> (\<Union>i < n. bf_pos bf (key_at bf keys i))"
    using set_bits [OF assms(1), of ?hs] hash_order_image [of bf keys n] by simp_all
  moreover have "itemCount (addItems n (fold bf_set ?hs bf)) =
      (if itemCount bf + word_of_nat n < - 1 then itemCount bf + word_of_nat n else - 1)"
    by (simp add: addItems_def cnt)
  ultimately show ?thesis using run by blast
qed

lemma bloom_addAll_fields:
  assumes "bloom_ok bf" "bloom_addAll keys n bf = (Inr (), bf')"
  shows "bf_pos bf' = bf_pos bf" "hashSize bf' = hashSize bf"
proof -
  let ?hs = "sort (map (\<lambda>(i, j). key_hash (key_at bf keys i) j) (hash_order bf n))"
  have bf': "bf' = addItems n (fold bf_set ?hs bf)"
    using assms by (auto simp: bloom_addAll_def all_hashes_ok split: if_splits simp del: set_sort)
  have "fold bf_set ?hs bf = bf\<lparr>bitArray := bitArray (fold bf_set ?hs bf)\<rparr>"
    using set_bits [OF assms(1)] by blast
  then have "bf_pos (fold bf_set ?hs bf) = bf_pos bf" "hashSize (fold bf_set ?hs bf) = hashSize bf"
    by (metis bf_items(4), metis (no_types, lifting) bloom.select_convs(6) bloom.surjective bloom.update_convs(8))
  then show "bf_pos bf' = bf_pos bf" "hashSize bf' = hashSize bf"
    unfolding bf' by (simp_all add: addItems_def)
qed

lemma bloom_containsAll_ok:
  assumes "bloom_ok bf"
  shows "bloom_containsAll bf keys n =
    Inr (case find (\<lambda>i. \<not> bf_pos bf (key_at bf keys i) \<subseteq> bf_bits bf) [0..<n] of None \<Rightarrow> n | Some i \<Rightarrow> i)"
proof -
  have "bloom_containsAll_from bf keys n is =
      Inr (case find (\<lambda>i. \<not> bf_pos bf (key_at bf keys i) \<subseteq> bf_bits bf) is of None \<Rightarrow> n | Some i \<Rightarrow> i)" for "is"
    using assms by (induction "is") (simp_all add: bloom_contains_bits)
  then show ?thesis by (simp add: bloom_containsAll_def)
qed

section \<open>Union, intersection, difference\<close>

lemma merge_bytes_map2:
  assumes "length a = n" "length b = n"
  shows "merge_bytes f n a b = map2 f a b"
proof -
  have "m \<le> n \<Longrightarrow> length (merge_bytes f m a b) = n \<and>
      (\<forall>i < n. merge_bytes f m a b ! i = (if i < m then f (a ! i) (b ! i) else a ! i))" for m
  proof (induction m)
    case (Suc m)
    then have "merge_bytes f (Suc m) a b = (merge_bytes f m a b)[m := f (merge_bytes f m a b ! m) (b ! m)]"
      by (simp add: merge_bytes_def)
    with Suc show ?case by (auto simp: nth_list_update)
  qed (simp add: merge_bytes_def assms)
  from this [of n] show ?thesis using assms by (intro nth_equalityI) simp_all
qed

lemma merge_bits:
  assumes "bloom_ok a" "bloom_ok b" "filterSize a = filterSize b"
    and f: "\<And>x y i. bit (f x y) i = g (bit x i) (bit y i)"
  shows "bloom_ok (bloom_merge f a b) \<and> bf_pos (bloom_merge f a b) = bf_pos a \<and>
    bf_bits (bloom_merge f a b) = {p. p < unat (filterSize a) \<and> g (p \<in> bf_bits a) (p \<in> bf_bits b)}"
proof -
  let ?n = "(unat (filterSize a) + 7) div 8"
  have l: "length (bitArray a) = ?n" "length (bitArray b) = ?n" using assms by (simp_all add: bloom_ok_def)
  have m: "bloom_merge f a b = a\<lparr>bitArray := map2 f (bitArray a) (bitArray b)\<rparr>"
    using assms(3) merge_bytes_map2 [OF l] by (simp add: bloom_merge_def bf_size_ok [OF assms(1)])
  have "BITTEST (map2 f (bitArray a) (bitArray b)) p = g (BITTEST (bitArray a) p) (BITTEST (bitArray b) p)"
    if "p < unat (filterSize a)" for p using that l by (simp add: BITTEST_bit f)
  then show ?thesis using assms(1,3) l by (auto simp: m bloom_ok_def bf_bits_def)
qed

section \<open>Comparison\<close>

lemma bits_equal_whole:
  assumes "bloom_ok a" "bloom_ok b" "filterSize a = filterSize b" "filterSize a mod 8 = 0"
  shows "bits_equal (filterSize a) (bitArray a) (bitArray b) \<longleftrightarrow> bf_bits a = bf_bits b"
proof -
  let ?n = "unat (filterSize a) div 8"
  have "unat (filterSize a) mod 8 = unat (filterSize a mod 8)" by (simp add: unat_mod_distrib)
  then have m: "unat (filterSize a) mod 8 = 0" using assms(4) by simp
  then have n: "8 * ?n = unat (filterSize a)" by presburger
  have l: "length (bitArray a) = ?n" "length (bitArray b) = ?n" using assms(1-3) m
    by (auto simp: bloom_ok_def)
  have "bits_equal (filterSize a) (bitArray a) (bitArray b) \<longleftrightarrow> bitArray a = bitArray b"
    using l by (simp add: bits_equal_def Let_def assms(4) unat_div_distrib)
  also have "\<dots> \<longleftrightarrow> bf_bits a = bf_bits b"
    unfolding bytes_eq_iff_bits [OF l] bf_bits_def assms(3) [symmetric] n by auto
  finally show ?thesis .
qed

text \<open>The lowest bit of a last byte that is not full.\<close>

lemma drop_bit_or_1: "0 < n \<Longrightarrow> drop_bit n (w OR 1) = drop_bit n (w :: byte)"
  by (rule bit_eqI) (simp add: bit_simps)

lemma bits_equal_BITSET:
  assumes "bloom_ok bf" "filterSize bf mod 8 \<noteq> 0"
  shows "bits_equal (filterSize bf) (bitArray bf)
    (BITSET (bitArray bf) (8 * (unat (filterSize bf) div 8)))"
proof -
  let ?n = "unat (filterSize bf) div 8" and ?r = "unat (filterSize bf mod 8)"
  have r: "?r = unat (filterSize bf) mod 8" by (simp add: unat_mod_distrib)
  have "0 < ?r" using assms(2) by (simp add: unat_gt_0)
  moreover have "u div 8 < (u + 7) div 8" if "0 < u mod 8" for u :: nat using that by presburger
  ultimately have n: "?n < length (bitArray bf)" using assms(1) unfolding r bloom_ok_def by simp
  have mask: "BITMASK (8 * ?n) = 1" by (simp add: BITMASK_def)
  show ?thesis using n \<open>0 < ?r\<close> r
    by (simp add: bits_equal_def Let_def BITSET_def BITSLOT_def mask drop_bit_or_1 unat_div_distrib)
qed

lemma bf_bits_BITSET:
  assumes "bloom_ok bf" "p < unat (filterSize bf)"
  shows "bf_bits (bf\<lparr>bitArray := BITSET (bitArray bf) p\<rparr>) = insert p (bf_bits bf)"
proof -
  have "p div 8 < length (bitArray bf)" using assms by (auto simp: bloom_ok_def)
  then show ?thesis using assms(2) by (auto simp: bf_bits_def BITTEST_BITSET)
qed

lemma last_byte_bit: "(filterSize bf :: u64) mod 8 \<noteq> 0 \<Longrightarrow> 8 * (unat (filterSize bf) div 8) < unat (filterSize bf)"
proof -
  assume a: "filterSize bf mod 8 \<noteq> 0"
  have "unat (filterSize bf mod 8) = unat (filterSize bf) mod 8" by (simp add: unat_mod_distrib)
  moreover have "0 < unat (filterSize bf mod 8)" using a by (simp add: unat_gt_0)
  ultimately show ?thesis by presburger
qed

section \<open>Saving and loading\<close>

lemma bloom_save_load:
  assumes "bloom_ok a" "bloom_ok b" "filterSize a = filterSize b" "itemCount b = 0"
  shows "bloom_load (fst (bloom_save a) @ rest) (snd (bloom_save a)) b =
    (Inr (), b\<lparr>bitArray := bitArray a, itemCount := itemCount a\<rparr>)"
proof -
  let ?n = "unat ((filterSize a + 7) div 8)"
  have n: "length (bitArray a) = ?n" "length (bitArray b) = ?n"
    using bf_size_ok [OF assms(1)] bf_size_ok [OF assms(2)] assms
    by (simp_all add: bloom_ok_def bf_size_def)
  then show ?thesis using assms(3,4)
    by (simp add: bloom_load_def bloom_save_def Let_def memcpy_at_def)
qed

section \<open>The hard maximum\<close>

lemma bloom_add_fields:
  assumes "bloom_ok bf" "bloom_add key bf = (Inr (), bf')"
  shows "bloom_ok bf' \<and> hardMaximum bf' = hardMaximum bf \<and> maxElements bf' = maxElements bf \<and>
    itemCount bf' = (if itemCount bf < - 1 then itemCount bf + 1 else itemCount bf)"
proof -
  let ?b = "fold bf_set (map (key_hash key) [0..<unat (functionCount bf)]) bf"
  have b: "bf' = incItems ?b" using assms by (simp add: bloom_add_run split: if_splits)
  have k: "?b = bf\<lparr>bitArray := bitArray ?b\<rparr>" and ok: "bloom_ok ?b" using set_bits [OF assms(1)] by blast+
  have "hardMaximum ?b = hardMaximum bf" "maxElements ?b = maxElements bf" "itemCount ?b = itemCount bf"
    by (subst k, simp)+
  then show ?thesis using ok unfolding b by (simp add: incItems_def)
qed

lemma bloom_adds_max:
  assumes "bloom_ok bf" "hardMaximum bf" "itemCount bf \<le> maxElements bf"
  shows "\<exists>bf'. forE ks bloom_add bf =
      (if unat (itemCount bf) + length ks \<le> unat (maxElements bf) then Inr ()
       else Inl (CString ''Maximum of Elements reached, adding failed''), bf') \<and>
    unat (itemCount bf') = min (unat (itemCount bf) + length ks) (unat (maxElements bf))"
  using assms
proof (induction ks arbitrary: bf)
  case Nil
  then show ?case by (simp add: ret_def word_le_nat_alt)
next
  case (Cons k ks)
  show ?case
  proof (cases "maxElements bf \<le> itemCount bf")
    case True
    then have "itemCount bf = maxElements bf" using Cons.prems(3) by simp
    then show ?thesis using Cons.prems by (simp add: bindE_def bloom_add_run)
  next
    case False
    then obtain bf1 where a: "bloom_add k bf = (Inr (), bf1)" using Cons.prems(1) by (simp add: bloom_add_run)
    note f = bloom_add_fields [OF Cons.prems(1) a]
    have lt: "unat (itemCount bf) < unat (maxElements bf)" using False by (simp add: word_le_nat_alt)
    moreover have "unat (maxElements bf) < 2 ^ LENGTH(64)" by (rule unsigned_less)
    ultimately have "unat (itemCount bf) + 1 < 2 ^ 64" by simp
    then have u: "unat (itemCount bf + 1) = unat (itemCount bf) + 1" by (simp add: unat_plus_if')
    have "unat (- 1 :: u64) = 2 ^ 64 - 1" by (simp add: unsigned_minus_1_eq_mask mask_eq_exp_minus_1)
    then have "itemCount bf < - 1" using \<open>unat (itemCount bf) + 1 < 2 ^ 64\<close> unfolding word_less_nat_alt by linarith
    then have i: "unat (itemCount bf1) = unat (itemCount bf) + 1" using f u by simp
    have "itemCount bf1 \<le> maxElements bf1" using f i lt by (simp add: word_le_nat_alt)
    from Cons.IH [of bf1] this f i a Cons.prems(2) show ?thesis by (simp add: bindE_def add.commute)
  qed
qed

end
