(* ===== verification/FSBloomFilter.thy ===== *)
theory FSBloomFilter
  imports BloomAlgebra
begin

text \<open>
  \<^verbatim>\<open>setsync/bloom/FSBloomFilter.cpp\<close>: the filter in a memory mapped file.  The file holds
  nothing that outlives the constructor, which clears it; whether the temporary file, the
  write and the mapping succeed are parameters of \<open>fs_init\<close>.  A failed \<^verbatim>\<open>mmap\<close> is compared with
  \<^verbatim>\<open>NULL\<close>, which it never returns, so the filter is then cleared through a wild pointer.
\<close>

record fsbloom = bloom +
  mmapLength :: u32

definition fs_init :: "string option \<Rightarrow> u64 \<Rightarrow> u32 \<Rightarrow> bool \<Rightarrow> u64 \<Rightarrow> u64 \<Rightarrow> nat \<Rightarrow> bool \<Rightarrow> bool \<Rightarrow> bool \<Rightarrow>
    exn + fsbloom" where
  "fs_init bad_rate fsize functions hardmax n junk hsize file_ok write_ok mmap_ok =
     (case bad_rate of
        Some rate \<Rightarrow> Inl (RuntimeError (''Wrong false positive rate: '' @ rate))
      | None \<Rightarrow>
        let bf = \<lparr>filterSize = fsize, itemCount = 0,
              functionCount = (if functions < 1 then 1 else functions),
              hardMaximum = hardmax, maxElements = (if hardmax then n else junk), hashSize = hsize,
              hashFunction = Some hsize, bitArray = [], mmapLength = ucast ((fsize + 7) div 8)\<rparr>
        in if \<not> file_ok then Inl (RuntimeError ''TEMP File fail!'')
           else if \<not> write_ok then Inl (RuntimeError ''writing to bloom filter file failed!'')
           else if \<not> mmap_ok then Inl UndefinedBehaviour
           else Inr (bf\<lparr>bitArray := replicate (unat (mmapLength bf)) 0\<rparr>))"

definition fs_load :: "bytes \<Rightarrow> u64 \<Rightarrow> (fsbloom, unit) prog" where
  "fs_load input n = (\<lambda>bf.
     if itemCount bf = 0
     then let sz = unat (mmapLength bf);
              bf = bf\<lparr>bitArray := memcpy_at (bitArray bf) 0 (take sz input)\<rparr>
          in if length input < sz then (Inl IosFailure, bf) else (Inr (), bf\<lparr>itemCount := n\<rparr>)
     else (Inl (RuntimeError ''This bloom filter already has got elements''), bf))"

definition fs_save :: "fsbloom \<Rightarrow> bytes \<times> u64" where
  "fs_save bf = (take (unat (mmapLength bf)) (bitArray bf), itemCount bf)"

definition fs_clear :: "fsbloom \<Rightarrow> fsbloom" where
  "fs_clear bf = bf\<lparr>bitArray := replicate (unat (mmapLength bf)) 0, itemCount := 0\<rparr>"

definition fs_compute_indices :: "fsbloom \<Rightarrow> u64 \<Rightarrow> u64 \<times> u64" where
  "fs_compute_indices bf h = ((h mod filterSize bf) div 8, h mod 8)"

definition fs_set :: "u64 \<Rightarrow> fsbloom \<Rightarrow> fsbloom" where
  "fs_set h bf =
     (case fs_compute_indices bf h of (bit_index, b) \<Rightarrow>
        let i = unat bit_index
        in bf\<lparr>bitArray := (bitArray bf)[i := bitArray bf ! i OR bit_mask ! unat b]\<rparr>)"

definition fs_bit :: "fsbloom \<Rightarrow> u64 \<Rightarrow> bool" where
  "fs_bit bf h =
     (case fs_compute_indices bf h of (bit_index, b) \<Rightarrow>
        (bitArray bf ! unat bit_index) AND bit_mask ! unat b = bit_mask ! unat b)"

definition fs_add :: "bytes \<Rightarrow> (fsbloom, unit) prog" where
  "fs_add key = (\<lambda>bf.
     if hardMaximum bf \<and> maxElements bf \<le> itemCount bf
     then (Inl (RuntimeError ''Maximum of Elements reached, adding failed''), bf)
     else bindE (forE [0..<unat (functionCount bf)] (\<lambda>i bf.
            case bf_hash bf key i of
              Inl e \<Rightarrow> (Inl e, bf)
            | Inr h \<Rightarrow> (Inr (), fs_set (h mod filterSize bf) bf)))
          (\<lambda>_. modify incItems) bf)"

definition fs_addAll :: "bytes \<Rightarrow> nat \<Rightarrow> (fsbloom, unit) prog" where
  "fs_addAll keys n = (\<lambda>bf.
     if hardMaximum bf \<and> maxElements bf < itemCount bf + word_of_nat n
     then (Inl (RuntimeError ''Maximum of Elements reached, adding failed''), bf)
     else (case all_hashes bf keys (hash_order bf n) of
        Inl e \<Rightarrow> (Inl e, bf)
      | Inr hs \<Rightarrow> (Inr (), addItems n (fold fs_set (sort hs) bf))))"

fun fs_contains_from :: "fsbloom \<Rightarrow> bytes \<Rightarrow> nat list \<Rightarrow> exn + bool" where
  "fs_contains_from bf key [] = Inr True"
| "fs_contains_from bf key (i # is) =
     (case bf_hash bf key i of
        Inl e \<Rightarrow> Inl e
      | Inr h \<Rightarrow> if \<not> fs_bit bf (h mod filterSize bf) then Inr False else fs_contains_from bf key is)"

definition fs_contains :: "fsbloom \<Rightarrow> bytes \<Rightarrow> exn + bool" where
  "fs_contains bf key = fs_contains_from bf key [0..<unat (functionCount bf)]"

text \<open>The loop of \<^verbatim>\<open>containsAll\<close>; \<^verbatim>\<open>return true\<close> of a function that returns a \<^verbatim>\<open>size_t\<close> is 1.\<close>

fun fs_scan :: "fsbloom \<Rightarrow> nat \<Rightarrow> u64 list \<Rightarrow> nat" where
  "fs_scan bf i [] = 1"
| "fs_scan bf i (h # hs) =
     (if \<not> fs_bit bf h then (if i = 0 then 1 else i) else fs_scan bf (Suc i) hs)"

definition fs_containsAll :: "fsbloom \<Rightarrow> bytes \<Rightarrow> nat \<Rightarrow> exn + nat" where
  "fs_containsAll bf keys n =
     (case all_hashes bf keys (hash_order bf n) of
        Inl e \<Rightarrow> Inl e
      | Inr hs \<Rightarrow> Inr (fs_scan bf 0 (sort (map (\<lambda>h. h mod filterSize bf) hs))))"

definition fs_merge :: "(byte \<Rightarrow> byte \<Rightarrow> byte) \<Rightarrow> fsbloom \<Rightarrow> fsbloom \<Rightarrow> fsbloom" where
  "fs_merge f this other =
     (if filterSize this = filterSize other
      then this\<lparr>bitArray := merge_bytes f (unat (mmapLength this)) (bitArray this) (bitArray other)\<rparr>
      else this)"

definition fs_and :: "fsbloom \<Rightarrow> fsbloom \<Rightarrow> fsbloom" where "fs_and = fs_merge (AND)"
definition fs_or :: "fsbloom \<Rightarrow> fsbloom \<Rightarrow> fsbloom" where "fs_or = fs_merge (OR)"
definition fs_xor :: "fsbloom \<Rightarrow> fsbloom \<Rightarrow> fsbloom" where "fs_xor = fs_merge (XOR)"

definition fs_eq :: "fsbloom \<Rightarrow> fsbloom \<Rightarrow> bool" where
  "fs_eq this other =
     (if filterSize this \<noteq> filterSize other then False
      else bits_equal (filterSize this) (bitArray this) (bitArray other))"

definition fs_neq :: "fsbloom \<Rightarrow> fsbloom \<Rightarrow> bool" where
  "fs_neq this other =
     (if filterSize this \<noteq> filterSize other then True
      else \<not> bits_equal (filterSize this) (bitArray this) (bitArray other))"

definition fs_toString :: "fsbloom \<Rightarrow> string" where
  "fs_toString bf = ArrayToBitString (bitArray bf) (unat (filterSize bf))"

section \<open>Lemmas\<close>

definition fs_ok :: "fsbloom \<Rightarrow> bool" where
  "fs_ok bf \<longleftrightarrow> bloom_ok bf \<and> unat (mmapLength bf) = (unat (filterSize bf) + 7) div 8"

lemma fs_ok_set: "fs_ok (bf\<lparr>bitArray := a\<rparr>) \<longleftrightarrow> bloom_ok (bf\<lparr>bitArray := a\<rparr>) \<and>
    unat (mmapLength bf) = (unat (filterSize bf) + 7) div 8"
  by (simp add: fs_ok_def)

text \<open>On a reduced hash the two ways to find the bit agree.\<close>

lemma word_mod_mod: "(h mod n) mod n = h mod (n :: u64)"
  by (simp add: word_unat_eq_iff unat_mod_distrib)

lemma fs_set_reduced: "0 < filterSize bf \<Longrightarrow> fs_set (h mod filterSize bf) bf = bf_set h bf"
  by (simp add: fs_set_def fs_compute_indices_def bf_set_def bf_compute_indices_def Let_def word_mod_mod)

lemma fs_bit_reduced: "0 < filterSize bf \<Longrightarrow> fs_bit bf (h mod filterSize bf) = bf_bit bf h"
  by (simp add: fs_bit_def fs_compute_indices_def bf_bit_def bf_compute_indices_def Let_def word_mod_mod)

lemma fs_ok_set_bits:
  assumes "fs_ok bf"
  shows "fs_ok (fold bf_set hs bf)"
proof -
  have "fold bf_set hs bf = bf\<lparr>bitArray := bitArray (fold bf_set hs bf)\<rparr>" "bloom_ok (fold bf_set hs bf)"
    using set_bits [where bf = bf and hs = hs] assms by (auto simp: fs_ok_def)
  then show ?thesis using assms fs_ok_set [where bf = bf and a = "bitArray (fold bf_set hs bf)"] by (simp add: fs_ok_def)
qed

lemma fs_add_run:
  assumes "fs_ok bf"
  shows "fs_add key bf =
    (if hardMaximum bf \<and> maxElements bf \<le> itemCount bf
     then (Inl (RuntimeError ''Maximum of Elements reached, adding failed''), bf)
     else (Inr (), incItems (fold bf_set (map (key_hash key) [0..<unat (functionCount bf)]) bf)))"
proof -
  have "forE is (\<lambda>i bf. case bf_hash bf key i of Inl e \<Rightarrow> (Inl e, bf)
      | Inr h \<Rightarrow> (Inr (), fs_set (h mod filterSize bf) bf)) bf =
    (Inr (), fold (\<lambda>i. bf_set (key_hash key i)) is bf)" for "is"
    using forE_pure [where I = bloom_ok and g = "\<lambda>i. bf_set (key_hash key i)" and s = bf and ks = "is"
      and f = "\<lambda>i bf. case bf_hash bf key i of Inl e \<Rightarrow> (Inl e, bf)
        | Inr h \<Rightarrow> (Inr (), fs_set (h mod filterSize bf) bf)"] assms
    by (simp add: bf_hash_ok fs_set_reduced bf_set_eq bloom_ok_def fs_ok_def)
  then show ?thesis by (simp add: fs_add_def bindE_def modify_def fold_map comp_def)
qed

lemma fs_contains_bits:
  assumes "fs_ok bf"
  shows "fs_contains bf key = Inr (bf_pos bf key \<subseteq> bf_bits bf)"
proof -
  have ok: "bloom_ok bf" "0 < filterSize bf" using assms by (simp_all add: fs_ok_def bloom_ok_def)
  have "fs_contains_from bf key is =
      Inr (\<forall>i \<in> set is. unat (key_hash key i mod filterSize bf) \<in> bf_bits bf)" for "is"
    using ok pos_less [of bf]
    by (induction "is") (auto simp: bf_hash_ok fs_bit_reduced bf_bit_eq bf_bits_def)
  then show ?thesis by (auto simp: fs_contains_def bf_pos_def)
qed

lemma fs_add_bits:
  assumes ok: "fs_ok s" and a: "fs_add k s = (Inr (), s')"
  shows "fs_ok s' \<and> bf_bits s' = bf_bits s \<union> bf_pos s k \<and> bf_pos s' = bf_pos s"
proof -
  let ?hs = "map (key_hash k) [0..<unat (functionCount s)]"
  have s': "s' = incItems (fold bf_set ?hs s)" using a ok by (simp add: fs_add_run split: if_splits)
  have b: "bloom_ok s" using ok by (simp add: fs_ok_def)
  have "fold bf_set ?hs s = s\<lparr>bitArray := bitArray (fold bf_set ?hs s)\<rparr>"
    using set_bits [OF b] by blast
  then have "bf_pos (fold bf_set ?hs s) = bf_pos s" using bf_items(4) [where bf = s] by metis
  moreover have "fs_ok s'" using fs_ok_set_bits [OF ok, of ?hs] by (simp add: s' fs_ok_def incItems_def)
  ultimately show ?thesis using set_bits [OF b, where hs = ?hs] by (simp only: s' incItems_same image_functions)
qed

lemma fs_clear_bits: "fs_ok s \<Longrightarrow> fs_ok (fs_clear s) \<and> bf_bits (fs_clear s) = {} \<and> bf_pos (fs_clear s) = bf_pos s"
  by (auto simp: fs_clear_def fs_ok_def bloom_ok_def bf_bits_def bf_pos_def fun_eq_iff BITTEST_replicate)

interpretation file_bloom: bloom_filter fs_ok bf_bits bf_pos fs_add fs_contains fs_clear
  by unfold_locales (simp_all add: fs_contains_bits fs_add_bits fs_clear_bits)

lemma fs_init_ok:
  assumes "fs_init None fsize functions hardmax n junk hsize True True True = Inr bf"
    and "0 < fsize" "unat fsize + 7 < 2 ^ 35" "16 \<le> hsize"
  shows "fs_ok bf \<and> bf_bits bf = {}"
proof -
  have s: "unat (fsize + 7) = unat fsize + 7" using assms(3) by (simp add: unat_word_ariths)
  have d: "unat ((fsize + 7) div 8) = (unat fsize + 7) div 8" by (simp add: unat_div_distrib s)
  have "unat (ucast ((fsize + 7) div 8) :: u32) = unat ((fsize + 7) div 8)"
    using assms(3) by (simp add: unsigned_ucast_eq d take_bit_nat_eq_self)
  then show ?thesis using assms d
    by (auto simp: fs_init_def Let_def fs_ok_def bloom_ok_def bf_bits_def BITTEST_replicate)
qed

text \<open>When every key is there the answer is 1, however many keys there are.\<close>

lemma fs_containsAll_found:
  assumes "fs_ok bf" "\<And>i. i < n \<Longrightarrow> bf_pos bf (key_at bf keys i) \<subseteq> bf_bits bf"
  shows "fs_containsAll bf keys n = Inr 1"
proof -
  have ok: "bloom_ok bf" "0 < filterSize bf" using assms(1) by (simp_all add: fs_ok_def bloom_ok_def)
  let ?hs = "map (\<lambda>(i, j). key_hash (key_at bf keys i) j) (hash_order bf n)"
  have "unat (h mod filterSize bf) \<in> bf_bits bf" if "h \<in> set ?hs" for h
    using hash_order_image [of bf keys n] assms(2) that by (fastforce simp: set_eq_iff)
  then have "\<forall>h \<in> set (sort (map (\<lambda>h. h mod filterSize bf) ?hs)). fs_bit bf h"
    using fs_bit_reduced [OF ok(2)] by (auto simp: bf_bit_eq bf_bits_def)
  moreover have "fs_scan bf i hs = 1" if "\<forall>h \<in> set hs. fs_bit bf h" for i hs
    using that by (induction hs arbitrary: i) simp_all
  ultimately show ?thesis by (simp add: fs_containsAll_def all_hashes_ok [OF ok(1)] del: set_sort)
qed

end
