(* ===== verification/CountingBloom.thy ===== *)
theory CountingBloom
  imports FSBloomFilter KeyValueStorage
begin

text \<open>
  \<^verbatim>\<open>setsync/bloom/KeyValueCountingBloomFilter.cpp\<close>: the filter in a file together with a
  storage that maps every set bit, as eight bytes, to the hashes that set it, one behind the
  other.  A handler is the list of the hashes it was called with.
\<close>

record kvc =
  kb_bf :: fsbloom
  kb_store :: kvstore

type_synonym 'a kvprog = "(kvc, 'a) prog"

definition on_bf :: "(fsbloom, 'a) prog \<Rightarrow> 'a kvprog" where
  "on_bf m = (\<lambda>kb. case m (kb_bf kb) of (r, bf) \<Rightarrow> (r, kb\<lparr>kb_bf := bf\<rparr>))"

definition kvc_sizeKey :: bytes where
  "kvc_sizeKey = [0x62, 0x66, 0x73, 0x69, 0x7A, 0x65]"

section \<open>Opening and closing\<close>

definition kvc_load_key :: "kvstore \<Rightarrow> bytes \<Rightarrow> fsbloom \<Rightarrow> fsbloom" where
  "kvc_load_key storage key bf =
     (if length key = 8 then fs_set (size_of_bytes key) bf
      else if length key = length kvc_sizeKey
      then (case storage_get storage kvc_sizeKey of
              None \<Rightarrow> bf
            | Some v \<Rightarrow> if length v = 8 then bf\<lparr>itemCount := size_of_bytes v\<rparr> else bf)
      else bf)"

definition kvc_open :: "fsbloom \<Rightarrow> kvstore \<Rightarrow> kvc" where
  "kvc_open bf storage = \<lparr>kb_bf = fold (kvc_load_key storage) (storage_keys storage) bf, kb_store = storage\<rparr>"

definition kvc_close :: "kvc \<Rightarrow> kvstore" where
  "kvc_close kb =
     (if 0 < itemCount (kb_bf kb)
      then storage_put (kb_store kb) kvc_sizeKey (size_to_bytes (itemCount (kb_bf kb)))
      else kb_store kb)"

section \<open>Differences\<close>

text \<open>The hashes in a stored value; what is left over behind the last whole one is not read.\<close>

definition kv_hashes :: "nat \<Rightarrow> bytes \<Rightarrow> bytes list" where
  "kv_hashes hs result = map (\<lambda>k. slice (k * hs) hs result) [0..<length result div hs]"

definition diff_bit :: "kvc \<Rightarrow> bytes \<Rightarrow> nat \<Rightarrow> nat \<times> nat \<Rightarrow> bytes list" where
  "diff_bit kb externalBF offset = (\<lambda>(i, j).
     if \<not> BITTEST (drop i externalBF) j \<and> BITTEST (drop (i + offset) (bitArray (kb_bf kb))) j
     then let pos = word_of_nat ((offset + i) * 8 + j)
          in if filterSize (kb_bf kb) < pos then []
             else (case storage_get (kb_store kb) (size_to_bytes pos) of
                     None \<Rightarrow> []
                   | Some result \<Rightarrow> kv_hashes (hashSize (kb_bf kb)) result)
     else [])"

definition kvc_diff :: "kvc \<Rightarrow> bytes \<Rightarrow> nat \<Rightarrow> nat \<Rightarrow> exn + bytes list" where
  "kvc_diff kb externalBF len offset =
     (if unat (mmapLength (kb_bf kb)) < len + offset then Inl (CString '''')
      else Inr (concat (map (diff_bit kb externalBF offset) (List.product [0..<len] [0..<8]))))"

definition kvc_getChunk :: "kvc \<Rightarrow> nat \<Rightarrow> nat \<Rightarrow> bytes" where
  "kvc_getChunk kb maxlength offset =
     (let sz = unat (bf_size (kb_bf kb))
      in if sz \<le> offset then []
         else let chunksize = min maxlength (sz - offset)
              in slice offset chunksize (bitArray (kb_bf kb)))"

section \<open>Adding and removing\<close>

text \<open>The loop of \<^verbatim>\<open>add\<close>; \<open>True\<close> when it returned from the whole function.\<close>

fun kvc_add_from :: "bytes \<Rightarrow> nat list \<Rightarrow> bool kvprog" where
  "kvc_add_from key [] kb = (Inr False, kb)"
| "kvc_add_from key (i # is) kb =
     (let bf = kb_bf kb; hs = hashSize bf
      in case bf_hash bf key i of
           Inl e \<Rightarrow> (Inl e, kb)
         | Inr h \<Rightarrow>
             let k = size_to_bytes (h mod filterSize bf)
             in case storage_get (kb_store kb) k of
                  None \<Rightarrow> kvc_add_from key is (kb\<lparr>kb_store := storage_put (kb_store kb) k (take hs key)\<rparr>)
                | Some result \<Rightarrow>
                    if take hs key \<in> set (kv_hashes hs result) then (Inr True, kb)
                    else kvc_add_from key is
                      (kb\<lparr>kb_store := storage_put (kb_store kb) k (result @ take hs key)\<rparr>))"

definition kvc_add :: "bytes \<Rightarrow> unit kvprog" where
  "kvc_add key = (\<lambda>kb.
     bindE (kvc_add_from key [0..<unat (functionCount (kb_bf kb))])
       (\<lambda>returned. if returned then ret () else on_bf (fs_add key)) kb)"

definition kvc_clear :: "kvc \<Rightarrow> kvc" where
  "kvc_clear kb = kb\<lparr>kb_store := storage_clear (kb_store kb), kb_bf := fs_clear (kb_bf kb)\<rparr>"

definition kvc_addAll :: "bytes \<Rightarrow> nat \<Rightarrow> unit kvprog" where
  "kvc_addAll keys n = (\<lambda>kb. forE [0..<n] (\<lambda>i. kvc_add (key_at (kb_bf kb) keys i)) kb)"

text \<open>The loop that moves the other hashes of a value to the front.\<close>

definition squeeze :: "nat \<Rightarrow> bytes \<Rightarrow> bytes \<Rightarrow> bytes" where
  "squeeze hs key result =
     snd (fold (\<lambda>j (out, buf).
        let buf = memcpy_at buf out (slice (j * hs) hs buf)
        in if slice (j * hs) hs buf \<noteq> take hs key then (out + hs, buf) else (out, buf))
       [0..<length result div hs] (0, result))"

text \<open>One turn of the loop of \<^verbatim>\<open>remove\<close>: whether it found the single hash of a bit.\<close>

definition kvc_remove_function :: "bytes \<Rightarrow> nat \<Rightarrow> bool kvprog" where
  "kvc_remove_function key func = (\<lambda>kb.
     let bf = kb_bf kb; hs = hashSize bf
     in case bf_hash bf key func of
          Inl e \<Rightarrow> (Inl e, kb)
        | Inr h \<Rightarrow>
            let pos = h mod filterSize bf; k = size_to_bytes pos
            in case storage_get (kb_store kb) k of
                 None \<Rightarrow> (Inr False, kb)
               | Some result \<Rightarrow>
                   if 1 < length result div hs
                   then (Inr False, kb\<lparr>kb_store := storage_put (kb_store kb) k
                           (take (length result - 1) (squeeze hs key result))\<rparr>)
                   else (case storage_del (kb_store kb) k of
                           Inl e \<Rightarrow> (Inl e, kb)
                         | Inr store \<Rightarrow>
                             (Inr True, kb\<lparr>kb_store := store,
                                kb_bf := bf\<lparr>bitArray := BITCLEAR (bitArray bf) (unat pos)\<rparr>\<rparr>)))"

fun kvc_remove_from :: "bytes \<Rightarrow> bool \<Rightarrow> nat list \<Rightarrow> bool kvprog" where
  "kvc_remove_from key result [] = ret result"
| "kvc_remove_from key result (i # is) =
     bindE (kvc_remove_function key i) (\<lambda>hash_found. kvc_remove_from key (result \<or> hash_found) is)"

definition kvc_remove :: "bytes \<Rightarrow> bool kvprog" where
  "kvc_remove key = (\<lambda>kb.
     case fs_contains (kb_bf kb) key of
       Inl e \<Rightarrow> (Inl e, kb)
     | Inr c \<Rightarrow>
         if \<not> c then (Inr False, kb)
         else kvc_remove_from key False [0..<unat (functionCount (kb_bf kb))] kb)"

end
