(* ===== verification/SetIndex.thy ===== *)
theory SetIndex
  imports KeyValueStorage
begin

text \<open>
  \<^verbatim>\<open>setsync/index/KeyValueIndex.cpp\<close>: the data stored under its hash.  The state is the storage;
  \<open>hs\<close> is the hash size.  \<^verbatim>\<open>getSizeOf\<close> returns an uninitialised variable for an absent hash,
  which is the parameter \<open>junk\<close>.
\<close>

definition index_clear :: "kvstore \<Rightarrow> kvstore" where
  "index_clear storage = storage_clear storage"

definition index_remove :: "nat \<Rightarrow> bytes \<Rightarrow> kvstore \<Rightarrow> bool \<times> kvstore" where
  "index_remove hs hash storage =
     (case storage_del storage (take hs hash) of
        Inr storage' \<Rightarrow> (True, storage')
      | Inl _ \<Rightarrow> (False, storage))"

definition index_getSizeOf :: "nat \<Rightarrow> nat \<Rightarrow> bytes \<Rightarrow> kvstore \<Rightarrow> nat" where
  "index_getSizeOf junk hs hash storage =
     (case storage_get storage (take hs hash) of Some result \<Rightarrow> length result | None \<Rightarrow> junk)"

definition index_get :: "nat \<Rightarrow> bytes \<Rightarrow> bytes \<Rightarrow> nat \<Rightarrow> kvstore \<Rightarrow> bool \<times> bytes \<times> nat" where
  "index_get hs hash buffer buffersize storage =
     (case storage_get storage (take hs hash) of
        Some result \<Rightarrow>
          let n = min (length result) buffersize in (True, memcpy_at buffer 0 (take n result), n)
      | None \<Rightarrow> (False, buffer, buffersize))"

definition index_put :: "nat \<Rightarrow> bytes \<Rightarrow> bytes \<Rightarrow> kvstore \<Rightarrow> bool \<times> kvstore" where
  "index_put hs hash data storage = (True, storage_put storage (take hs hash) data)"

lemma index_get_put:
  assumes "length buffer = length data"
  shows "index_get hs hash buffer (length data) (snd (index_put hs hash data storage)) =
    (True, data, length data)"
  using assms by (simp add: index_get_def index_put_def kv.get_put memcpy_at_def)

lemma index_getSizeOf_put: "index_getSizeOf junk hs hash (snd (index_put hs hash data storage)) = length data"
  by (simp add: index_getSizeOf_def index_put_def kv.get_put)

lemma index_remove_put:
  "\<exists>storage'. index_remove hs hash (snd (index_put hs hash data storage)) = (True, storage') \<and>
    storage_get storage' = (storage_get storage)(take hs hash := None)"
  using kv.del_put [of storage "take hs hash" data] by (auto simp: index_remove_def index_put_def)

end
