(* ===== verification/StringKeys.thy ===== *)
theory StringKeys
  imports SetHash CountingBloom SetIndex
begin

text \<open>
  The overloads of the base classes \<^verbatim>\<open>AbstractBloomFilter\<close>, \<^verbatim>\<open>CountingBloomFilter\<close> and
  \<^verbatim>\<open>AbstractSetIndex\<close> that hash a string or data and call the virtual method for hashes, which is
  their argument \<open>method\<close>.
\<close>

definition cstr_key :: "CryptoHash \<Rightarrow> string \<Rightarrow> bytes" where
  "cstr_key h str = the (snd (the (hash_cstr h str)))"

definition string_key :: "CryptoHash \<Rightarrow> string \<Rightarrow> bytes" where
  "string_key h str = the (snd (the (hash_string h str)))"

definition abf_add_string :: "CryptoHash \<Rightarrow> (bytes \<Rightarrow> ('s, unit) prog) \<Rightarrow> string \<Rightarrow> ('s, unit) prog" where
  "abf_add_string h method str = method (string_key h str)"

definition abf_add_cstr :: "CryptoHash \<Rightarrow> (bytes \<Rightarrow> ('s, unit) prog) \<Rightarrow> string \<Rightarrow> ('s, unit) prog" where
  "abf_add_cstr h method str = method (cstr_key h str)"

definition abf_contains_string :: "CryptoHash \<Rightarrow> ('s \<Rightarrow> bytes \<Rightarrow> exn + bool) \<Rightarrow> 's \<Rightarrow> string \<Rightarrow> exn + bool" where
  "abf_contains_string h method bf str = method bf (string_key h str)"

definition abf_contains_cstr :: "CryptoHash \<Rightarrow> ('s \<Rightarrow> bytes \<Rightarrow> exn + bool) \<Rightarrow> 's \<Rightarrow> string \<Rightarrow> exn + bool" where
  "abf_contains_cstr h method bf str = method bf (cstr_key h str)"

definition cbf_remove_cstr :: "CryptoHash \<Rightarrow> (bytes \<Rightarrow> ('s, bool) prog) \<Rightarrow> string \<Rightarrow> ('s, bool) prog" where
  "cbf_remove_cstr h method str = method (cstr_key h str)"

definition cbf_remove_string :: "CryptoHash \<Rightarrow> (bytes \<Rightarrow> ('s, bool) prog) \<Rightarrow> string \<Rightarrow> ('s, bool) prog" where
  "cbf_remove_string h method str = method (string_key h str)"

definition asi_put_data :: "CryptoHash \<Rightarrow> (bytes \<Rightarrow> bytes \<Rightarrow> 's \<Rightarrow> bool \<times> 's) \<Rightarrow> bytes \<Rightarrow> 's \<Rightarrow> bool \<times> 's" where
  "asi_put_data h method data = method (the (snd (the (hash_data h data)))) data"

text \<open>The two ways to hash a string agree up to its first null character.\<close>

lemma string_key_c_str: "string_key h (c_str str) = cstr_key h str"
  by (simp add: string_key_def cstr_key_def hash_string_def hash_cstr_def)

lemma length_cstr_key:
  assumes "CryptoHash_init name = Inr h"
  shows "length (cstr_key h str) = unat (getHashSize h)"
proof -
  have "cstr_key h str = te_hash (hash_env h []) (str_bytes (c_str str))"
    by (simp add: cstr_key_def hash_cstr_def hash_env_def hash_data_def)
  then show ?thesis using hash_env_length(1) [OF assms, of "[]"] by (simp add: hash_env_def)
qed

end
