(* ===== verification/CountingRep.thy ===== *)
theory CountingRep
  imports CountingBloom
begin

text \<open>
  The counting filter as a set of keys: \<open>kvc_ok kb K\<close> says that the bits set are those of the
  keys \<open>K\<close>, and that the storage holds, at every bit, exactly the keys that set it.  Adding a
  key whose hash functions hit different bits keeps it; so do comparing and reopening.
\<close>

section \<open>Positions\<close>

definition key_pos :: "'a bloom_scheme \<Rightarrow> bytes \<Rightarrow> nat \<Rightarrow> u64" where
  "key_pos bf key i = key_hash key i mod filterSize bf"

definition pos_list :: "'a bloom_scheme \<Rightarrow> bytes \<Rightarrow> u64 list" where
  "pos_list bf key = map (key_pos bf key) [0..<unat (functionCount bf)]"

text \<open>The hash functions of the key hit different bits.\<close>

definition spread :: "'a bloom_scheme \<Rightarrow> bytes \<Rightarrow> bool" where
  "spread bf key \<longleftrightarrow> distinct (pos_list bf key)"

lemma bf_pos_list: "bf_pos bf key = unat ` set (pos_list bf key)"
  by (auto simp: bf_pos_def pos_list_def key_pos_def)

lemma unat_mem_bf_pos [simp]: "unat p \<in> bf_pos bf key \<longleftrightarrow> p \<in> set (pos_list bf key)"
  by (auto simp: bf_pos_list simp flip: word_unat_eq_iff)

section \<open>Stored values\<close>

lemma kv_hashes_concat_rest:
  assumes "length r < hs" "list_all (\<lambda>x. length x = hs) xs"
  shows "kv_hashes hs (concat xs @ r) = xs"
proof (rule nth_equalityI)
  show len: "length (kv_hashes hs (concat xs @ r)) = length xs"
    using assms by (simp add: kv_hashes_def length_concat_all)
  fix i assume "i < length (kv_hashes hs (concat xs @ r))"
  then show "kv_hashes hs (concat xs @ r) ! i = xs ! i"
    using len slice_concat [OF assms(2)] by (simp add: kv_hashes_def)
qed

lemma kv_hashes_concat: "0 < hs \<Longrightarrow> list_all (\<lambda>x. length x = hs) xs \<Longrightarrow> kv_hashes hs (concat xs) = xs"
  using kv_hashes_concat_rest [of "[]" hs xs] by simp

text \<open>The keys stored at a bit, as the value of its entry.\<close>

definition holds_at :: "kvstore \<Rightarrow> nat \<Rightarrow> (u64 \<Rightarrow> bytes list) \<Rightarrow> bool" where
  "holds_at store hs E \<longleftrightarrow>
     (\<forall>p. list_all (\<lambda>x. length x = hs) (E p)) \<and>
     (\<forall>p. storage_get store (size_to_bytes p) = (if E p = [] then None else Some (concat (E p))))"

lemma holds_at_get:
  assumes "holds_at store hs E" "0 < hs"
  shows "storage_get store (size_to_bytes p) = (if E p = [] then None else Some (concat (E p)))"
    and "kv_hashes hs (concat (E p)) = E p"
  using assms kv_hashes_concat by (auto simp: holds_at_def)

lemma holds_at_put:
  assumes "holds_at store hs E" "list_all (\<lambda>x. length x = hs) xs" "xs \<noteq> []"
  shows "holds_at (storage_put store (size_to_bytes p) (concat xs)) hs (E(p := xs))"
  using assms by (auto simp: holds_at_def kv.get_put)

section \<open>Adding\<close>

lemma kvc_add_from_run:
  assumes bf: "bloom_ok (kb_bf kb)" and hs: "length key = hashSize (kb_bf kb)"
    and E: "holds_at (kb_store kb) (hashSize (kb_bf kb)) E"
    and d: "distinct (map (key_pos (kb_bf kb) key) is)"
    and fresh: "\<forall>i \<in> set is. key \<notin> set (E (key_pos (kb_bf kb) key i))"
  shows "\<exists>store. kvc_add_from key is kb = (Inr False, kb\<lparr>kb_store := store\<rparr>) \<and>
    holds_at store (hashSize (kb_bf kb))
      (\<lambda>p. if p \<in> key_pos (kb_bf kb) key ` set is then E p @ [key] else E p)"
  using assms
proof (induction "is" arbitrary: kb E)
  case Nil
  then show ?case by (intro exI [of _ "kb_store kb"]) simp
next
  case (Cons i js)
  let ?bf = "kb_bf kb" and ?p = "key_pos (kb_bf kb) key i"
  have pos: "0 < hashSize ?bf" using Cons.prems(1) by (simp add: bloom_ok_def)
  note g = holds_at_get [OF Cons.prems(3) pos, of ?p]
  define kb' where "kb' = kb\<lparr>kb_store := storage_put (kb_store kb) (size_to_bytes ?p) (concat (E ?p @ [key]))\<rparr>"
  have step: "kvc_add_from key (i # js) kb = kvc_add_from key js kb'"
    using Cons.prems(2,5) g
    by (cases "E ?p = []") (simp_all add: Let_def bf_hash_ok [OF Cons.prems(1)] key_pos_def kb'_def)
  have all: "list_all (\<lambda>x. length x = hashSize ?bf) (E ?p @ [key])"
    using Cons.prems(2,3) by (simp add: holds_at_def)
  have E': "holds_at (kb_store kb') (hashSize (kb_bf kb')) (E(?p := E ?p @ [key]))"
    using holds_at_put [OF Cons.prems(3) all, of ?p] by (simp add: kb'_def)
  have same: "kb_bf kb' = kb_bf kb" by (simp add: kb'_def)
  have sp: "?p \<notin> key_pos ?bf key ` set js" using Cons.prems(4) by simp
  have "distinct (map (key_pos (kb_bf kb') key) js)" using Cons.prems(4) by (simp add: same)
  moreover have "\<forall>i \<in> set js. key \<notin> set ((E(?p := E ?p @ [key])) (key_pos (kb_bf kb') key i))"
    by (metis same fun_upd_other imageI Cons.prems(5) list.set_intros(2) sp)
  ultimately have "\<exists>store. kvc_add_from key js kb' = (Inr False, kb'\<lparr>kb_store := store\<rparr>) \<and>
    holds_at store (hashSize (kb_bf kb'))
      (\<lambda>p. if p \<in> key_pos (kb_bf kb') key ` set js then (E(?p := E ?p @ [key])) p @ [key]
           else (E(?p := E ?p @ [key])) p)"
    using Cons.IH [OF _ _ E'] Cons.prems(1,2) unfolding same by blast
  moreover have "(\<lambda>p. if p \<in> key_pos (kb_bf kb') key ` set js then (E(?p := E ?p @ [key])) p @ [key]
           else (E(?p := E ?p @ [key])) p) =
      (\<lambda>p. if p \<in> key_pos (kb_bf kb) key ` set (i # js) then E p @ [key] else E p)"
    using sp by (auto simp: same fun_eq_iff)
  ultimately show ?case unfolding step by (auto simp: kb'_def)
qed

lemma kvc_add_from_known:
  assumes bf: "bloom_ok (kb_bf kb)" and hs: "length key = hashSize (kb_bf kb)"
    and E: "holds_at (kb_store kb) (hashSize (kb_bf kb)) E"
    and "is = i # js" "key \<in> set (E (key_pos (kb_bf kb) key i))"
  shows "kvc_add_from key is kb = (Inr True, kb)"
proof -
  have pos: "0 < hashSize (kb_bf kb)" using bf by (simp add: bloom_ok_def)
  note g = holds_at_get [OF E pos, of "key_pos (kb_bf kb) key i"]
  have "E (key_pos (kb_bf kb) key i) \<noteq> []" using assms(5) by auto
  then show ?thesis using assms(2,4,5) g
    by (simp add: Let_def bf_hash_ok [OF bf] key_pos_def)
qed

section \<open>The filter as a set of keys\<close>

definition kvc_ok :: "kvc \<Rightarrow> bytes set \<Rightarrow> bool" where
  "kvc_ok kb K \<longleftrightarrow> fs_ok (kb_bf kb) \<and> 0 < functionCount (kb_bf kb) \<and> finite K \<and>
     (\<forall>k \<in> K. length k = hashSize (kb_bf kb)) \<and>
     bf_bits (kb_bf kb) = (\<Union>k \<in> K. bf_pos (kb_bf kb) k) \<and>
     (\<exists>E. holds_at (kb_store kb) (hashSize (kb_bf kb)) E \<and>
       (\<forall>p. distinct (E p) \<and> set (E p) = {k \<in> K. p \<in> set (pos_list (kb_bf kb) k)}))"

lemma kvc_ok_bloom: "kvc_ok kb K \<Longrightarrow> bloom_ok (kb_bf kb)"
  by (simp add: kvc_ok_def fs_ok_def)

lemma pos_list_hd:
  assumes "0 < functionCount bf"
  obtains js where "[0..<unat (functionCount bf)] = 0 # js"
proof -
  have "0 < unat (functionCount bf)" using assms by (simp add: unat_gt_0 word_gt_0)
  then show thesis using that upt_conv_Cons by blast
qed

lemma kvc_add_known:
  assumes "kvc_ok kb K" "key \<in> K"
  shows "kvc_add key kb = (Inr (), kb)"
proof -
  obtain E where E: "holds_at (kb_store kb) (hashSize (kb_bf kb)) E"
    "\<And>p. set (E p) = {k \<in> K. p \<in> set (pos_list (kb_bf kb) k)}" using assms(1) by (auto simp: kvc_ok_def)
  obtain js where js: "[0..<unat (functionCount (kb_bf kb))] = 0 # js"
    using assms(1) by (auto simp: kvc_ok_def elim: pos_list_hd)
  have "key_pos (kb_bf kb) key 0 \<in> set (pos_list (kb_bf kb) key)" by (simp add: pos_list_def js)
  then have "kvc_add_from key (0 # js) kb = (Inr True, kb)"
    using assms kvc_ok_bloom [OF assms(1)] E
    by (intro kvc_add_from_known [OF _ _ E(1) refl]) (auto simp: kvc_ok_def)
  then show ?thesis by (simp add: kvc_add_def bindE_def js ret_def)
qed

lemma bf_pos_cong: "filterSize a = filterSize b \<Longrightarrow> functionCount a = functionCount b \<Longrightarrow> bf_pos a = bf_pos b"
  by (simp add: bf_pos_def fun_eq_iff)

lemma pos_list_cong: "filterSize a = filterSize b \<Longrightarrow> functionCount a = functionCount b \<Longrightarrow> pos_list a = pos_list b"
  by (simp add: pos_list_def key_pos_def fun_eq_iff)

lemma incItems_fields [simp]:
  "filterSize (incItems bf) = filterSize bf" "functionCount (incItems bf) = functionCount bf"
  "hashSize (incItems bf) = hashSize bf" "hardMaximum (incItems bf) = hardMaximum bf"
  "maxElements (incItems bf) = maxElements bf"
  by (simp_all add: incItems_def)

lemma fs_add_fields:
  assumes "fs_ok bf" "fs_add key bf = (Inr (), bf')"
  shows "filterSize bf' = filterSize bf" "functionCount bf' = functionCount bf" "hashSize bf' = hashSize bf"
    "hardMaximum bf' = hardMaximum bf" "maxElements bf' = maxElements bf"
    "itemCount bf' = (if itemCount bf < - 1 then itemCount bf + 1 else itemCount bf)"
proof -
  let ?b = "fold bf_set (map (key_hash key) [0..<unat (functionCount bf)]) bf"
  have b: "bf' = incItems ?b" using assms by (simp add: fs_add_run split: if_splits)
  have "bloom_ok bf" using assms(1) by (simp add: fs_ok_def)
  then have k: "?b = bf\<lparr>bitArray := bitArray ?b\<rparr>" using set_bits [where bf = bf] by blast
  have "filterSize ?b = filterSize bf" "functionCount ?b = functionCount bf" "hashSize ?b = hashSize bf"
    "hardMaximum ?b = hardMaximum bf" "maxElements ?b = maxElements bf" "itemCount ?b = itemCount bf"
    by (subst k, simp)+
  then show "filterSize bf' = filterSize bf" "functionCount bf' = functionCount bf" "hashSize bf' = hashSize bf"
    "hardMaximum bf' = hardMaximum bf" "maxElements bf' = maxElements bf"
    "itemCount bf' = (if itemCount bf < - 1 then itemCount bf + 1 else itemCount bf)"
    unfolding b by (simp_all add: incItems_def)
qed

lemma kvc_add_fresh:
  assumes ok: "kvc_ok kb K" and len: "length key = hashSize (kb_bf kb)" and new: "key \<notin> K"
    and sp: "spread (kb_bf kb) key"
    and max: "\<not> (hardMaximum (kb_bf kb) \<and> maxElements (kb_bf kb) \<le> itemCount (kb_bf kb))"
  shows "\<exists>kb'. kvc_add key kb = (Inr (), kb') \<and> kvc_ok kb' (insert key K) \<and>
    filterSize (kb_bf kb') = filterSize (kb_bf kb) \<and> functionCount (kb_bf kb') = functionCount (kb_bf kb) \<and>
    hashSize (kb_bf kb') = hashSize (kb_bf kb) \<and> hardMaximum (kb_bf kb') = hardMaximum (kb_bf kb) \<and>
    maxElements (kb_bf kb') = maxElements (kb_bf kb) \<and>
    itemCount (kb_bf kb') = (if itemCount (kb_bf kb) < - 1 then itemCount (kb_bf kb) + 1 else itemCount (kb_bf kb))"
proof -
  let ?bf = "kb_bf kb"
  have fs: "fs_ok ?bf" using ok by (simp add: kvc_ok_def)
  obtain E where E: "holds_at (kb_store kb) (hashSize ?bf) E"
    "\<And>p. set (E p) = {k \<in> K. p \<in> set (pos_list ?bf k)}" "\<And>p. distinct (E p)"
    using ok by (auto simp: kvc_ok_def)
  obtain store where store: "kvc_add_from key [0..<unat (functionCount ?bf)] kb = (Inr False, kb\<lparr>kb_store := store\<rparr>)"
    "holds_at store (hashSize ?bf) (\<lambda>p. if p \<in> set (pos_list ?bf key) then E p @ [key] else E p)"
    using kvc_add_from_run [OF kvc_ok_bloom [OF ok] len E(1), of "[0..<unat (functionCount ?bf)]"] sp new E(2)
    by (auto simp: spread_def pos_list_def)
  obtain bf' where bf': "fs_add key ?bf = (Inr (), bf')"
    using fs_add_run [OF fs, of key] max by (simp only: if_False)
  note f = fs_add_fields [OF fs bf']
  note b = fs_add_bits [OF fs bf']
  have "kvc_add key kb = (Inr (), kb\<lparr>kb_store := store, kb_bf := bf'\<rparr>)"
    by (simp add: kvc_add_def bindE_def store(1) on_bf_def bf')
  moreover have "kvc_ok (kb\<lparr>kb_store := store, kb_bf := bf'\<rparr>) (insert key K)"
  proof -
    have p: "pos_list bf' = pos_list ?bf" using f by (intro pos_list_cong)
    let ?E = "\<lambda>p. if p \<in> set (pos_list ?bf key) then E p @ [key] else E p"
    have "set (?E p) = {k \<in> insert key K. p \<in> set (pos_list ?bf k)}" for p
      using E(2) [of p] by auto
    moreover have "distinct (?E p)" for p using E(2,3) [of p] new by auto
    moreover have "bf_bits bf' = (\<Union>k \<in> insert key K. bf_pos ?bf k)" using b ok by (auto simp: kvc_ok_def)
    moreover have "bf_pos bf' = bf_pos ?bf" using b by blast
    ultimately show ?thesis using store(2) b ok f len
      by (auto simp: kvc_ok_def p intro!: exI [of _ ?E])
  qed
  ultimately show ?thesis using f max by auto
qed

section \<open>What the filter reads\<close>

text \<open>
  A weaker view: the hashes read at every bit are those of the keys that set it, whatever
  bytes are left over behind them.
\<close>

definition reads_at :: "kvstore \<Rightarrow> nat \<Rightarrow> (u64 \<Rightarrow> bytes list) \<Rightarrow> bool" where
  "reads_at store hs E \<longleftrightarrow> (\<forall>p. case storage_get store (size_to_bytes p) of
     None \<Rightarrow> E p = [] | Some v \<Rightarrow> E p \<noteq> [] \<and> kv_hashes hs v = E p)"

definition kvc_reads :: "kvc \<Rightarrow> bytes set \<Rightarrow> bool" where
  "kvc_reads kb K \<longleftrightarrow> fs_ok (kb_bf kb) \<and>
     bf_bits (kb_bf kb) = (\<Union>k \<in> K. bf_pos (kb_bf kb) k) \<and>
     (\<exists>E. reads_at (kb_store kb) (hashSize (kb_bf kb)) E \<and>
       (\<forall>p. distinct (E p) \<and> set (E p) = {k \<in> K. p \<in> set (pos_list (kb_bf kb) k)}))"

lemma holds_reads: "holds_at store hs E \<Longrightarrow> 0 < hs \<Longrightarrow> reads_at store hs E"
  using holds_at_get [of store hs E] by (simp add: reads_at_def)

lemma kvc_ok_reads: "kvc_ok kb K \<Longrightarrow> kvc_reads kb K"
  using holds_reads [of "kb_store kb" "hashSize (kb_bf kb)"]
  by (auto simp: kvc_ok_def kvc_reads_def fs_ok_def bloom_ok_def)

end
