(* ===== verification/CountingDiff.thy ===== *)
theory CountingDiff
  imports CountingRep
begin

text \<open>
  What comparing a counting filter with the bits of another one reports, the chunks in which
  the bits are sent, and what is left in the storage when a filter is closed and opened again.
\<close>

section \<open>Differences\<close>

lemma BITTEST_drop: "i + j div 8 < length a \<Longrightarrow> BITTEST (drop i a) j = BITTEST a (8 * i + j)"
  by (simp add: BITTEST_bit)

lemma fs_bytes: "fs_ok bf \<Longrightarrow> unat (mmapLength bf) = length (bitArray bf)"
  by (simp add: fs_ok_def bloom_ok_def)

lemma pos_less_size: "fs_ok bf \<Longrightarrow> p \<in> bf_pos bf k \<Longrightarrow> p < unat (filterSize bf)"
  using pos_less [of bf] by (auto simp: bf_pos_def fs_ok_def bloom_ok_def)

lemma set_diff_bit:
  assumes ok: "kvc_reads kb K" and i: "i < len" "j < 8" "len \<le> length ext"
    and len: "len + offset \<le> length (bitArray (kb_bf kb))"
  shows "set (diff_bit kb ext offset (i, j)) =
    {k \<in> K. 8 * (offset + i) + j \<in> bf_pos (kb_bf kb) k \<and> \<not> BITTEST ext (8 * i + j)}"
proof -
  let ?bf = "kb_bf kb" and ?n = "8 * (offset + i) + j"
  let ?p = "word_of_nat ?n :: u64"
  have fs: "fs_ok ?bf" using ok by (simp add: kvc_reads_def)
  obtain E where E: "reads_at (kb_store kb) (hashSize ?bf) E"
    "\<And>p. set (E p) = {k \<in> K. p \<in> set (pos_list ?bf k)}" using ok by (auto simp: kvc_reads_def)
  note g = E(1) [unfolded reads_at_def, rule_format, of ?p]
  have lt: "offset + i < length (bitArray ?bf)" using i len by simp
  have "unat (mmapLength ?bf) < 2 ^ LENGTH(32)" by (rule unsigned_less)
  then have small: "length (bitArray ?bf) < 2 ^ 32" using fs_bytes [OF fs] by simp
  have p: "unat ?p = ?n" using lt small i by (intro unat_of_nat_small) simp
  have e: "BITTEST (drop i ext) j = BITTEST ext (8 * i + j)" using i by (intro BITTEST_drop) simp
  have b: "BITTEST (drop (i + offset) (bitArray ?bf)) j = BITTEST (bitArray ?bf) ?n"
    using i lt BITTEST_drop [of "i + offset" j "bitArray ?bf"] by (simp add: ac_simps)
  have in_pos: "?n \<in> bf_pos ?bf k \<longleftrightarrow> ?p \<in> set (pos_list ?bf k)" for k
    by (simp only: unat_mem_bf_pos [symmetric] p)
  have bits: "?n \<in> bf_pos ?bf k \<Longrightarrow> k \<in> K \<Longrightarrow> BITTEST (bitArray ?bf) ?n \<and> ?n < unat (filterSize ?bf)" for k
    using ok by (auto simp: kvc_reads_def bf_bits_def set_eq_iff)
  define n where "n = ?n"
  have n: "(offset + i) * 8 + j = n" by (simp add: n_def)
  have "diff_bit kb ext offset (i, j) =
      (if \<not> BITTEST ext (8 * i + j) \<and> BITTEST (bitArray ?bf) n \<and> n \<le> unat (filterSize ?bf)
       then E (word_of_nat n) else [])"
    using g p unfolding diff_bit_def prod.case e b n n_def [symmetric] by (auto simp: Let_def word_less_nat_alt split: option.splits)
  then have d: "diff_bit kb ext offset (i, j) =
      (if \<not> BITTEST ext (8 * i + j) \<and> BITTEST (bitArray ?bf) ?n \<and> ?n \<le> unat (filterSize ?bf) then E ?p else [])"
    unfolding n_def .
  have "set (E ?p) = {k \<in> K. ?n \<in> bf_pos ?bf k}" unfolding E(2) in_pos ..
  then show ?thesis unfolding d n_def [symmetric] using bits unfolding n_def [symmetric]
    by (auto simp: less_imp_le)
qed

text \<open>A chunk of another filter's bits, from byte \<open>offset\<close> on.\<close>

lemma kvc_diff_run:
  assumes ok: "kvc_reads kb K" and len: "len \<le> length ext" "len + offset \<le> length (bitArray (kb_bf kb))"
  shows "\<exists>ds. kvc_diff kb ext len offset = Inr ds \<and>
    set ds = {k \<in> K. \<exists>p \<in> bf_pos (kb_bf kb) k. 8 * offset \<le> p \<and> p < 8 * (offset + len) \<and> \<not> BITTEST ext (p - 8 * offset)}"
proof -
  let ?bf = "kb_bf kb"
  let ?ds = "concat (map (diff_bit kb ext offset) (List.product [0..<len] [0..<8]))"
  have fs: "fs_ok ?bf" using ok by (simp add: kvc_reads_def)
  have run: "kvc_diff kb ext len offset = Inr ?ds"
    using len fs_bytes [OF fs] by (simp add: kvc_diff_def)
  have "set ?ds = (\<Union>i < len. \<Union>j < 8. set (diff_bit kb ext offset (i, j)))"
    by (auto simp: lessThan_atLeast0)
  also have "\<dots> = (\<Union>i < len. \<Union>j < 8.
      {k \<in> K. 8 * (offset + i) + j \<in> bf_pos ?bf k \<and> \<not> BITTEST ext (8 * i + j)})"
    using set_diff_bit [OF ok _ _ len(1) len(2)] by simp
  also have "\<dots> = {k \<in> K. \<exists>p \<in> bf_pos ?bf k. 8 * offset \<le> p \<and> p < 8 * (offset + len) \<and> \<not> BITTEST ext (p - 8 * offset)}"
    (is "?L = ?R")
  proof
    show "?L \<subseteq> ?R"
    proof
      fix k assume "k \<in> ?L"
      then obtain i j where ij: "i < len" "j < 8" "k \<in> K" "8 * (offset + i) + j \<in> bf_pos ?bf k"
        "\<not> BITTEST ext (8 * i + j)" by blast
      moreover have "8 * (offset + i) + j - 8 * offset = 8 * i + j" by simp
      ultimately show "k \<in> ?R" by (auto intro!: bexI [of _ "8 * (offset + i) + j"])
    qed
    show "?R \<subseteq> ?L"
    proof
      fix k assume "k \<in> ?R"
      then obtain p where p: "k \<in> K" "p \<in> bf_pos ?bf k" "8 * offset \<le> p" "p < 8 * (offset + len)"
        "\<not> BITTEST ext (p - 8 * offset)" by blast
      let ?i = "(p - 8 * offset) div 8" and ?j = "(p - 8 * offset) mod 8"
      have "?i < len" "?j < 8" using p by auto
      moreover have "8 * ?i + ?j = p - 8 * offset" by simp
      then have "8 * (offset + ?i) + ?j = p" using p by (simp add: distrib_left)
      ultimately show "k \<in> ?L" using p by (intro UN_I [of ?i] UN_I [of ?j]) simp_all
    qed
  qed
  finally show ?thesis using run by blast
qed

text \<open>The whole filter: the keys that the other filter does not contain.\<close>

lemma kvc_diff_filter:
  assumes ok: "kvc_reads kb K" and other: "fs_ok other" "filterSize other = filterSize (kb_bf kb)"
      "functionCount other = functionCount (kb_bf kb)"
  shows "\<exists>ds. kvc_diff kb (bitArray other) (length (bitArray other)) 0 = Inr ds \<and>
    set ds = {k \<in> K. fs_contains other k = Inr False}"
proof -
  let ?bf = "kb_bf kb"
  have fs: "fs_ok ?bf" using ok by (simp add: kvc_reads_def)
  have l: "length (bitArray other) = length (bitArray ?bf)"
    using fs other by (simp add: fs_ok_def bloom_ok_def)
  have pos: "bf_pos ?bf = bf_pos other" using other by (intro bf_pos_cong) simp_all
  have "p < 8 * length (bitArray other) \<and> p < unat (filterSize other)" if "p \<in> bf_pos other k" for p k
    using pos_less_size [OF other(1) that] other(1) by (auto simp: fs_ok_def bloom_ok_def)
  then show ?thesis
    using kvc_diff_run [OF ok, of "length (bitArray other)" "bitArray other" 0] l
    by (auto simp: pos fs_contains_bits [OF other(1)] bf_bits_def)
qed

end
