(* ===== verification/CountingRemove.thy ===== *)
theory CountingRemove
  imports CountingDiff
begin

text \<open>
  Removing a key from the counting filter, adding keys whose hash functions collide, and
  adding a sequence of keys.  The first removal of a key leaves exactly the other keys
  readable; a bit shared with another key stays set, and its value loses one byte.
\<close>

section \<open>Moving the other hashes to the front\<close>

lemma memcpy_concat:
  assumes "list_all (\<lambda>x. length x = hs) ys" "m < length ys" "length x = hs"
  shows "memcpy_at (concat ys) (m * hs) x = concat (ys[m := x])"
proof -
  have t: "list_all (\<lambda>x. length x = hs) (take m ys)" "list_all (\<lambda>x. length x = hs) (take (Suc m) ys)"
    using assms(1) by (auto simp: list_all_iff dest: in_set_takeD)
  have "concat ys = concat (take m ys) @ concat (drop m ys)"
    by (simp flip: concat_append)
  then have "take (m * hs) (concat ys) = concat (take m ys)"
    using length_concat_all [OF t(1)] assms(2) by simp
  moreover have "concat ys = concat (take (Suc m) ys) @ concat (drop (Suc m) ys)"
    by (simp flip: concat_append)
  then have "drop (m * hs + hs) (concat ys) = concat (drop (Suc m) ys)"
    using length_concat_all [OF t(2)] assms(2) by simp
  ultimately show ?thesis using assms
    by (simp add: memcpy_at_def upd_conv_take_nth_drop)
qed

lemma squeeze_concat:
  assumes "list_all (\<lambda>x. length x = hs) xs" "0 < hs" "length key = hs"
  shows "\<exists>ys. squeeze hs key (concat xs) = concat ys \<and> list_all (\<lambda>x. length x = hs) ys \<and>
    length ys = length xs \<and> take (length (removeAll key xs)) ys = removeAll key xs"
proof -
  let ?step = "\<lambda>j (out, buf).
        let buf = memcpy_at buf out (slice (j * hs) hs buf)
        in if slice (j * hs) hs buf \<noteq> take hs key then (out + hs, buf) else (out, buf)"
  have inv: "j \<le> length xs \<Longrightarrow> \<exists>ys. fold ?step [0..<j] (0, concat xs) =
      (length (removeAll key (take j xs)) * hs, concat ys) \<and>
      list_all (\<lambda>x. length x = hs) ys \<and> length ys = length xs \<and>
      take (length (removeAll key (take j xs))) ys = removeAll key (take j xs) \<and> drop j ys = drop j xs" for j
  proof (induction j)
    case 0
    then show ?case using assms(1) by (auto intro: exI [of _ xs])
  next
    case (Suc j)
    let ?zs = "removeAll key (take j xs)"
    obtain ys where ys: "fold ?step [0..<j] (0, concat xs) = (length ?zs * hs, concat ys)"
      "list_all (\<lambda>x. length x = hs) ys" "length ys = length xs" "take (length ?zs) ys = ?zs"
      "drop j ys = drop j xs" using Suc by auto
    have m: "length ?zs \<le> j" using length_removeAll_less_eq [of key "take j xs"] Suc.prems by simp
    have yj: "ys ! j = xs ! j" using ys(3,5) Suc.prems by (metis Cons_nth_drop_Suc Suc_le_lessD list.inject)
    let ?ys = "ys[length ?zs := ys ! j]"
    have yl: "length (ys ! j) = hs" using ys(2,3) Suc.prems by (simp add: list_all_length)
    have all: "list_all (\<lambda>x. length x = hs) ?ys" 
      using ys(2) yl set_update_subset_insert [of ys "length ?zs" "ys ! j"] unfolding list_all_iff by blast
    have "slice (j * hs) hs (concat ys) = ys ! j" "slice (j * hs) hs (concat ?ys) = ?ys ! j"
      using slice_concat [OF ys(2), of j "[]"] slice_concat [OF all, of j "[]"] ys(3) Suc.prems by simp_all
    moreover have "?ys ! j = xs ! j" using yj m Suc.prems ys(3) by (simp add: nth_list_update)
    moreover have "memcpy_at (concat ys) (length ?zs * hs) (ys ! j) = concat ?ys"
      using m Suc.prems ys(3) by (intro memcpy_concat [OF ys(2) _ yl]) simp
    ultimately have "fold ?step [0..<Suc j] (0, concat xs) =
        (length (removeAll key (take (Suc j) xs)) * hs, concat ?ys)"
      using ys(1) assms(3) Suc.prems by (simp add: take_Suc_conv_app_nth)
    moreover have "take (length (removeAll key (take (Suc j) xs))) ?ys = removeAll key (take (Suc j) xs)"
      using Suc.prems ys(3,4) m yj by (cases "key = xs ! j") (simp_all add: take_Suc_conv_app_nth)
    moreover have "drop (Suc j) ?ys = drop (Suc j) xs"
      using ys(5) m by (simp add: drop_update_cancel) (metis drop_Suc tl_drop)
    ultimately show ?case using all ys(3) by (intro exI [of _ ?ys]) simp
  qed
  from inv [of "length xs"] obtain ys where "fold ?step [0..<length xs] (0, concat xs) = (length (removeAll key xs) * hs, concat ys)"
      "list_all (\<lambda>x. length x = hs) ys" "length ys = length xs"
      "take (length (removeAll key xs)) ys = removeAll key xs"
    by auto
  moreover have "length (concat xs) div hs = length xs" using assms by (simp add: length_concat_all)
  ultimately show ?thesis unfolding squeeze_def by auto
qed

text \<open>One byte short, the last slot is lost; the others are what is read.\<close>

lemma kv_hashes_squeeze:
  assumes "list_all (\<lambda>x. length x = hs) xs" "0 < hs" "length key = hs" "distinct xs" "key \<in> set xs"
  shows "kv_hashes hs (take (length (concat xs) - 1) (squeeze hs key (concat xs))) = removeAll key xs"
proof -
  have one: "Suc (length (removeAll key xs)) = length xs"
    using assms(4,5) by (simp add: distinct_remove1_removeAll [symmetric] length_remove1)
      (metis Suc_pred length_pos_if_in_set)
  obtain ys where ys: "squeeze hs key (concat xs) = concat ys" "list_all (\<lambda>x. length x = hs) ys"
    "length ys = length xs" "take (length (removeAll key xs)) ys = removeAll key xs"
    using squeeze_concat [OF assms(1,2,3)] by blast
  define zs where "zs = removeAll key xs"
  have "ys = zs @ [ys ! length zs]"
    using one ys(3,4) take_Suc_conv_app_nth [of "length zs" ys] by (simp add: zs_def)
  then obtain z where z: "ys = zs @ [z]" by blast
  have zl: "length z = hs" "list_all (\<lambda>x. length x = hs) zs" using ys(2) by (simp_all add: z)
  have "take (length (concat xs) - 1) (concat ys) = concat zs @ take (hs - 1) z"
    using one zl assms(1,2) length_concat_all [OF zl(2)]
    by (simp add: z length_concat_all flip: zs_def one)
  then show ?thesis using kv_hashes_concat_rest [of "take (hs - 1) z" hs zs] zl assms(2)
    by (simp add: ys(1) zs_def)
qed

section \<open>Removing a key\<close>

definition set_bits_of :: "kvc \<Rightarrow> kvstore \<Rightarrow> bytes \<Rightarrow> kvc" where
  "set_bits_of kb store bits = kb\<lparr>kb_store := store, kb_bf := kb_bf kb\<lparr>bitArray := bits\<rparr>\<rparr>"

lemma set_bits_of [simp]:
  "kb_store (set_bits_of kb store bits) = store"
  "kb_bf (set_bits_of kb store bits) = kb_bf kb\<lparr>bitArray := bits\<rparr>"
  "set_bits_of (set_bits_of kb store bits) store' bits' = set_bits_of kb store' bits'"
  by (simp_all add: set_bits_of_def)

lemma set_bits_of_same [simp]: "set_bits_of kb (kb_store kb) (bitArray (kb_bf kb)) = kb"
  by (simp add: set_bits_of_def)

lemma key_pos_bits [simp]: "key_pos (bf\<lparr>bitArray := bits\<rparr>) = key_pos bf"
  by (simp add: key_pos_def fun_eq_iff)

lemma bits_fields:
  "bitArray (bf\<lparr>bitArray := bits\<rparr>) = bits" "hashSize (bf\<lparr>bitArray := bits\<rparr>) = hashSize bf"
  "filterSize (bf\<lparr>bitArray := bits\<rparr>) = filterSize bf" "functionCount (bf\<lparr>bitArray := bits\<rparr>) = functionCount bf"
  by simp_all

text \<open>One hash function, at a bit whose value is a list of hashes with the key in it.\<close>

lemma kvc_remove_function_run:
  assumes fs: "fs_ok (kb_bf kb)" and hs: "length key = hashSize (kb_bf kb)"
    and v: "storage_get (kb_store kb) (size_to_bytes (key_pos (kb_bf kb) key i)) = Some (concat xs)"
    and xs: "list_all (\<lambda>x. length x = hashSize (kb_bf kb)) xs" "distinct xs" "key \<in> set xs"
  shows "\<exists>store bits w. kvc_remove_function key i kb = (Inr (xs = [key]), set_bits_of kb store bits) \<and>
    length bits = length (bitArray (kb_bf kb)) \<and>
    (\<forall>q. BITTEST bits q \<longleftrightarrow> BITTEST (bitArray (kb_bf kb)) q \<and>
       \<not> (xs = [key] \<and> q = unat (key_pos (kb_bf kb) key i))) \<and>
    storage_get store = (storage_get (kb_store kb))(size_to_bytes (key_pos (kb_bf kb) key i) := w) \<and>
    (case w of None \<Rightarrow> xs = [key] | Some w \<Rightarrow> xs \<noteq> [key] \<and> kv_hashes (hashSize (kb_bf kb)) w = removeAll key xs)"
proof -
  let ?bf = "kb_bf kb" and ?hs = "hashSize (kb_bf kb)" and ?p = "key_pos (kb_bf kb) key i"
  have bf: "bloom_ok ?bf" using fs by (simp add: fs_ok_def)
  have pos: "0 < ?hs" using bf by (simp add: bloom_ok_def)
  have n: "length (concat xs) div ?hs = length xs" using xs(1) pos by (simp add: length_concat_all)
  have h: "bf_hash ?bf key i = Inr (key_hash key i)" "key_hash key i mod filterSize ?bf = ?p"
    using bf_hash_ok [OF bf] by (simp_all add: key_pos_def)
  show ?thesis
  proof (cases "xs = [key]")
    case True
    obtain store where d: "storage_del (kb_store kb) (size_to_bytes ?p) = Inr store"
      "storage_get store = (storage_get (kb_store kb))(size_to_bytes ?p := None)"
      using kv.del_result [of "kb_store kb" "size_to_bytes ?p"] v by auto
    let ?bits = "BITCLEAR (bitArray ?bf) (unat ?p)"
    have "kvc_remove_function key i kb = (Inr True, set_bits_of kb store ?bits)"
      using h v d(1) n True by (simp add: kvc_remove_function_def Let_def set_bits_of_def)
    moreover have "unat ?p div 8 < length (bitArray ?bf)" using pos_byte [OF bf] by (simp add: key_pos_def)
    then have "BITTEST ?bits q \<longleftrightarrow> q \<noteq> unat ?p \<and> BITTEST (bitArray ?bf) q" for q by (rule BITTEST_BITCLEAR)
    moreover have "length ?bits = length (bitArray ?bf)" by (simp add: BITCLEAR_def)
    ultimately show ?thesis using d(2) True by (intro exI [of _ store] exI [of _ ?bits] exI [of _ None]) auto
  next
    case False
    then have "1 < length xs" using xs(3) by (cases xs) (auto simp: Suc_less_eq length_greater_0_conv)
    let ?w = "take (length (concat xs) - 1) (squeeze ?hs key (concat xs))"
    let ?store = "storage_put (kb_store kb) (size_to_bytes ?p) ?w"
    have "kvc_remove_function key i kb = (Inr False, set_bits_of kb ?store (bitArray ?bf))"
      using h v n \<open>1 < length xs\<close> by (simp add: kvc_remove_function_def Let_def set_bits_of_def)
    then show ?thesis using False kv_hashes_squeeze [OF xs(1) pos hs xs(2,3)]
      by (intro exI [of _ ?store] exI [of _ "bitArray ?bf"] exI [of _ "Some ?w"]) (simp add: kv.get_put)
  qed
qed

lemma reads_at_upd:
  assumes "reads_at store hs E" "storage_get store' = (storage_get store)(size_to_bytes p := w)"
    "case w of None \<Rightarrow> xs = [] | Some w \<Rightarrow> xs \<noteq> [] \<and> kv_hashes hs w = xs"
  shows "reads_at store' hs (E(p := xs))"
  unfolding reads_at_def
proof
  fix q show "case storage_get store' (size_to_bytes q) of None \<Rightarrow> (E(p := xs)) q = []
      | Some v \<Rightarrow> (E(p := xs)) q \<noteq> [] \<and> kv_hashes hs v = (E(p := xs)) q"
    using assms(1) [unfolded reads_at_def, rule_format, of q] assms(2,3) by (cases "q = p") (auto split: option.splits)
qed

lemma only_key: "distinct xs \<Longrightarrow> k \<in> set xs \<Longrightarrow> xs = [k] \<longleftrightarrow> removeAll k xs = []"
proof
  assume d: "distinct xs" "k \<in> set xs" "removeAll k xs = []"
  then have "set xs - {k} = {}" by (metis empty_set set_removeAll)
  then have "set xs = {k}" using d(2) by blast
  then show "xs = [k]" using d(1) by (metis distinct_card card.empty card_insert_disjoint finite.emptyI
        empty_iff length_0_conv length_Suc_conv list.set_intros(1) singletonD One_nat_def)
qed simp

text \<open>\<open>full_at\<close>: the value at the bit is a list of whole, different hashes with the key in it.\<close>

definition full_at :: "kvc \<Rightarrow> bytes \<Rightarrow> (u64 \<Rightarrow> bytes list) \<Rightarrow> u64 \<Rightarrow> bool" where
  "full_at kb key E p \<longleftrightarrow> storage_get (kb_store kb) (size_to_bytes p) = Some (concat (E p)) \<and>
     list_all (\<lambda>x. length x = hashSize (kb_bf kb)) (E p) \<and> distinct (E p) \<and> key \<in> set (E p)"

lemma full_at_upd:
  "full_at kb key E q \<Longrightarrow> q \<noteq> p \<Longrightarrow> storage_get store = (storage_get (kb_store kb))(size_to_bytes p := w) \<Longrightarrow>
   full_at (set_bits_of kb store bits) key (E(p := xs)) q"
  by (simp add: full_at_def)

lemma kvc_remove_from_run:
  assumes "fs_ok (kb_bf kb)" "length key = hashSize (kb_bf kb)"
    "reads_at (kb_store kb) (hashSize (kb_bf kb)) E"
    "distinct (map (key_pos (kb_bf kb) key) is)"
    "\<forall>i \<in> set is. full_at kb key E (key_pos (kb_bf kb) key i)"
  shows "\<exists>store bits. kvc_remove_from key r is kb =
      (Inr (r \<or> (\<exists>i \<in> set is. E (key_pos (kb_bf kb) key i) = [key])), set_bits_of kb store bits) \<and>
    length bits = length (bitArray (kb_bf kb)) \<and>
    (\<forall>q. BITTEST bits q \<longleftrightarrow> BITTEST (bitArray (kb_bf kb)) q \<and>
       \<not> (\<exists>i \<in> set is. E (key_pos (kb_bf kb) key i) = [key] \<and> q = unat (key_pos (kb_bf kb) key i))) \<and>
    reads_at store (hashSize (kb_bf kb))
      (\<lambda>p. if p \<in> key_pos (kb_bf kb) key ` set is then removeAll key (E p) else E p) \<and>
    (\<forall>p. p \<notin> key_pos (kb_bf kb) key ` set is \<longrightarrow>
       storage_get store (size_to_bytes p) = storage_get (kb_store kb) (size_to_bytes p))"
  using assms
proof (induction "is" arbitrary: kb E r)
  case Nil
  then show ?case
    by (intro exI [of _ "kb_store kb"] exI [of _ "bitArray (kb_bf kb)"]) (simp add: ret_def)
next
  case (Cons i js)
  let ?bf = "kb_bf kb" and ?hs = "hashSize (kb_bf kb)" and ?pos = "key_pos (kb_bf kb) key"
  have full: "full_at kb key E (?pos i)" using Cons.prems(5) by simp
  obtain store bits w where st: "kvc_remove_function key i kb = (Inr (E (?pos i) = [key]), set_bits_of kb store bits)"
    "length bits = length (bitArray ?bf)"
    "\<And>q. BITTEST bits q \<longleftrightarrow> BITTEST (bitArray ?bf) q \<and> \<not> (E (?pos i) = [key] \<and> q = unat (?pos i))"
    "storage_get store = (storage_get (kb_store kb))(size_to_bytes (?pos i) := w)"
    "case w of None \<Rightarrow> E (?pos i) = [key] | Some w \<Rightarrow> E (?pos i) \<noteq> [key] \<and> kv_hashes ?hs w = removeAll key (E (?pos i))"
    using kvc_remove_function_run [OF Cons.prems(1,2)] full unfolding full_at_def by blast
  let ?kb = "set_bits_of kb store bits" and ?E = "E(?pos i := removeAll key (E (?pos i)))"
  have sp: "?pos i \<notin> ?pos ` set js" using Cons.prems(4) by simp
  have ne: "E (?pos i) = [key] \<longleftrightarrow> removeAll key (E (?pos i)) = []"
    using full by (simp add: full_at_def only_key)
  have rE: "reads_at store ?hs ?E" using st(5) ne
    by (intro reads_at_upd [OF Cons.prems(3) st(4)]) (auto split: option.splits)
  have pre1: "reads_at (kb_store ?kb) (hashSize (kb_bf ?kb)) ?E" using rE by simp
  have pre2: "fs_ok (kb_bf ?kb)" using Cons.prems(1) st(2) by (simp add: fs_ok_def bloom_ok_def)
  have pre3: "length key = hashSize (kb_bf ?kb)" using Cons.prems(2) by simp
  have pre4: "distinct (map (key_pos (kb_bf ?kb) key) js)"
    using Cons.prems(4) unfolding set_bits_of key_pos_bits by simp
  have pre5: "\<forall>j \<in> set js. full_at ?kb key ?E (key_pos (kb_bf ?kb) key j)"
  proof
    fix j assume j: "j \<in> set js"
    have "?pos j \<noteq> ?pos i" using sp j by (metis imageI)
    moreover have "full_at kb key E (?pos j)" using Cons.prems(5) j by simp
    ultimately show "full_at ?kb key ?E (key_pos (kb_bf ?kb) key j)"
      unfolding set_bits_of key_pos_bits using full_at_upd st(4) by blast
  qed
  obtain store' bits' where IH: "kvc_remove_from key (r \<or> E (?pos i) = [key]) js ?kb =
      (Inr ((r \<or> E (?pos i) = [key]) \<or> (\<exists>i \<in> set js. ?E (?pos i) = [key])), set_bits_of kb store' bits')"
    "length bits' = length bits"
    "\<forall>q. BITTEST bits' q \<longleftrightarrow> BITTEST bits q \<and> \<not> (\<exists>i \<in> set js. ?E (?pos i) = [key] \<and> q = unat (?pos i))"
    "reads_at store' ?hs (\<lambda>p. if p \<in> ?pos ` set js then removeAll key (?E p) else ?E p)"
    "\<forall>p. p \<notin> ?pos ` set js \<longrightarrow> storage_get store' (size_to_bytes p) = storage_get store (size_to_bytes p)"
    using Cons.IH [OF pre2 pre3 pre1 pre4 pre5, of "r \<or> E (?pos i) = [key]"] unfolding set_bits_of bits_fields key_pos_bits
    by (elim exE conjE) (rule that; assumption)
  have E: "?E (?pos j) = E (?pos j)" if "j \<in> set js" for j
  proof -
    have "?pos j \<noteq> ?pos i" using sp that by (metis imageI)
    then show ?thesis by (rule fun_upd_other)
  qed
  have "(\<exists>i \<in> set js. ?E (?pos i) = [key]) = (\<exists>i \<in> set js. E (?pos i) = [key])" by (rule bex_cong [OF refl]) (simp only: E)
  then have "kvc_remove_from key r (i # js) kb =
      (Inr (r \<or> (\<exists>i \<in> set (i # js). E (?pos i) = [key])), set_bits_of kb store' bits')"
    using IH(1) by (simp add: bindE_def st(1))
  moreover have "BITTEST bits' q \<longleftrightarrow> BITTEST (bitArray ?bf) q \<and>
      \<not> (\<exists>i \<in> set (i # js). E (?pos i) = [key] \<and> q = unat (?pos i))" for q
  proof -
    have "(\<exists>i \<in> set js. ?E (?pos i) = [key] \<and> q = unat (?pos i)) = (\<exists>i \<in> set js. E (?pos i) = [key] \<and> q = unat (?pos i))"
      by (rule bex_cong [OF refl]) (simp only: E)
    then show ?thesis unfolding IH(3) [rule_format] st(3) by auto
  qed
  moreover have "(\<lambda>p. if p \<in> ?pos ` set js then removeAll key (?E p) else ?E p) =
      (\<lambda>p. if p \<in> ?pos ` set (i # js) then removeAll key (E p) else E p)" using sp by (auto simp: fun_eq_iff)
  moreover have "\<forall>p. p \<notin> ?pos ` set (i # js) \<longrightarrow>
      storage_get store' (size_to_bytes p) = storage_get (kb_store kb) (size_to_bytes p)"
    using IH(5) by (simp add: st(4))
  ultimately show ?case using IH(2,4) st(2) by (intro exI [of _ store'] exI [of _ bits']) simp
qed

end
