(* ===== verification/CountingSet.thy ===== *)
theory CountingSet
  imports CountingRemove
begin

text \<open>
  The counting filter as a set of keys: sequences of additions, the removal of a key, the keys
  whose own hash functions collide, and closing and opening again.
\<close>

section \<open>Removing\<close>

lemma singleton_list: "distinct xs \<Longrightarrow> xs = [k] \<longleftrightarrow> set xs = {k}"
  by (metis distinct_singleton empty_set insertI1 list.simps(15) only_key set_removeAll Diff_cancel set_empty)

lemma image_minus: "(\<exists>p \<in> S. f p \<notin> Q \<and> q = f p) \<longleftrightarrow> q \<in> f ` S - Q"
  by blast

lemma kvc_remove_set:
  assumes ok: "kvc_ok kb K" and key: "key \<in> K" "spread (kb_bf kb) key"
  shows "\<exists>kb'. kvc_remove key kb =
      (Inr (\<not> bf_pos (kb_bf kb) key \<subseteq> (\<Union>k \<in> K - {key}. bf_pos (kb_bf kb) k)), kb') \<and>
    kvc_reads kb' (K - {key}) \<and> itemCount (kb_bf kb') = itemCount (kb_bf kb) \<and>
    filterSize (kb_bf kb') = filterSize (kb_bf kb) \<and> functionCount (kb_bf kb') = functionCount (kb_bf kb) \<and>
    hashSize (kb_bf kb') = hashSize (kb_bf kb) \<and> hardMaximum (kb_bf kb') = hardMaximum (kb_bf kb) \<and>
    maxElements (kb_bf kb') = maxElements (kb_bf kb)"
proof -
  let ?bf = "kb_bf kb" and ?is = "[0..<unat (functionCount (kb_bf kb))]" and ?pos = "key_pos (kb_bf kb) key"
  let ?others = "\<Union>k \<in> K - {key}. bf_pos ?bf k"
  have fs: "fs_ok ?bf" and bits: "bf_bits ?bf = (\<Union>k \<in> K. bf_pos ?bf k)"
    and len: "length key = hashSize ?bf" using ok key by (simp_all add: kvc_ok_def)
  have pos: "0 < hashSize ?bf" using fs by (simp add: fs_ok_def bloom_ok_def)
  obtain E where E: "holds_at (kb_store kb) (hashSize ?bf) E" "\<And>p. distinct (E p)"
    "\<And>p. set (E p) = {k \<in> K. p \<in> set (pos_list ?bf k)}" using ok by (auto simp: kvc_ok_def)
  have isl: "?pos ` set ?is = set (pos_list ?bf key)" by (simp add: pos_list_def)
  have "full_at kb key E p" if "p \<in> set (pos_list ?bf key)" for p
  proof -
    have "key \<in> set (E p)" using E(3) key(1) that by simp
    then show ?thesis using E(1,2) holds_at_get(1) [OF E(1) pos, of p] by (auto simp: full_at_def holds_at_def)
  qed
  then have full: "\<forall>i \<in> set ?is. full_at kb key E (?pos i)" using isl by blast
  have dist: "distinct (map ?pos ?is)" using key(2) by (simp add: spread_def pos_list_def)
  obtain store bits where run: "kvc_remove_from key False ?is kb =
      (Inr (False \<or> (\<exists>i \<in> set ?is. E (?pos i) = [key])), set_bits_of kb store bits)"
    "length bits = length (bitArray ?bf)"
    "\<forall>q. BITTEST bits q \<longleftrightarrow> BITTEST (bitArray ?bf) q \<and> \<not> (\<exists>i \<in> set ?is. E (?pos i) = [key] \<and> q = unat (?pos i))"
    "reads_at store (hashSize ?bf) (\<lambda>p. if p \<in> ?pos ` set ?is then removeAll key (E p) else E p)"
    using kvc_remove_from_run [OF fs len holds_reads [OF E(1) pos] dist full, of False] by blast
  have single: "E p = [key] \<longleftrightarrow> p \<in> set (pos_list ?bf key) \<and> unat p \<notin> ?others" for p
    using key(1) by (auto simp: singleton_list [OF E(2)] E(3) set_eq_iff)
  have cleared: "(\<exists>i \<in> set ?is. E (?pos i) = [key] \<and> q = unat (?pos i)) \<longleftrightarrow> q \<in> bf_pos ?bf key - ?others" for q
  proof -
    have "(\<exists>i \<in> set ?is. E (?pos i) = [key] \<and> q = unat (?pos i)) \<longleftrightarrow> (\<exists>p \<in> ?pos ` set ?is. E p = [key] \<and> q = unat p)"
      by (simp only: bex_simps(7))
    also have "\<dots> \<longleftrightarrow> (\<exists>p \<in> set (pos_list ?bf key). unat p \<notin> ?others \<and> q = unat p)"
      unfolding isl by (rule bex_cong [OF refl]) (simp only: single simp_thms)
    finally show ?thesis unfolding image_minus bf_pos_list [of ?bf key] .
  qed
  then have "(\<exists>q. \<exists>i \<in> set ?is. E (?pos i) = [key] \<and> q = unat (?pos i)) \<longleftrightarrow> (\<exists>q. q \<in> bf_pos ?bf key - ?others)"
    by (simp only:)
  then have r: "(\<exists>i \<in> set ?is. E (?pos i) = [key]) \<longleftrightarrow> \<not> bf_pos ?bf key \<subseteq> ?others" by blast
  let ?kb = "set_bits_of kb store bits"
  have bits': "bf_bits (kb_bf ?kb) = bf_bits ?bf - (bf_pos ?bf key - ?others)"
    using run(3) unfolding cleared by (auto simp: bf_bits_def)
  have "bf_bits ?bf = bf_pos ?bf key \<union> ?others" using bits key(1) by blast
  then have "bf_bits (kb_bf ?kb) = ?others" unfolding bits' by blast
  moreover have "fs_ok (kb_bf ?kb)" using fs run(2) by (simp add: fs_ok_def bloom_ok_def)
  moreover have "bf_pos (kb_bf ?kb) = bf_pos ?bf" "pos_list (kb_bf ?kb) = pos_list ?bf"
    by (simp_all add: pos_list_def fun_eq_iff)
  ultimately have "kvc_reads ?kb (K - {key})"
    using run(4) E(2,3) unfolding isl kvc_reads_def
    by (intro conjI exI [of _ "\<lambda>p. if p \<in> set (pos_list ?bf key) then removeAll key (E p) else E p"])
      (auto simp: distinct_removeAll)
  moreover have "fs_contains ?bf key = Inr True" using bits key(1) by (auto simp: fs_contains_bits [OF fs])
  ultimately show ?thesis using run(1) r by (intro exI [of _ ?kb]) (simp add: kvc_remove_def)
qed

section \<open>Keys whose hash functions collide\<close>

lemma kvc_add_from_collision:
  assumes "bloom_ok (kb_bf kb)" "length key = hashSize (kb_bf kb)"
    "holds_at (kb_store kb) (hashSize (kb_bf kb)) E"
    "(\<exists>i \<in> set is. key \<in> set (E (key_pos (kb_bf kb) key i))) \<or> \<not> distinct (map (key_pos (kb_bf kb) key) is)"
  shows "\<exists>store. kvc_add_from key is kb = (Inr True, kb\<lparr>kb_store := store\<rparr>)"
  using assms
proof (induction "is" arbitrary: kb E)
  case (Cons i js)
  let ?bf = "kb_bf kb" and ?p = "key_pos (kb_bf kb) key i"
  show ?case
  proof (cases "key \<in> set (E ?p)")
    case True
    then have "kvc_add_from key (i # js) kb = (Inr True, kb)"
      using Cons.prems by (intro kvc_add_from_known [OF Cons.prems(1-3) refl])
    then show ?thesis by (intro exI [of _ "kb_store kb"]) simp
  next
    case False
    have pos: "0 < hashSize ?bf" using Cons.prems(1) by (simp add: bloom_ok_def)
    note g = holds_at_get [OF Cons.prems(3) pos, of ?p]
    let ?xs = "E ?p @ [key]"
    let ?kb = "kb\<lparr>kb_store := storage_put (kb_store kb) (size_to_bytes ?p) (concat ?xs)\<rparr>"
    have step: "kvc_add_from key (i # js) kb = kvc_add_from key js ?kb"
      using Cons.prems(2) False g
      by (cases "E ?p = []") (simp_all add: Let_def bf_hash_ok [OF Cons.prems(1)] key_pos_def)
    have "list_all (\<lambda>x. length x = hashSize ?bf) ?xs" using Cons.prems(2,3) by (simp add: holds_at_def)
    then have E': "holds_at (kb_store ?kb) (hashSize (kb_bf ?kb)) (E(?p := ?xs))"
      using holds_at_put [OF Cons.prems(3), of ?xs ?p] by simp
    have "(\<exists>j \<in> set js. key \<in> set ((E(?p := ?xs)) (key_pos ?bf key j))) \<or> \<not> distinct (map (key_pos ?bf key) js)"
    proof (cases "?p \<in> key_pos ?bf key ` set js")
      case True
      then obtain j where "j \<in> set js" "key_pos ?bf key j = ?p" by auto
      then show ?thesis by (intro disjI1 bexI [of _ j]) simp_all
    next
      case out: False
      then have "(\<exists>j \<in> set js. key \<in> set (E (key_pos ?bf key j))) \<or> \<not> distinct (map (key_pos ?bf key) js)"
        using Cons.prems(4) False by auto
      moreover have "(E(?p := ?xs)) (key_pos ?bf key j) = E (key_pos ?bf key j)" if "j \<in> set js" for j
        using out that by (metis fun_upd_other imageI)
      ultimately show ?thesis by (metis (no_types, lifting))
    qed
    then have "\<exists>store. kvc_add_from key js ?kb = (Inr True, ?kb\<lparr>kb_store := store\<rparr>)"
      using Cons.IH [OF _ _ E'] Cons.prems(1,2) by simp
    then show ?thesis unfolding step by simp
  qed
qed simp

lemma kvc_add_colliding:
  assumes ok: "kvc_ok kb K" and len: "length key = hashSize (kb_bf kb)" and sp: "\<not> spread (kb_bf kb) key"
  shows "\<exists>store. kvc_add key kb = (Inr (), kb\<lparr>kb_store := store\<rparr>)"
proof -
  obtain E where "holds_at (kb_store kb) (hashSize (kb_bf kb)) E" using ok by (auto simp: kvc_ok_def)
  then obtain store where "kvc_add_from key [0..<unat (functionCount (kb_bf kb))] kb = (Inr True, kb\<lparr>kb_store := store\<rparr>)"
    using kvc_add_from_collision [OF kvc_ok_bloom [OF ok] len] sp unfolding spread_def pos_list_def by blast
  then show ?thesis by (intro exI [of _ store]) (simp add: kvc_add_def bindE_def ret_def)
qed

section \<open>Sequences of additions\<close>

lemma kvc_adds:
  assumes "kvc_ok kb K" "\<not> hardMaximum (kb_bf kb)"
    "\<forall>k \<in> set ks. length k = hashSize (kb_bf kb) \<and> spread (kb_bf kb) k"
    "itemCount (kb_bf kb) = word_of_nat (card K)" "card (K \<union> set ks) < 2 ^ 64 - 1"
  shows "\<exists>kb'. forE ks kvc_add kb = (Inr (), kb') \<and> kvc_ok kb' (K \<union> set ks) \<and>
    filterSize (kb_bf kb') = filterSize (kb_bf kb) \<and> functionCount (kb_bf kb') = functionCount (kb_bf kb) \<and>
    itemCount (kb_bf kb') = word_of_nat (card (K \<union> set ks))"
  using assms
proof (induction ks arbitrary: kb K)
  case (Cons k ks)
  let ?bf = "kb_bf kb"
  have fin: "finite K" using Cons.prems(1) by (simp add: kvc_ok_def)
  have "\<exists>kb1. kvc_add k kb = (Inr (), kb1) \<and> kvc_ok kb1 (insert k K) \<and> filterSize (kb_bf kb1) = filterSize ?bf \<and>
      functionCount (kb_bf kb1) = functionCount ?bf \<and> hashSize (kb_bf kb1) = hashSize ?bf \<and> \<not> hardMaximum (kb_bf kb1) \<and>
      itemCount (kb_bf kb1) = word_of_nat (card (insert k K))"
  proof (cases "k \<in> K")
    case True
    then show ?thesis using kvc_add_known [OF Cons.prems(1) True] Cons.prems(1,2,4) by (simp add: insert_absorb)
  next
    case False
    have "card (insert k K) \<le> card (K \<union> set (k # ks))" using fin by (intro card_mono) auto
    then have "card K < 2 ^ 64 - 2" using Cons.prems(5) fin False by simp
    moreover have "unat (word_of_nat (card K) :: u64) = card K" using calculation by (intro unat_of_nat_small) simp
    moreover have "unat (- 1 :: u64) = 2 ^ 64 - 1" by (simp add: unsigned_minus_1_eq_mask mask_eq_exp_minus_1)
    ultimately have "word_of_nat (card K) < (- 1 :: u64)" unfolding word_less_nat_alt by linarith
    then obtain kb1 where "kvc_add k kb = (Inr (), kb1)" "kvc_ok kb1 (insert k K)"
      "filterSize (kb_bf kb1) = filterSize ?bf" "functionCount (kb_bf kb1) = functionCount ?bf"
      "hashSize (kb_bf kb1) = hashSize ?bf" "\<not> hardMaximum (kb_bf kb1)"
      "itemCount (kb_bf kb1) = word_of_nat (card K) + 1"
      using kvc_add_fresh [OF Cons.prems(1) _ False] Cons.prems(2,3,4) by auto
    then show ?thesis using fin False by (simp add: add.commute)
  qed
  then obtain kb1 where kb1: "kvc_add k kb = (Inr (), kb1)" "kvc_ok kb1 (insert k K)"
    "filterSize (kb_bf kb1) = filterSize ?bf" "functionCount (kb_bf kb1) = functionCount ?bf"
    "hashSize (kb_bf kb1) = hashSize ?bf" "\<not> hardMaximum (kb_bf kb1)"
    "itemCount (kb_bf kb1) = word_of_nat (card (insert k K))" by blast
  have "spread (kb_bf kb1) = spread ?bf" using kb1(3,4) pos_list_cong [of "kb_bf kb1" ?bf] by (simp add: spread_def fun_eq_iff)
  then show ?case using Cons.IH [OF kb1(2,6)] Cons.prems(3,5) kb1 by (simp add: bindE_def)
qed (auto simp: ret_def)

section \<open>Closing and opening\<close>

lemma kvc_load_key_bits:
  assumes "fs_ok bf" "length key = 8 \<Longrightarrow> size_of_bytes key < filterSize bf"
  shows "fs_ok (kvc_load_key st key bf) \<and> filterSize (kvc_load_key st key bf) = filterSize bf \<and>
    functionCount (kvc_load_key st key bf) = functionCount bf \<and> hashSize (kvc_load_key st key bf) = hashSize bf \<and>
    bf_bits (kvc_load_key st key bf) = bf_bits bf \<union> (if length key = 8 then {unat (size_of_bytes key)} else {})"
proof (cases "length key = 8")
  case True
  let ?h = "size_of_bytes key"
  have m: "?h mod filterSize bf = ?h" using assms(2) True by (simp add: word_unat_eq_iff unat_mod_distrib word_less_nat_alt)
  have ok: "bloom_ok bf" "0 < filterSize bf" using assms(1) by (simp_all add: fs_ok_def bloom_ok_def)
  have k: "kvc_load_key st key bf = fold bf_set [?h] bf"
    using True fs_set_reduced [OF ok(2), of ?h] m by (simp add: kvc_load_key_def)
  note sb = set_bits [OF ok(1), where hs = "[?h]"]
  have "bf_bits (fold bf_set [?h] bf) = insert (unat ?h) (bf_bits bf)" using sb m by simp
  moreover have "filterSize (fold bf_set [?h] bf) = filterSize bf" "functionCount (fold bf_set [?h] bf) = functionCount bf"
    "hashSize (fold bf_set [?h] bf) = hashSize bf" by (simp_all add: bf_set_eq)
  ultimately show ?thesis unfolding k using fs_ok_set_bits [OF assms(1), of "[?h]"] True by simp
next
  case False
  then show ?thesis using assms(1)
    by (auto simp: kvc_load_key_def fs_ok_def split: option.splits)
qed

lemma kvc_load_keys:
  assumes "fs_ok bf" "\<forall>k \<in> set ks. length k = 8 \<longrightarrow> size_of_bytes k < filterSize bf"
  shows "fs_ok (fold (kvc_load_key st) ks bf) \<and> filterSize (fold (kvc_load_key st) ks bf) = filterSize bf \<and>
    functionCount (fold (kvc_load_key st) ks bf) = functionCount bf \<and>
    hashSize (fold (kvc_load_key st) ks bf) = hashSize bf \<and>
    bf_bits (fold (kvc_load_key st) ks bf) = bf_bits bf \<union> (unat \<circ> size_of_bytes) ` {k \<in> set ks. length k = 8}"
  using assms
proof (induction ks arbitrary: bf)
  case (Cons k ks)
  note k = kvc_load_key_bits [OF Cons.prems(1), of k st]
  have "{x \<in> set (k # ks). length x = 8} = (if length k = 8 then insert k else id) {x \<in> set ks. length x = 8}" by auto
  then show ?case using Cons.IH [of "kvc_load_key st k bf"] Cons.prems k by simp
qed simp

lemma kvc_load_count:
  assumes "storage_get st kvc_sizeKey = Some (size_to_bytes n)" "itemCount bf = n \<or> kvc_sizeKey \<in> set ks"
  shows "itemCount (fold (kvc_load_key st) ks bf) = n"
  using assms
proof (induction ks arbitrary: bf)
  case (Cons k ks)
  have "length kvc_sizeKey = 6" by (simp add: kvc_sizeKey_def)
  moreover have "itemCount (fs_set h b) = itemCount b" for h b
    by (simp add: fs_set_def fs_compute_indices_def Let_def)
  ultimately have "itemCount (kvc_load_key st k bf) = n \<or> kvc_sizeKey \<in> set ks"
    using Cons.prems by (auto simp: kvc_load_key_def size_bytes_roundtrip)
  then show ?case using Cons.IH Cons.prems(1) by simp
qed simp

lemma kvc_reopen:
  assumes ok: "kvc_ok kb K" and bf: "fs_ok bf" "bf_bits bf = {}" "filterSize bf = filterSize (kb_bf kb)"
    "functionCount bf = functionCount (kb_bf kb)" "hashSize bf = hashSize (kb_bf kb)"
  shows "kvc_ok (kvc_open bf (kvc_close kb)) K \<and>
    (0 < itemCount (kb_bf kb) \<longrightarrow> itemCount (kb_bf (kvc_open bf (kvc_close kb))) = itemCount (kb_bf kb))"
proof -
  let ?old = "kb_bf kb" and ?st = "kvc_close kb"
  let ?bf = "fold (kvc_load_key ?st) (storage_keys ?st) bf"
  have s6: "length kvc_sizeKey = 6" by (simp add: kvc_sizeKey_def)
  have get8: "storage_get ?st k = storage_get (kb_store kb) k" if "length k = 8" for k
    using that s6 by (auto simp: kvc_close_def kv.get_put)
  obtain E where E: "holds_at (kb_store kb) (hashSize ?old) E"
    "\<And>p. distinct (E p)" "\<And>p. set (E p) = {k \<in> K. p \<in> set (pos_list ?old k)}" using ok by (auto simp: kvc_ok_def)
  have fs: "fs_ok ?old" using ok by (simp add: kvc_ok_def)
  have keys: "set (storage_keys ?st) = dom (storage_get ?st)" by (rule kv.keys_dom)
  have at: "k \<in> set (storage_keys ?st) \<longleftrightarrow> unat (size_of_bytes k) \<in> bf_bits ?old" if "length k = 8" for k
  proof -
    let ?p = "size_of_bytes k"
    have "k \<in> set (storage_keys ?st) \<longleftrightarrow> storage_get (kb_store kb) (size_to_bytes ?p) \<noteq> None"
      unfolding keys dom_def using that by (simp add: get8 size_to_bytes_of_bytes)
    also have "\<dots> \<longleftrightarrow> E ?p \<noteq> []" using E(1) by (simp add: holds_at_def)
    also have "\<dots> \<longleftrightarrow> set (E ?p) \<noteq> {}" by simp
    also have "\<dots> \<longleftrightarrow> unat ?p \<in> bf_bits ?old" using ok unfolding E(3) by (auto simp: kvc_ok_def)
    finally show ?thesis .
  qed
  have small: "\<forall>k \<in> set (storage_keys ?st). length k = 8 \<longrightarrow> size_of_bytes k < filterSize bf"
    using at by (auto simp: bf(3) bf_bits_def word_less_nat_alt)
  note l = kvc_load_keys [OF bf(1) small, of ?st]
  have "(unat \<circ> size_of_bytes) ` {k \<in> set (storage_keys ?st). length k = 8} = bf_bits ?old" (is "?L = _")
  proof
    show "?L \<subseteq> bf_bits ?old" using at by auto
    show "bf_bits ?old \<subseteq> ?L"
    proof
      fix q assume q: "q \<in> bf_bits ?old"
      have "unat (filterSize ?old) < 2 ^ LENGTH(64)" by (rule unsigned_less)
      then have u: "unat (word_of_nat q :: u64) = q" using q by (intro unat_of_nat_small) (simp add: bf_bits_def)
      have "size_to_bytes (word_of_nat q) \<in> set (storage_keys ?st)" using at [of "size_to_bytes (word_of_nat q)"] q
        by (simp add: size_bytes_roundtrip u)
      then show "q \<in> ?L" by (intro image_eqI [of _ _ "size_to_bytes (word_of_nat q)"]) (simp_all add: size_bytes_roundtrip u)
    qed
  qed
  then have bits: "bf_bits ?bf = bf_bits ?old" using l bf(2) by simp
  have "holds_at ?st (hashSize ?old) E" using E(1) by (simp add: holds_at_def get8)
  moreover have "bf_pos ?bf = bf_pos ?old" "pos_list ?bf = pos_list ?old"
    using l bf by (intro bf_pos_cong pos_list_cong, simp_all)+
  ultimately have "kvc_ok (kvc_open bf ?st) K"
    using ok l bits bf E(2,3) unfolding kvc_ok_def kvc_open_def by auto
  moreover have "itemCount ?bf = itemCount ?old" if "0 < itemCount ?old"
  proof (rule kvc_load_count)
    show g: "storage_get ?st kvc_sizeKey = Some (size_to_bytes (itemCount ?old))"
      using that by (simp add: kvc_close_def kv.get_put)
    show "itemCount bf = itemCount ?old \<or> kvc_sizeKey \<in> set (storage_keys ?st)" using g keys by auto
  qed
  ultimately show ?thesis by (simp add: kvc_open_def)
qed

end
