(* ===== verification/BloomProps.thy ===== *)
theory BloomProps
  imports CountingSet
begin

text \<open>
  The properties of the Bloom filters.  The witnesses run small filters on keys of two words,
  with a hash size of 16 bytes, the least that the double hashing accepts.
\<close>

definition mk_key :: "u64 \<Rightarrow> u64 \<Rightarrow> bytes" where
  "mk_key a b = size_to_bytes a @ size_to_bytes b"

definition toy_bloom :: "u64 \<Rightarrow> u32 \<Rightarrow> bool \<Rightarrow> u64 \<Rightarrow> bloom" where
  "toy_bloom n f hard m = \<lparr>filterSize = n, itemCount = 0, functionCount = f, hardMaximum = hard, maxElements = m,
     hashSize = 16, hashFunction = Some 16, bitArray = replicate (unat ((n + 7) div 8)) 0\<rparr>"

definition toy_file :: "u64 \<Rightarrow> u32 \<Rightarrow> fsbloom" where
  "toy_file n f = \<lparr>filterSize = n, itemCount = 0, functionCount = f, hardMaximum = False, maxElements = 0,
     hashSize = 16, hashFunction = Some 16, bitArray = replicate (unat ((n + 7) div 8)) 0,
     mmapLength = ucast ((n + 7) div 8)\<rparr>"

definition toy_kvc :: "u64 \<Rightarrow> u32 \<Rightarrow> kvc" where
  "toy_kvc n f = \<lparr>kb_bf = toy_file n f, kb_store = new_storage True\<rparr>"

lemma toy_bloom_ok: "bloom_ok (toy_bloom 20 2 hard m)" "bloom_ok (toy_bloom 24 2 hard m)"
  by (simp_all add: toy_bloom_def bloom_ok_def)

lemma toy_file_ok: "fs_ok (toy_file 20 2)" "fs_ok (toy_file 20 1)"
  by (simp_all add: toy_file_def fs_ok_def bloom_ok_def)

lemma toy_file_fields [simp]:
  "filterSize (toy_file n f) = n" "functionCount (toy_file n f) = f" "hashSize (toy_file n f) = 16"
  "hardMaximum (toy_file n f) = False" "itemCount (toy_file n f) = 0"
  by (simp_all add: toy_file_def)

lemma toy_file_bits [simp]: "bf_bits (toy_file 20 f) = {}"
  by (auto simp: toy_file_def bf_bits_def BITTEST_replicate)

text \<open>A filter without keys, in memory or in a file, over an empty storage.\<close>

lemma kvc_ok_empty:
  assumes "fs_ok bf" "0 < functionCount bf" "bf_bits bf = {}"
  shows "kvc_ok \<lparr>kb_bf = bf, kb_store = new_storage strict\<rparr> {}"
  using assms
  by (auto simp: kvc_ok_def holds_at_def new_storage_def storage_get_def intro!: exI [of _ "\<lambda>_. []"])

lemma toy_kvc_ok: "kvc_ok (toy_kvc 20 2) {}" "kvc_ok (toy_kvc 20 1) {}"
  by (simp_all add: toy_kvc_def kvc_ok_empty toy_file_ok)

section \<open>Membership\<close>

text \<open>C31: after keys were added to a cleared filter in memory, a key is reported exactly when
  its bits are among those of the added keys, so no added key is ever missed.\<close>

theorem bloom_membership:
  assumes "bloom_ok bf" "forE ks bloom_add (bloom_clear bf) = (Inr (), bf')"
  shows "(\<forall>k. bloom_contains bf' k = Inr (bf_pos bf k \<subseteq> (\<Union>k \<in> set ks. bf_pos bf k))) \<and>
    (\<forall>k \<in> set ks. bloom_contains bf' k = Inr True)"
  using mem_bloom.contains_adds [OF assms] mem_bloom.clear_bits [OF assms(1)] 
    mem_bloom.no_false_negative [OF _ assms(2)] by blast

theorem bloom_membership_witness:
  "\<exists>bf'. forE [mk_key 1 2, mk_key 5 9] bloom_add (bloom_clear (toy_bloom 20 2 False 0)) = (Inr (), bf') \<and>
    bloom_contains bf' (mk_key 5 9) = Inr True"
proof -
  obtain r bf' where run: "forE [mk_key 1 2, mk_key 5 9] bloom_add (bloom_clear (toy_bloom 20 2 False 0)) = (r, bf')"
    by fastforce
  moreover have "fst (forE [mk_key 1 2, mk_key 5 9] bloom_add (bloom_clear (toy_bloom 20 2 False 0))) = Inr ()"
    by code_simp
  ultimately have "r = Inr ()" by simp
  then show ?thesis using bloom_membership [OF toy_bloom_ok(1) run [unfolded \<open>r = Inr ()\<close>]] run by simp
qed

text \<open>The filter in a file that \<^verbatim>\<open>init\<close> made, of less than \<^verbatim>\<open>2 ^ 35\<close> bits, starts empty, and
  reports a key exactly when its bits are among those of the added keys.\<close>

theorem file_filter_membership:
  assumes "fs_init None fsize functions hardmax n junk hsize True True True = Inr bf"
    and "0 < fsize" "unat fsize + 7 < 2 ^ 35" "16 \<le> hsize"
    and "forE ks fs_add bf = (Inr (), bf')"
  shows "(\<forall>k. fs_contains bf' k = Inr (bf_pos bf k \<subseteq> (\<Union>k \<in> set ks. bf_pos bf k))) \<and>
    (\<forall>k \<in> set ks. fs_contains bf' k = Inr True)"
proof -
  have ok: "fs_ok bf" "bf_bits bf = {}" using fs_init_ok [OF assms(1-4)] by simp_all
  have "fs_ok bf'" "bf_bits bf' = (\<Union>k \<in> set ks. bf_pos bf k)" "bf_pos bf' = bf_pos bf"
    using file_bloom.adds [OF ok(1) assms(5)] ok(2) by simp_all
  then show ?thesis by (auto simp: fs_contains_bits)
qed

theorem file_filter_membership_witness:
  "\<exists>bf bf'. fs_init None 20 0 False 0 0 16 True True True = Inr bf \<and>
    forE [mk_key 1 2] fs_add bf = (Inr (), bf') \<and> fs_contains bf' (mk_key 1 2) = Inr True"
proof -
  obtain bf where i: "fs_init None 20 0 False 0 0 16 True True True = Inr bf" by (simp add: fs_init_def Let_def)
  have ok: "fs_ok bf" using fs_init_ok [OF i] by simp
  have "\<not> hardMaximum bf" using i by (auto simp: fs_init_def Let_def)
  then obtain bf' where r: "forE [mk_key 1 2] fs_add bf = (Inr (), bf')"
    by (simp add: bindE_def fs_add_run [OF ok] ret_def)
  show ?thesis using file_filter_membership [OF i _ _ _ r] i r by simp
qed

section \<open>Bulk operations\<close>

text \<open>Below its hard maximum, \<^verbatim>\<open>addAll\<close> of an array of keys sets the bits of each of them and
  \<^verbatim>\<open>containsAll\<close> then finds them all.\<close>

theorem bloom_addAll_then_containsAll:
  assumes "bloom_ok bf" "\<not> (hardMaximum bf \<and> maxElements bf < itemCount bf + word_of_nat n)"
  shows "\<exists>bf'. bloom_addAll keys n bf = (Inr (), bf') \<and>
    bf_bits bf' = bf_bits bf \<union> (\<Union>i < n. bf_pos bf (key_at bf keys i)) \<and>
    bloom_containsAll bf' keys n = Inr n"
proof -
  obtain bf' where bf': "bloom_addAll keys n bf = (Inr (), bf')" "bloom_ok bf'"
    "bf_bits bf' = bf_bits bf \<union> (\<Union>i < n. bf_pos bf (key_at bf keys i))"
    using bloom_addAll_bits [OF assms, of keys] by blast
  have same: "bf_pos bf' = bf_pos bf" "key_at bf' keys = key_at bf keys"
    using bloom_addAll_fields [OF assms(1) bf'(1)] by (simp_all add: key_at_def fun_eq_iff cong: bf_pos_cong)
  have "find (\<lambda>i. \<not> bf_pos bf' (key_at bf' keys i) \<subseteq> bf_bits bf') [0..<n] = None"
    unfolding find_None_iff same bf'(3) by auto
  then show ?thesis using bf' bloom_containsAll_ok [OF bf'(2), of keys n] by simp
qed

theorem bloom_addAll_then_containsAll_witness:
  "\<exists>bf'. bloom_addAll (mk_key 1 2 @ mk_key 5 9) 2 (toy_bloom 20 2 True 2) = (Inr (), bf') \<and>
    bloom_containsAll bf' (mk_key 1 2 @ mk_key 5 9) 2 = Inr 2"
  using bloom_addAll_then_containsAll [OF toy_bloom_ok(1) [of True 2], of 2 "mk_key 1 2 @ mk_key 5 9"]
  by (auto simp: toy_bloom_def)



section \<open>Set operations, comparison, storage\<close>



text \<open>What \<^verbatim>\<open>save\<close> wrote, \<^verbatim>\<open>load\<close> reads back into an empty filter of the same size: the bits
  and the number of elements; a shorter stream is an error, and so is a filter in use.\<close>

theorem bloom_save_load_roundtrip:
  assumes "bloom_ok a" "bloom_ok b" "filterSize a = filterSize b" "itemCount b = 0"
  shows "bloom_load (fst (bloom_save a) @ rest) (snd (bloom_save a)) b =
      (Inr (), b\<lparr>bitArray := bitArray a, itemCount := itemCount a\<rparr>) \<and>
    (m < length (fst (bloom_save a)) \<longrightarrow> fst (bloom_load (take m (fst (bloom_save a))) n b) = Inl IosFailure) \<and>
    (0 < c \<longrightarrow> bloom_load input n (b\<lparr>itemCount := c\<rparr>) =
      (Inl (CString ''This bloom filter already has got elements''), b\<lparr>itemCount := c\<rparr>))"
proof -
  have "length (fst (bloom_save a)) \<le> unat ((filterSize b + 7) div 8)"
    using assms(3) by (simp add: bloom_save_def)
  then show ?thesis using bloom_save_load [OF assms] assms(4)
    by (auto simp: bloom_load_def Let_def word_gt_0)
qed

theorem bloom_save_load_roundtrip_witness:
  "bloom_load (fst (bloom_save (toy_bloom 20 2 False 0)) @ [1, 2]) (snd (bloom_save (toy_bloom 20 2 False 0)))
      (toy_bloom 20 2 True 9) =
    (Inr (), (toy_bloom 20 2 True 9)\<lparr>bitArray := bitArray (toy_bloom 20 2 False 0), itemCount := 0\<rparr>)"
  using bloom_save_load_roundtrip [OF toy_bloom_ok(1) toy_bloom_ok(1), of False 0 True 9 "[1, 2]"]
  by (simp add: toy_bloom_def)

text \<open>With a hard maximum exactly that many calls of \<^verbatim>\<open>add\<close> succeed, the same key counted
  again; the next one throws and the count never passes the maximum.\<close>

theorem bloom_hard_maximum:
  assumes "bloom_ok bf" "hardMaximum bf" "itemCount bf \<le> maxElements bf"
  shows "\<exists>bf'. forE ks bloom_add bf =
      (if unat (itemCount bf) + length ks \<le> unat (maxElements bf) then Inr ()
       else Inl (CString ''Maximum of Elements reached, adding failed''), bf') \<and>
    unat (itemCount bf') = min (unat (itemCount bf) + length ks) (unat (maxElements bf))"
  by (rule bloom_adds_max [OF assms])

theorem bloom_hard_maximum_witness:
  "\<exists>bf'. forE [mk_key 1 2, mk_key 1 2, mk_key 5 9] bloom_add (toy_bloom 20 2 True 2) =
    (Inl (CString ''Maximum of Elements reached, adding failed''), bf')"
  using bloom_hard_maximum [OF toy_bloom_ok(1) [of True 2], of "[mk_key 1 2, mk_key 1 2, mk_key 5 9]"]
  by (auto simp: toy_bloom_def)

text \<open>\<^verbatim>\<open>operator ==\<close> compares the bits when their number is a multiple of eight; otherwise it
  looks at the wrong end of the last byte, and never sees the first bit there.\<close>

theorem bloom_comparison:
  assumes "bloom_ok a" "bloom_ok b" "filterSize a = filterSize b"
  shows "(filterSize a mod 8 = 0 \<longrightarrow> (bloom_eq a b \<longleftrightarrow> bf_bits a = bf_bits b)) \<and>
    (filterSize a mod 8 \<noteq> 0 \<longrightarrow>
       (let p = 8 * (unat (filterSize a) div 8); c = a\<lparr>bitArray := BITSET (bitArray a) p\<rparr>
        in bf_bits c = insert p (bf_bits a) \<and> bloom_eq a c))"
  using bits_equal_whole [OF assms] bits_equal_BITSET [OF assms(1)] assms(3)
    bf_bits_BITSET [OF assms(1) last_byte_bit] by (simp add: bloom_eq_def Let_def)

theorem bloom_comparison_witness:
  "bloom_eq (toy_bloom 20 2 False 0)
    ((toy_bloom 20 2 False 0)\<lparr>bitArray := BITSET (bitArray (toy_bloom 20 2 False 0)) 16\<rparr>)"
  using bloom_comparison [OF toy_bloom_ok(1) [of False 0] toy_bloom_ok(1) [of False 0] refl]
  by (simp add: toy_bloom_def Let_def)

section \<open>The counting filter\<close>

text \<open>C32: the counting filter stores a set of keys: after any keys whose hash functions hit
  different bits were added, its count is the number of different keys, and the comparison
  with another filter of the same shape reports just those that the other does not contain.\<close>

theorem counting_filter_is_a_set:
  assumes "kvc_ok kb {}" "\<not> hardMaximum (kb_bf kb)" "itemCount (kb_bf kb) = 0"
    and "\<forall>k \<in> set ks. length k = hashSize (kb_bf kb) \<and> spread (kb_bf kb) k"
    and "card (set ks) < 2 ^ 64 - 1"
    and "fs_ok other" "filterSize other = filterSize (kb_bf kb)" "functionCount other = functionCount (kb_bf kb)"
  shows "\<exists>kb' ds. forE ks kvc_add kb = (Inr (), kb') \<and> unat (itemCount (kb_bf kb')) = card (set ks) \<and>
    kvc_diff kb' (bitArray other) (length (bitArray other)) 0 = Inr ds \<and>
    set ds = {k \<in> set ks. fs_contains other k = Inr False}"
proof -
  obtain kb' where kb': "forE ks kvc_add kb = (Inr (), kb')" "kvc_ok kb' (set ks)"
    "filterSize (kb_bf kb') = filterSize (kb_bf kb)" "functionCount (kb_bf kb') = functionCount (kb_bf kb)"
    "itemCount (kb_bf kb') = word_of_nat (card (set ks))"
    using kvc_adds [OF assms(1,2,4)] assms(3,5) by auto
  have "unat (itemCount (kb_bf kb')) = card (set ks)"
    unfolding kb'(5) using assms(5) by (intro unat_of_nat_small) simp
  moreover obtain ds where "kvc_diff kb' (bitArray other) (length (bitArray other)) 0 = Inr ds"
    "set ds = {k \<in> set ks. fs_contains other k = Inr False}"
    using kvc_diff_filter [OF kvc_ok_reads [OF kb'(2)] assms(6)] assms(7,8) kb'(3,4) by auto
  ultimately show ?thesis using kb'(1) by blast
qed

lemma pos_list_mk_key: "0 < functionCount bf \<Longrightarrow> pos_list bf key =
    map (\<lambda>i. (size_of_bytes (slice 0 8 key) + (word_of_nat i + 1) * size_of_bytes (slice 8 8 key)) mod filterSize bf)
      [0..<unat (functionCount bf)]"
  by (simp add: pos_list_def key_pos_def key_hash_def)

lemma toy_spread: "spread (toy_file 20 2) (mk_key 1 2)" "spread (toy_file 20 2) (mk_key 5 9)"
  by code_simp+

lemma length_mk_key [simp]: "length (mk_key a b) = 16"
  by (simp add: mk_key_def)

theorem counting_filter_is_a_set_witness:
  "\<exists>kb' ds. forE [mk_key 1 2, mk_key 5 9, mk_key 1 2] kvc_add (toy_kvc 20 2) = (Inr (), kb') \<and>
    unat (itemCount (kb_bf kb')) = card (set [mk_key 1 2, mk_key 5 9, mk_key 1 2]) \<and>
    kvc_diff kb' (bitArray (toy_file 20 2)) 3 0 = Inr ds \<and>
    set ds = {k \<in> {mk_key 1 2, mk_key 5 9}. fs_contains (toy_file 20 2) k = Inr False}"
proof -
  have l: "length (bitArray (toy_file 20 2)) = 3" by (simp add: toy_file_def)
  have c: "card (set [mk_key 1 2, mk_key 5 9, mk_key 1 2]) < 2 ^ 64 - 1"
    using card_length [of "[mk_key 1 2, mk_key 5 9, mk_key 1 2]"] by simp
  have s: "\<forall>k \<in> set [mk_key 1 2, mk_key 5 9, mk_key 1 2].
      length k = hashSize (kb_bf (toy_kvc 20 2)) \<and> spread (kb_bf (toy_kvc 20 2)) k"
    by (simp add: toy_kvc_def toy_spread)
  show ?thesis
    using counting_filter_is_a_set [OF toy_kvc_ok(1) _ _ s c toy_file_ok(1)] by (simp add: toy_kvc_def l insert_commute)
qed


lemma toy_kvc_two:
  obtains kb where "forE [mk_key 1 2, mk_key 5 9] kvc_add (toy_kvc 20 2) = (Inr (), kb)"
    "kvc_ok kb {mk_key 1 2, mk_key 5 9}" "filterSize (kb_bf kb) = 20" "functionCount (kb_bf kb) = 2"
    "itemCount (kb_bf kb) = word_of_nat (card {mk_key 1 2, mk_key 5 9})"
proof -
  have c: "card {mk_key 1 2, mk_key 5 9} < 2 ^ 64 - 1" using card_length [of "[mk_key 1 2, mk_key 5 9]"] by simp
  show thesis
    using kvc_adds [OF toy_kvc_ok(1), of "[mk_key 1 2, mk_key 5 9]"] that toy_spread c
    by (auto simp: toy_kvc_def)
qed

lemma spread_cong: "filterSize a = filterSize b \<Longrightarrow> functionCount a = functionCount b \<Longrightarrow> spread a = spread b"
  using pos_list_cong [of a b] by (simp add: spread_def fun_eq_iff)


text \<open>A key two of whose hash functions hit the same bit is stored, but never set in the
  filter: \<^verbatim>\<open>add\<close> returns as if the key had been there already, the bits and the count
  unchanged, and the key is not found unless other keys cover its bits.\<close>

theorem counting_filter_loses_colliding_keys:
  assumes "kvc_ok kb K" "length key = hashSize (kb_bf kb)" "\<not> spread (kb_bf kb) key"
  shows "\<exists>kb'. kvc_add key kb = (Inr (), kb') \<and> kb_bf kb' = kb_bf kb \<and>
    (fs_contains (kb_bf kb') key = Inr True \<longleftrightarrow> bf_pos (kb_bf kb) key \<subseteq> (\<Union>k \<in> K. bf_pos (kb_bf kb) k))"
proof -
  obtain store where s: "kvc_add key kb = (Inr (), kb\<lparr>kb_store := store\<rparr>)" using kvc_add_colliding [OF assms] by blast
  have "fs_ok (kb_bf kb)" "bf_bits (kb_bf kb) = (\<Union>k \<in> K. bf_pos (kb_bf kb) k)" using assms(1) by (simp_all add: kvc_ok_def)
  then show ?thesis unfolding s by (simp add: fs_contains_bits)
qed

theorem counting_filter_loses_colliding_keys_witness:
  "\<exists>kb'. kvc_add (mk_key 7 40) (toy_kvc 20 2) = (Inr (), kb') \<and>
    fs_contains (kb_bf kb') (mk_key 7 40) = Inr False"
proof -
  have sp: "\<not> spread (kb_bf (toy_kvc 20 2)) (mk_key 7 40)" by code_simp
  have "bf_pos (toy_file 20 2) (mk_key 7 40) \<noteq> {}" by (auto simp: bf_pos_def lessThan_empty_iff)
  then obtain kb' where "kvc_add (mk_key 7 40) (toy_kvc 20 2) = (Inr (), kb')" "kb_bf kb' = toy_file 20 2"
    "fs_contains (kb_bf kb') (mk_key 7 40) \<noteq> Inr True"
    using counting_filter_loses_colliding_keys [OF toy_kvc_ok(1) _ sp] by (auto simp: toy_kvc_def)
  then show ?thesis using fs_contains_bits [OF toy_file_ok(1), of "mk_key 7 40"] by simp
qed

text \<open>Closing the counting filter and opening it again over a new file of the same shape
  restores the bits, the stored keys and the count.\<close>

theorem counting_filter_reopen:
  assumes "kvc_ok kb K" "fs_ok bf" "bf_bits bf = {}" "filterSize bf = filterSize (kb_bf kb)"
    "functionCount bf = functionCount (kb_bf kb)" "hashSize bf = hashSize (kb_bf kb)" "0 < itemCount (kb_bf kb)"
  shows "kvc_ok (kvc_open bf (kvc_close kb)) K \<and>
    itemCount (kb_bf (kvc_open bf (kvc_close kb))) = itemCount (kb_bf kb)"
  using kvc_reopen [OF assms(1-6)] assms(7) by simp

theorem counting_filter_reopen_witness:
  "\<exists>kb. forE [mk_key 1 2, mk_key 5 9] kvc_add (toy_kvc 20 2) = (Inr (), kb) \<and>
    kvc_ok (kvc_open (toy_file 20 2) (kvc_close kb)) {mk_key 1 2, mk_key 5 9}"
proof -
  obtain kb where kb: "forE [mk_key 1 2, mk_key 5 9] kvc_add (toy_kvc 20 2) = (Inr (), kb)"
    "kvc_ok kb {mk_key 1 2, mk_key 5 9}" "filterSize (kb_bf kb) = 20" "functionCount (kb_bf kb) = 2"
    "itemCount (kb_bf kb) = word_of_nat (card {mk_key 1 2, mk_key 5 9})" by (rule toy_kvc_two)
  have "card {mk_key 1 2, mk_key 5 9} < 2 ^ 64" using card_length [of "[mk_key 1 2, mk_key 5 9]"] by simp
  then have "unat (itemCount (kb_bf kb)) = card {mk_key 1 2, mk_key 5 9}"
    unfolding kb(5) by (intro unat_of_nat_small) simp
  moreover have "0 < card {mk_key 1 2, mk_key 5 9}" by (simp add: card_gt_0_iff)
  ultimately have "0 < itemCount (kb_bf kb)" by (simp add: word_less_nat_alt)
  moreover have "length (mk_key 1 2) = hashSize (kb_bf kb)" using kb(2) unfolding kvc_ok_def by blast
  then have "hashSize (toy_file 20 2) = hashSize (kb_bf kb)" by simp
  ultimately show ?thesis
    using counting_filter_reopen [OF kb(2) toy_file_ok(1)] kb by auto
qed

text \<open>A removal writes the value of a shared bit one byte short, so the second one at the same
  bit does not see the last hash any more and leaves the removed key readable there; adding
  that key again is then taken for a repetition, and a key that was just added is not found.\<close>

theorem counting_filter_add_after_remove_lost:
  "\<exists>kb kb1 kb2 kb3 r1 r2.
    forE [mk_key 2 1, mk_key 0 3, mk_key 1 2, mk_key 19 4] kvc_add (toy_kvc 20 2) = (Inr (), kb) \<and>
    kvc_remove (mk_key 19 4) kb = (Inr r1, kb1) \<and> kvc_remove (mk_key 1 2) kb1 = (Inr r2, kb2) \<and>
    kvc_add (mk_key 1 2) kb2 = (Inr (), kb3) \<and> fs_contains (kb_bf kb3) (mk_key 1 2) = Inr False"
proof -
  have "case forE [mk_key 2 1, mk_key 0 3, mk_key 1 2, mk_key 19 4] kvc_add (toy_kvc 20 2) of (r, kb) \<Rightarrow>
    (case kvc_remove (mk_key 19 4) kb of (r1, kb1) \<Rightarrow> (case kvc_remove (mk_key 1 2) kb1 of (r2, kb2) \<Rightarrow>
    (case kvc_add (mk_key 1 2) kb2 of (r3, kb3) \<Rightarrow>
      r = Inr () \<and> r1 = Inr True \<and> r2 = Inr True \<and> r3 = Inr () \<and>
      fs_contains (kb_bf kb3) (mk_key 1 2) = Inr False)))" by code_simp
  then show ?thesis by (auto split: prod.splits)
qed

end
