(* ===== verification/Config.thy ===== *)
theory Config
  imports CryptoHash
begin

text \<open>
  \<^verbatim>\<open>setsync/config/Configuration.cpp\<close> and \<^verbatim>\<open>Configuration.h\<close>, and the C structure \<^verbatim>\<open>SET_CONFIG\<close>
  of \<^verbatim>\<open>set.h\<close>.  A \<^verbatim>\<open>float\<close> is its bit pattern, since nothing but the tests and the logarithms
  of the Bloom filter computes with it.  Members that a constructor leaves uninitialised are
  arguments of the model of that constructor.
\<close>

type_synonym float32 = u32

datatype SET_HASH_FUNCTION = MD_2 | MD_4 | MD_5 | SHA_1 | SHA_224 | SHA_256 | SHA_384 | SHA_512
datatype SET_STORAGE_TYPE = C_LEVELDB | C_BERKELEY_DB | C_IN_MEMORY_DB
datatype StorageType = BERKELEY_DB | LEVELDB | IN_MEMORY
datatype BloomFilterType = NORMAL | COMPRESSED

record SET_CONFIG =
  cf_function :: SET_HASH_FUNCTION
  cf_storage :: SET_STORAGE_TYPE
  cf_bf_hard_max :: int
  cf_bf_max_elements :: u64
  cf_false_positive_rate :: float32
  cf_storage_cache_gbytes :: u64
  cf_storage_cache_bytes :: u64

record BloomFilterConfig =
  bc_maxElements :: u64
  bc_type :: BloomFilterType
  bc_hardMaximum :: bool
  bc_falsePositiveRate :: float32

record StorageConfig =
  sc_type :: StorageType
  sc_cacheSizeGiven :: bool
  sc_cacheInBytes :: u64
  sc_cacheInGBytes :: u64

record Configuration =
  co_path :: string
  co_hashname :: string
  co_bf :: BloomFilterConfig
  co_storage :: StorageConfig

section \<open>Constructors\<close>

text \<open>The default rate is 0.001.\<close>

definition BloomFilterConfig_init :: "BloomFilterType \<Rightarrow> u64 \<Rightarrow> bool \<Rightarrow> float32 \<Rightarrow> BloomFilterConfig" where
  "BloomFilterConfig_init junk maxNumberOfElements hardMaximum rate =
     \<lparr>bc_maxElements = maxNumberOfElements, bc_type = junk, bc_hardMaximum = hardMaximum,
      bc_falsePositiveRate = rate\<rparr>"

definition default_bf :: "BloomFilterType \<Rightarrow> BloomFilterConfig" where
  "default_bf junk = BloomFilterConfig_init junk 10000 False 0x3A83126F"

text \<open>With a size in gigabytes the flag is never set.\<close>

definition StorageConfig_init :: "bool \<Rightarrow> StorageType \<Rightarrow> u64 \<Rightarrow> u64 \<Rightarrow> StorageConfig" where
  "StorageConfig_init junk type cacheInBytes cacheInGBytes =
     \<lparr>sc_type = type,
      sc_cacheSizeGiven = (if cacheInGBytes = 0 then cacheInBytes \<noteq> 0 else junk),
      sc_cacheInBytes = cacheInBytes, sc_cacheInGBytes = cacheInGBytes\<rparr>"

definition default_storage :: StorageConfig where
  "default_storage = StorageConfig_init False BERKELEY_DB 0 0"

definition Configuration_init :: "BloomFilterConfig \<Rightarrow> string \<Rightarrow> Configuration" where
  "Configuration_init bf hashname =
     \<lparr>co_path = '''', co_hashname = hashname, co_bf = bf, co_storage = default_storage\<rparr>"

fun hash_name :: "SET_HASH_FUNCTION \<Rightarrow> string" where
  "hash_name SHA_1 = ''sha1''"
| "hash_name MD_2 = ''md2''"
| "hash_name MD_4 = ''md4''"
| "hash_name MD_5 = ''md5''"
| "hash_name SHA_224 = ''sha224''"
| "hash_name SHA_256 = ''sha256''"
| "hash_name SHA_384 = ''sha384''"
| "hash_name SHA_512 = ''sha512''"

text \<open>The build flags: whether the library has LevelDB and Berkeley DB.\<close>

fun storage_type :: "bool \<Rightarrow> bool \<Rightarrow> SET_STORAGE_TYPE \<Rightarrow> StorageType \<Rightarrow> StorageType" where
  "storage_type leveldb bdb C_LEVELDB old = (if leveldb then LEVELDB else old)"
| "storage_type leveldb bdb C_BERKELEY_DB old = (if bdb then BERKELEY_DB else old)"
| "storage_type leveldb bdb C_IN_MEMORY_DB old = (if bdb then IN_MEMORY else old)"

definition Configuration_of_C :: "BloomFilterType \<Rightarrow> bool \<Rightarrow> bool \<Rightarrow> SET_CONFIG \<Rightarrow> Configuration" where
  "Configuration_of_C junk leveldb bdb config =
     \<lparr>co_path = '''', co_hashname = hash_name (cf_function config),
      co_bf = (default_bf junk)\<lparr>bc_falsePositiveRate := cf_false_positive_rate config,
        bc_hardMaximum := cf_bf_hard_max config \<noteq> 0, bc_maxElements := cf_bf_max_elements config\<rparr>,
      co_storage = default_storage\<lparr>sc_cacheInBytes := cf_storage_cache_bytes config,
        sc_cacheInGBytes := cf_storage_cache_gbytes config,
        sc_cacheSizeGiven :=
          \<not> (cf_storage_cache_bytes config = 0 \<and> cf_storage_cache_gbytes config = 0),
        sc_type := storage_type leveldb bdb (cf_storage config) (sc_type default_storage)\<rparr>\<rparr>"

definition set_create_config :: "bool \<Rightarrow> SET_CONFIG" where
  "set_create_config leveldb =
     \<lparr>cf_function = SHA_1, cf_storage = (if leveldb then C_LEVELDB else C_BERKELEY_DB), cf_bf_hard_max = 0,
      cf_bf_max_elements = 10000, cf_false_positive_rate = 0x3A83126F,
      cf_storage_cache_gbytes = 0, cf_storage_cache_bytes = 0\<rparr>"

section \<open>Access\<close>

definition getHashFunction :: "Configuration \<Rightarrow> string" where
  "getHashFunction c = (case CryptoHash_init (co_hashname c) of Inl _ \<Rightarrow> getDefaultName | Inr _ \<Rightarrow> co_hashname c)"

definition setPath :: "string \<Rightarrow> Configuration \<Rightarrow> Configuration" where
  "setPath path c = c\<lparr>co_path := c_str path\<rparr>"

definition getMaxElements :: "BloomFilterConfig \<Rightarrow> u64" where
  "getMaxElements bf = bc_maxElements bf"

definition setMaxElements :: "u64 \<Rightarrow> BloomFilterConfig \<Rightarrow> BloomFilterConfig" where
  "setMaxElements m bf = bf\<lparr>bc_maxElements := m\<rparr>"

definition setHardMaximum :: "bool \<Rightarrow> BloomFilterConfig \<Rightarrow> BloomFilterConfig" where
  "setHardMaximum isHardMax bf = bf\<lparr>bc_hardMaximum := isHardMax\<rparr>"

definition isHardMaximum :: "BloomFilterConfig \<Rightarrow> bool" where
  "isHardMaximum bf = bc_hardMaximum bf"

definition isCacheSizeGiven :: "StorageConfig \<Rightarrow> bool" where
  "isCacheSizeGiven sc = sc_cacheSizeGiven sc"

section \<open>Lemmas\<close>

lemma tolower_hash_name: "map tolower (c_str (hash_name f)) = hash_name f"
proof -
  have "list_all (\<lambda>f. map tolower (c_str (hash_name f)) = hash_name f)
      [SHA_1, MD_2, MD_4, MD_5, SHA_224, SHA_256, SHA_384, SHA_512]" by code_simp
  then show ?thesis by (cases f) simp_all
qed

lemma hash_name_known: "\<exists>h. CryptoHash_init (hash_name f) = Inr h"
  unfolding CryptoHash_init_def md_info_from_string_def option.case strcasecmp_eq_def tolower_names tolower_hash_name
  by (cases f) simp_all

text \<open>Whatever the name, the configuration yields a hash function that exists.\<close>

lemma getHashFunction_exists: "\<exists>h. CryptoHash_init (getHashFunction c) = Inr h"
proof (cases "CryptoHash_init (co_hashname c)")
  case (Inl e)
  then show ?thesis using hash_name_known [of SHA_1] by (simp add: getHashFunction_def getDefaultName_def)
qed (simp add: getHashFunction_def)

end
