(* ===== verification/SetModel.thy ===== *)
theory SetModel
  imports SetHash TrieDot CountingSet SetIndex Config
begin

text \<open>
  Class \<^verbatim>\<open>Set\<close> of \<^verbatim>\<open>setsync/Set.cpp\<close>: a trie, a counting Bloom filter and an index over three
  storages.  What the constructor gets from outside is its argument: the contents of the
  storages, whether the database environment and the filter's file could be opened, the
  numbers of bits and of functions computed with logarithms, and the name of the temporary
  directory.  Deleting files is not modelled.
\<close>

record set_state =
  set_hash :: CryptoHash
  set_junk :: bytes \<comment> \<open>the uninitialised buffers of new trie nodes\<close>
  set_config :: Configuration
  set_tempDir :: "string option"
  set_trie :: trie_state
  set_bf :: kvc
  set_index :: kvstore
  set_indexInUse :: bool
  set_maxSize :: u64
  set_hardMaximum :: bool

type_synonym 'a sprog = "(set_state, 'a) prog"

definition set_env :: "set_state \<Rightarrow> trie_env" where
  "set_env s = hash_env (set_hash s) (set_junk s)"

definition set_hs :: "set_state \<Rightarrow> nat" where
  "set_hs s = unat (getHashSize (set_hash s))"

definition on_trie :: "'a tprog \<Rightarrow> 'a sprog" where
  "on_trie m = (\<lambda>s. case m (set_trie s) of (r, t) \<Rightarrow> (r, s\<lparr>set_trie := t\<rparr>))"

definition on_kvc :: "'a kvprog \<Rightarrow> 'a sprog" where
  "on_kvc m = (\<lambda>s. case m (set_bf s) of (r, kb) \<Rightarrow> (r, s\<lparr>set_bf := kb\<rparr>))"

section \<open>Construction\<close>

text \<open>
  The macro \<^verbatim>\<open>GIGABYTE\<close> is \<^verbatim>\<open>1024 * 1024 * 1024\<close> without parentheses, so a division by it divides
  by 1024 and multiplies twice.
\<close>

definition div_GIGABYTE :: "u64 \<Rightarrow> u64" where
  "div_GIGABYTE x = x div 1024 * 1024 * 1024"

definition mod_GIGABYTE :: "u64 \<Rightarrow> u64" where
  "mod_GIGABYTE x = x mod 1024 * 1024 * 1024"

definition leveldb_cache :: "StorageConfig \<Rightarrow> u64" where
  "leveldb_cache sc =
     (if isCacheSizeGiven sc
      then (1024 * 1024 * 1024 * sc_cacheInGBytes sc + sc_cacheInBytes sc) div 2
      else 0)"

text \<open>The caches of the two storages in memory, in gigabytes and bytes.\<close>

definition memory_cache :: "StorageConfig \<Rightarrow> u64 \<Rightarrow> u64 \<Rightarrow> u64 \<times> u64" where
  "memory_cache sc elements hashsize =
     (let size = sc_cacheInBytes sc; gbsize = sc_cacheInGBytes sc;
          (size, gbsize) =
            (if \<not> isCacheSizeGiven sc
             then let size = elements * hashsize * 40 + 1024 * 1024
                  in if 1024 * 1024 * 1024 < size then (mod_GIGABYTE size, div_GIGABYTE size)
                     else (size, gbsize)
             else (size, gbsize));
          halfcache = size div 2; halfgbcache = gbsize div 2
      in if gbsize mod 2 = 1
         then let halfcache = halfcache + 1024 * 1024 * 1024 div 2
              in if 1024 * 1024 * 1024 < halfcache
                 then (halfgbcache + div_GIGABYTE halfcache, mod_GIGABYTE halfcache)
                 else (halfgbcache, halfcache)
         else (halfgbcache, halfcache))"

definition with_slash :: "string \<Rightarrow> string" where
  "with_slash path = (if path \<noteq> '''' \<and> last path \<noteq> CHR 0x2F then path @ [CHR 0x2F] else path)"

text \<open>What the three storages hold when opened: trie, Bloom filter, index.\<close>

record set_files =
  sf_trie :: kvstore
  sf_bf :: kvstore
  sf_index :: kvstore

record set_world =
  sw_leveldb :: bool
  sw_bdb :: bool
  sw_env_open :: bool
  sw_temp :: string
  sw_bad_rate :: "string option"
  sw_filterSize :: u64
  sw_functions :: u32
  sw_junk_max :: u64
  sw_junk_node :: bytes
  sw_file_ok :: bool
  sw_write_ok :: bool
  sw_mmap_ok :: bool

text \<open>The \<^verbatim>\<open>switch\<close> on the storage type; in memory, two storages are new.\<close>

definition open_storages :: "set_world \<Rightarrow> Configuration \<Rightarrow> set_files \<Rightarrow> exn + set_files" where
  "open_storages w config files =
     (case sc_type (co_storage config) of
        LEVELDB \<Rightarrow> if sw_leveldb w then Inr files else Inl (CString ''No storage type found!'')
      | BERKELEY_DB \<Rightarrow>
          if \<not> sw_bdb w then Inl (CString ''No storage type found!'')
          else if \<not> sw_env_open w then Inl (CString ''Failed to open berkeley db database env'')
          else Inr files
      | IN_MEMORY \<Rightarrow>
          if \<not> sw_bdb w then Inl (CString ''No storage type found!'')
          else if \<not> sw_env_open w then Inl (CString ''Failed to open berkeley db database env'')
          else Inr (files\<lparr>sf_trie := new_storage True, sf_bf := new_storage True\<rparr>))"

definition Set_init :: "set_world \<Rightarrow> Configuration \<Rightarrow> set_files \<Rightarrow> exn + set_state" where
  "Set_init w config files =
     (case CryptoHash_init (getHashFunction config) of
        Inl e \<Rightarrow> Inl e
      | Inr hash \<Rightarrow>
        let temp = (if co_path config = '''' \<or> sc_type (co_storage config) = IN_MEMORY
                    then Some (sw_temp w) else None)
        in case open_storages w config files of
             Inl e \<Rightarrow> Inl e
           | Inr files \<Rightarrow>
               let bfconfig = co_bf config
               in case fs_init (sw_bad_rate w) (sw_filterSize w) (sw_functions w) (isHardMaximum bfconfig)
                      (getMaxElements bfconfig) (sw_junk_max w) (unat (getHashSize hash))
                      (sw_file_ok w) (sw_write_ok w) (sw_mmap_ok w) of
                    Inl e \<Rightarrow> Inl e
                  | Inr bf \<Rightarrow>
                      Inr \<lparr>set_hash = hash, set_junk = sw_junk_node w, set_config = config, set_tempDir = temp,
                        set_trie = open_trie (sf_trie files), set_bf = kvc_open bf (sf_bf files),
                        set_index = sf_index files, set_indexInUse = False,
                        set_maxSize = getMaxElements bfconfig, set_hardMaximum = isHardMaximum bfconfig\<rparr>)"

text \<open>The destructor leaves the storages of its members.\<close>

definition Set_free :: "set_state \<Rightarrow> set_files" where
  "Set_free s = \<lparr>sf_trie = close_trie (set_trie s), sf_bf = kvc_close (set_bf s), sf_index = set_index s\<rparr>"

definition getPath :: "set_state \<Rightarrow> string" where
  "getPath s = (case set_tempDir s of Some path \<Rightarrow> path | None \<Rightarrow> co_path (set_config s))"

definition bloom_file :: "set_state \<Rightarrow> string" where
  "bloom_file s = with_slash (getPath s) @ ''bloom.filter''"

section \<open>Capacity\<close>

definition set_getSize :: "set_state \<Rightarrow> u64" where
  "set_getSize s = ts_size (set_trie s)"

definition set_isEmpty :: "set_state \<Rightarrow> bool" where
  "set_isEmpty s = (if set_getSize s = 0 then True else False)"

definition set_getMaximumSize :: "set_state \<Rightarrow> u64" where
  "set_getMaximumSize s = set_maxSize s"

definition set_getBFSize :: "set_state \<Rightarrow> u64" where
  "set_getBFSize s = bf_size (kb_bf (set_bf s))"

definition set_getBFFunctionCount :: "set_state \<Rightarrow> u64" where
  "set_getBFFunctionCount s = numberOfFunctions (kb_bf (set_bf s))"

definition getMinSyncTrieBuffer :: "set_state \<Rightarrow> nat" where
  "getMinSyncTrieBuffer s = set_hs s * 2"

definition getMinSyncBFBuffer :: "set_state \<Rightarrow> nat" where
  "getMinSyncBFBuffer s = 1"

definition getMinSyncBuffer :: "set_state \<Rightarrow> nat" where
  "getMinSyncBuffer s = max (getMinSyncBFBuffer s) (getMinSyncTrieBuffer s)"

section \<open>Lookup\<close>

definition set_find :: "set_state \<Rightarrow> bytes \<Rightarrow> exn + bool" where
  "set_find s key =
     (case fs_contains (kb_bf (set_bf s)) key of
        Inl e \<Rightarrow> Inl e
      | Inr c \<Rightarrow> Inr (if c then contains (set_env s) (set_trie s) key = LEAF_NODE else False))"

text \<open>\<open>junk\<close> and \<open>heap\<close>: the uninitialised size of an absent entry, and fresh memory.\<close>

definition set_get :: "nat \<Rightarrow> (nat \<Rightarrow> bytes) \<Rightarrow> set_state \<Rightarrow> bytes \<Rightarrow> exn + bool \<times> bytes option \<times> nat" where
  "set_get junk heap s key =
     (case set_find s key of
        Inl e \<Rightarrow> Inl e
      | Inr found \<Rightarrow>
          if found then
            if set_indexInUse s then
              let valueSize = index_getSizeOf junk (set_hs s) key (set_index s)
              in (case index_get (set_hs s) key (heap valueSize) valueSize (set_index s) of
                    (_, val, valueSize) \<Rightarrow> Inr (False, Some val, valueSize))
            else Inr (False, None, 0)
          else Inr (False, None, 0))"

section \<open>Modifiers\<close>

definition set_insert :: "bytes \<Rightarrow> bool sprog" where
  "set_insert key = (\<lambda>s.
     if set_hardMaximum s \<and> set_maxSize s \<le> ts_size (set_trie s) then (Inr False, s)
     else bindE (on_trie (add (set_env s) key True)) (\<lambda>added.
          if added then bindE (on_kvc (kvc_add key)) (\<lambda>_. ret True) else ret False) s)"

definition set_insert_data :: "bytes \<Rightarrow> bool sprog" where
  "set_insert_data data = (\<lambda>s.
     let k = te_hash (set_env s) data; (stored, index) = index_put (set_hs s) k data (set_index s);
         s = s\<lparr>set_index := index\<rparr>
     in if stored then
          bindE (set_insert k) (\<lambda>success.
            if success then bindE (modify (\<lambda>s. s\<lparr>set_indexInUse := True\<rparr>)) (\<lambda>_. ret True)
            else bindE (modify (\<lambda>s. s\<lparr>set_index := snd (index_remove (set_hs s) k (set_index s))\<rparr>))
                   (\<lambda>_. ret False)) s
        else (Inr False, s))"

definition set_erase :: "bytes \<Rightarrow> bool sprog" where
  "set_erase key = (\<lambda>s.
     bindE (on_trie (remove (set_env s) key True)) (\<lambda>removed.
       if removed then
         bindE (on_kvc (kvc_remove key)) (\<lambda>_.
         bindE (modify (\<lambda>s. if set_indexInUse s
             then s\<lparr>set_index := snd (index_remove (set_hs s) key (set_index s))\<rparr> else s))
           (\<lambda>_. ret True))
       else ret False) s)"

definition set_clear :: "set_state \<Rightarrow> set_state" where
  "set_clear s = s\<lparr>set_trie := clear (set_trie s), set_bf := kvc_clear (set_bf s),
     set_index := index_clear (set_index s), set_indexInUse := False\<rparr>"

text \<open>The overloads that hash a C string, a string or data first.\<close>

definition str_key :: "set_state \<Rightarrow> string \<Rightarrow> bytes" where
  "str_key s str = te_hash (set_env s) (str_bytes (c_str str))"

definition set_insert_str :: "string \<Rightarrow> bool sprog" where
  "set_insert_str str = (\<lambda>s. set_insert (str_key s str) s)"

definition set_erase_str :: "string \<Rightarrow> bool sprog" where
  "set_erase_str str = (\<lambda>s. set_erase (str_key s str) s)"

definition set_erase_data :: "bytes \<Rightarrow> bool sprog" where
  "set_erase_data data = (\<lambda>s. set_erase (te_hash (set_env s) data) s)"

definition set_find_str :: "set_state \<Rightarrow> string \<Rightarrow> exn + bool" where
  "set_find_str s str = set_find s (str_key s str)"

definition set_find_data :: "set_state \<Rightarrow> bytes \<Rightarrow> exn + bool" where
  "set_find_data s data = set_find s (te_hash (set_env s) data)"

section \<open>Comparison\<close>

definition set_eq :: "set_state \<Rightarrow> set_state \<Rightarrow> exn + bool" where
  "set_eq this other = trie_eq (set_env this) (set_trie this) (set_trie other)"

definition set_neq :: "set_state \<Rightarrow> set_state \<Rightarrow> exn + bool" where
  "set_neq this other = map_sum id Not (trie_eq (set_env this) (set_trie this) (set_trie other))"

text \<open>The text of the trie.\<close>

definition getTrieToDot :: "set_state \<Rightarrow> exn + string" where
  "getTrieToDot s = trie_toDotString (set_env s) (set_trie s)"

definition getTrieToDot_prefix :: "set_state \<Rightarrow> string \<Rightarrow> exn + string" where
  "getTrieToDot_prefix s prefix = toDotString (set_env s) (set_trie s) prefix"

end
