(* ===== verification/CountingCovers.thy ===== *)
theory CountingCovers
  imports CountingSet
begin

text \<open>
  Any number of removals: what is read of a shared bit may go wrong after the second one, but
  no bit that a remaining key needs is ever cleared.  The invariant \<open>covered\<close> counts, for every
  bit, the keys that need it; the value of the bit is at least that many hashes long.
\<close>

definition covered :: "kvc \<Rightarrow> (u64 \<Rightarrow> nat) \<Rightarrow> bool" where
  "covered kb c \<longleftrightarrow> fs_ok (kb_bf kb) \<and>
     (\<forall>p. 0 < c p \<longrightarrow> BITTEST (bitArray (kb_bf kb)) (unat p) \<and>
        (\<exists>v. storage_get (kb_store kb) (size_to_bytes p) = Some v \<and> c p * hashSize (kb_bf kb) \<le> length v))"

definition needs :: "'a bloom_scheme \<Rightarrow> bytes set \<Rightarrow> u64 \<Rightarrow> nat" where
  "needs bf K p = card {k \<in> K. p \<in> set (pos_list bf k)}"

definition kvc_covers :: "kvc \<Rightarrow> bytes set \<Rightarrow> bool" where
  "kvc_covers kb K \<longleftrightarrow> finite K \<and> covered kb (needs (kb_bf kb) K)"

definition same_shape :: "kvc \<Rightarrow> kvc \<Rightarrow> bool" where
  "same_shape kb kb' \<longleftrightarrow> filterSize (kb_bf kb') = filterSize (kb_bf kb) \<and>
     functionCount (kb_bf kb') = functionCount (kb_bf kb) \<and> hashSize (kb_bf kb') = hashSize (kb_bf kb)"

lemma length_squeeze:
  assumes "0 < hs" shows "length (squeeze hs key v) = length v"
proof -
  let ?step = "\<lambda>j (out, buf).
        let buf = memcpy_at buf out (slice (j * hs) hs buf)
        in if slice (j * hs) hs buf \<noteq> take hs key then (out + hs, buf) else (out, buf)"
  have "j \<le> length v div hs \<Longrightarrow>
      fst (fold ?step [0..<j] (0, v)) \<le> j * hs \<and> length (snd (fold ?step [0..<j] (0, v))) = length v" for j
  proof (induction j)
    case (Suc j)
    obtain out buf where b: "fold ?step [0..<j] (0, v) = (out, buf)" by fastforce
    have "Suc j * hs \<le> length v div hs * hs" using Suc.prems by (intro mult_le_mono1)
    also have "\<dots> \<le> length v" by (simp add: div_times_less_eq_dividend)
    finally have "j * hs + hs \<le> length v" by simp
    moreover have "out \<le> j * hs" "length buf = length v" using Suc b by simp_all
    ultimately show ?case using b by (simp add: Let_def)
  qed simp
  from this [of "length v div hs"] show ?thesis by (simp add: squeeze_def)
qed

lemma covered_step:
  assumes c: "covered kb c" "0 < c (key_pos (kb_bf kb) key i)"
  shows "\<exists>r kb'. kvc_remove_function key i kb = (Inr r, kb') \<and> same_shape kb kb' \<and>
    itemCount (kb_bf kb') = itemCount (kb_bf kb) \<and>
    covered kb' (c(key_pos (kb_bf kb) key i := c (key_pos (kb_bf kb) key i) - 1))"
proof -
  let ?bf = "kb_bf kb" and ?p = "key_pos (kb_bf kb) key i"
  have fs: "fs_ok ?bf" using c(1) by (simp add: covered_def)
  then have bf: "bloom_ok ?bf" and hs: "0 < hashSize ?bf" by (simp_all add: fs_ok_def bloom_ok_def)
  have h: "bf_hash ?bf key i = Inr (key_hash key i)" "key_hash key i mod filterSize ?bf = ?p"
    using bf_hash_ok [OF bf] by (simp_all add: key_pos_def)
  obtain v where v: "storage_get (kb_store kb) (size_to_bytes ?p) = Some v" "c ?p * hashSize ?bf \<le> length v"
    using c by (auto simp: covered_def)
  show ?thesis
  proof (cases "1 < length v div hashSize ?bf")
    case True
    let ?w = "take (length v - 1) (squeeze (hashSize ?bf) key v)"
    let ?kb = "kb\<lparr>kb_store := storage_put (kb_store kb) (size_to_bytes ?p) ?w\<rparr>"
    have "kvc_remove_function key i kb = (Inr False, ?kb)"
      using h v(1) True by (simp add: kvc_remove_function_def Let_def)
    moreover have "(c ?p - 1) * hashSize ?bf \<le> length ?w"
    proof -
      have "(c ?p - 1) * hashSize ?bf = c ?p * hashSize ?bf - hashSize ?bf" by (simp add: diff_mult_distrib)
      also have "\<dots> \<le> length v - 1" using v(2) hs by linarith
      finally show ?thesis by (simp add: length_squeeze [OF hs])
    qed
    then have "covered ?kb (c(?p := c ?p - 1))" using c(1) c(2) by (simp add: covered_def kv.get_put)
    ultimately show ?thesis by (intro exI [of _ False] exI [of _ ?kb]) (simp add: same_shape_def)
  next
    case False
    have "c ?p \<le> length v div hashSize ?bf" using v(2) hs by (simp add: less_eq_div_iff_mult_less_eq)
    then have one: "c ?p = 1" using False c(2) by simp
    obtain store where d: "storage_del (kb_store kb) (size_to_bytes ?p) = Inr store"
      "storage_get store = (storage_get (kb_store kb))(size_to_bytes ?p := None)"
      using kv.del_result [of "kb_store kb" "size_to_bytes ?p"] v by auto
    let ?kb = "set_bits_of kb store (BITCLEAR (bitArray ?bf) (unat ?p))"
    have "kvc_remove_function key i kb = (Inr True, ?kb)"
      using h v(1) d(1) False by (simp add: kvc_remove_function_def Let_def set_bits_of_def)
    moreover have "unat ?p div 8 < length (bitArray ?bf)" using pos_byte [OF bf] by (simp add: key_pos_def)
    then have "BITTEST (BITCLEAR (bitArray ?bf) (unat ?p)) q \<longleftrightarrow> q \<noteq> unat ?p \<and> BITTEST (bitArray ?bf) q" for q
      by (rule BITTEST_BITCLEAR)
    then have "covered ?kb (c(?p := c ?p - 1))" using c(1) d(2) one
      by (simp add: covered_def fs_ok_def bloom_ok_def BITCLEAR_def word_unat_eq_iff)
    ultimately show ?thesis by (intro exI [of _ True] exI [of _ ?kb]) (simp add: same_shape_def)
  qed
qed

lemma key_pos_shape: "same_shape kb kb' \<Longrightarrow> key_pos (kb_bf kb') = key_pos (kb_bf kb) \<and> pos_list (kb_bf kb') = pos_list (kb_bf kb)"
  by (auto simp: same_shape_def key_pos_def fun_eq_iff intro!: pos_list_cong [THEN fun_cong])

lemma covered_remove_from:
  "covered kb c \<Longrightarrow> distinct (map (key_pos (kb_bf kb) key) is) \<Longrightarrow>
   \<forall>i \<in> set is. 0 < c (key_pos (kb_bf kb) key i) \<Longrightarrow>
   \<exists>r' kb'. kvc_remove_from key r is kb = (Inr r', kb') \<and> same_shape kb kb' \<and>
     itemCount (kb_bf kb') = itemCount (kb_bf kb) \<and>
     covered kb' (\<lambda>p. c p - (if p \<in> key_pos (kb_bf kb) key ` set is then 1 else 0))"
proof (induction "is" arbitrary: kb c r)
  case Nil
  then show ?case by (simp add: ret_def same_shape_def)
next
  case (Cons i js)
  let ?pos = "key_pos (kb_bf kb) key"
  obtain f kb1 where st: "kvc_remove_function key i kb = (Inr f, kb1)" "same_shape kb kb1"
    "itemCount (kb_bf kb1) = itemCount (kb_bf kb)" "covered kb1 (c(?pos i := c (?pos i) - 1))"
    using covered_step [OF Cons.prems(1)] Cons.prems(3) by (metis list.set_intros(1))
  have pos: "key_pos (kb_bf kb1) = key_pos (kb_bf kb)" using key_pos_shape [OF st(2)] by simp
  have out: "?pos i \<notin> ?pos ` set js" using Cons.prems(2) by simp
  have "\<forall>j \<in> set js. 0 < (c(?pos i := c (?pos i) - 1)) (?pos j)"
    using Cons.prems(3) out by (metis fun_upd_other imageI list.set_intros(2))
  then obtain r' kb' where rest: "kvc_remove_from key (r \<or> f) js kb1 = (Inr r', kb')" "same_shape kb1 kb'"
    "itemCount (kb_bf kb') = itemCount (kb_bf kb1)"
    "covered kb' (\<lambda>p. (c(?pos i := c (?pos i) - 1)) p - (if p \<in> ?pos ` set js then 1 else 0))"
    using Cons.IH [OF st(4), of "r \<or> f"] Cons.prems(2) unfolding pos by auto
  have "(\<lambda>p. (c(?pos i := c (?pos i) - 1)) p - (if p \<in> ?pos ` set js then 1 else 0)) =
      (\<lambda>p. c p - (if p \<in> ?pos ` set (i # js) then 1 else 0))" using out by (auto simp: fun_eq_iff)
  then show ?case using rest st by (simp add: bindE_def same_shape_def)
qed

lemma needs_remove:
  assumes "finite K" "key \<in> K"
  shows "needs bf (K - {key}) p = needs bf K p - (if p \<in> set (pos_list bf key) then 1 else 0)"
proof (cases "p \<in> set (pos_list bf key)")
  case True
  have "{k \<in> K - {key}. p \<in> set (pos_list bf k)} = {k \<in> K. p \<in> set (pos_list bf k)} - {key}" by auto
  then show ?thesis using True assms by (simp add: needs_def card_Diff_singleton)
next
  case False
  then have "{k \<in> K - {key}. p \<in> set (pos_list bf k)} = {k \<in> K. p \<in> set (pos_list bf k)}" by auto
  then show ?thesis using False by (simp add: needs_def)
qed

lemma needs_pos: "finite K \<Longrightarrow> 0 < needs bf K p \<longleftrightarrow> (\<exists>k \<in> K. p \<in> set (pos_list bf k))"
  by (auto simp: needs_def card_gt_0_iff)

lemma kvc_covers_contains:
  assumes "kvc_covers kb K" "k \<in> K"
  shows "fs_contains (kb_bf kb) k = Inr True"
proof -
  have fs: "fs_ok (kb_bf kb)" "finite K" using assms(1) by (simp_all add: kvc_covers_def covered_def)
  have "unat p \<in> bf_bits (kb_bf kb)" if "p \<in> set (pos_list (kb_bf kb) k)" for p
  proof -
    have "0 < needs (kb_bf kb) K p" using needs_pos [OF fs(2)] that assms(2) by blast
    then have "BITTEST (bitArray (kb_bf kb)) (unat p)" using assms(1) by (simp add: kvc_covers_def covered_def)
    moreover have "unat p \<in> bf_pos (kb_bf kb) k" using that by simp
    ultimately show ?thesis using pos_less_size [OF fs(1)] by (simp add: bf_bits_def)
  qed
  then have "bf_pos (kb_bf kb) k \<subseteq> bf_bits (kb_bf kb)" by (auto simp: bf_pos_list)
  then show ?thesis by (simp add: fs_contains_bits [OF fs(1)])
qed

lemma kvc_covers_remove:
  assumes "kvc_covers kb K" "key \<in> K" "spread (kb_bf kb) key"
  shows "\<exists>r kb'. kvc_remove key kb = (Inr r, kb') \<and> same_shape kb kb' \<and>
    itemCount (kb_bf kb') = itemCount (kb_bf kb) \<and> kvc_covers kb' (K - {key})"
proof -
  let ?is = "[0..<unat (functionCount (kb_bf kb))]" and ?pos = "key_pos (kb_bf kb) key"
  have fin: "finite K" and cov: "covered kb (needs (kb_bf kb) K)" using assms(1) by (simp_all add: kvc_covers_def)
  have im: "?pos ` set ?is = set (pos_list (kb_bf kb) key)" by (simp add: pos_list_def)
  have "0 < needs (kb_bf kb) K (?pos i)" if "i \<in> set ?is" for i
    using needs_pos [OF fin] assms(2) im that by blast
  then obtain r kb' where run: "kvc_remove_from key False ?is kb = (Inr r, kb')" "same_shape kb kb'"
    "itemCount (kb_bf kb') = itemCount (kb_bf kb)"
    "covered kb' (\<lambda>p. needs (kb_bf kb) K p - (if p \<in> ?pos ` set ?is then 1 else 0))"
    using covered_remove_from [OF cov, of key ?is False] assms(3) by (auto simp: spread_def pos_list_def)
  have "needs (kb_bf kb') (K - {key}) = (\<lambda>p. needs (kb_bf kb) K p - (if p \<in> ?pos ` set ?is then 1 else 0))"
    using needs_remove [OF fin assms(2), of "kb_bf kb"] key_pos_shape [OF run(2)] unfolding im
    by (simp add: fun_eq_iff needs_def)
  then show ?thesis using run fin kvc_covers_contains [OF assms(1,2)] by (simp add: kvc_remove_def kvc_covers_def)
qed

lemma kvc_ok_covers:
  assumes "kvc_ok kb K" shows "kvc_covers kb K"
proof -
  let ?bf = "kb_bf kb"
  have fs: "fs_ok ?bf" "finite K" and bits: "bf_bits ?bf = (\<Union>k \<in> K. bf_pos ?bf k)"
    using assms by (simp_all add: kvc_ok_def)
  obtain E where E: "holds_at (kb_store kb) (hashSize ?bf) E" "\<And>p. distinct (E p)"
    "\<And>p. set (E p) = {k \<in> K. p \<in> set (pos_list ?bf k)}" using assms by (auto simp: kvc_ok_def)
  have n: "needs ?bf K p = length (E p)" for p
    using distinct_card [OF E(2) [of p]] by (simp add: needs_def E(3))
  have "BITTEST (bitArray ?bf) (unat p)" if "0 < needs ?bf K p" for p
  proof -
    have "unat p \<in> bf_bits ?bf" using that needs_pos [OF fs(2), of ?bf p] bits by auto
    then show ?thesis by (simp add: bf_bits_def)
  qed
  moreover have "\<exists>v. storage_get (kb_store kb) (size_to_bytes p) = Some v \<and> needs ?bf K p * hashSize ?bf \<le> length v"
    if "0 < needs ?bf K p" for p
  proof -
    have "list_all (\<lambda>x. length x = hashSize ?bf) (E p)" using E(1) by (simp add: holds_at_def)
    then show ?thesis using E(1) that length_concat_all [of "hashSize ?bf" "E p"] by (auto simp: holds_at_def n)
  qed
  ultimately show ?thesis using fs by (simp add: kvc_covers_def covered_def)
qed

end
