(* ===== verification/SetRep.thy ===== *)
theory SetRep
  imports SetModel CountingCovers
begin

text \<open>
  The invariants of class \<^verbatim>\<open>Set\<close> that join its parts: \<open>set_ok\<close> says that trie and counting
  filter hold the same keys, exactly; \<open>set_covers\<close>, what is left of it after removals, that
  the filter still reports all keys of the trie.  Insertions keep the first, removals the
  second; under either, \<^verbatim>\<open>find\<close> is exact.
\<close>

definition keys_ok :: "set_state \<Rightarrow> bytes set \<Rightarrow> bool" where
  "keys_ok s K \<longleftrightarrow> (\<forall>k \<in> K. length k = set_hs s \<and> spread (kb_bf (set_bf s)) k)"

definition set_inv :: "set_state \<Rightarrow> ptree option \<Rightarrow> bool" where
  "set_inv s ot \<longleftrightarrow> trie_hash (set_env s) \<and> trie_ok (set_env s) (set_trie s) ot \<and>
     hashSize (kb_bf (set_bf s)) = set_hs s \<and> keys_ok s (set (tree_keys ot))"

definition set_ok :: "set_state \<Rightarrow> ptree option \<Rightarrow> bool" where
  "set_ok s ot \<longleftrightarrow> set_inv s ot \<and> kvc_ok (set_bf s) (set (tree_keys ot)) \<and>
     hardMaximum (kb_bf (set_bf s)) = set_hardMaximum s \<and>
     (set_hardMaximum s \<longrightarrow> maxElements (kb_bf (set_bf s)) = set_maxSize s) \<and>
     itemCount (kb_bf (set_bf s)) = ts_size (set_trie s)"

definition set_covers :: "set_state \<Rightarrow> ptree option \<Rightarrow> bool" where
  "set_covers s ot \<longleftrightarrow> set_inv s ot \<and> kvc_covers (set_bf s) (set (tree_keys ot))"

lemma set_ok_covers: "set_ok s ot \<Longrightarrow> set_covers s ot"
  by (simp add: set_ok_def set_covers_def kvc_ok_covers)

lemma te_size_env [simp]: "te_size (set_env s) = set_hs s"
  by (simp add: set_env_def set_hs_def hash_env_def)

text \<open>The parts that an operation does not touch.\<close>

lemma set_env_upd [simp]:
  "set_env (s\<lparr>set_trie := t\<rparr>) = set_env s" "set_env (s\<lparr>set_bf := b\<rparr>) = set_env s"
  "set_env (s\<lparr>set_index := i\<rparr>) = set_env s" "set_env (s\<lparr>set_indexInUse := u\<rparr>) = set_env s"
  "set_hs (s\<lparr>set_trie := t\<rparr>) = set_hs s" "set_hs (s\<lparr>set_bf := b\<rparr>) = set_hs s"
  "set_hs (s\<lparr>set_index := i\<rparr>) = set_hs s" "set_hs (s\<lparr>set_indexInUse := u\<rparr>) = set_hs s"
  by (simp_all add: set_env_def set_hs_def)

lemma set_ok_index [simp]:
  "set_ok (s\<lparr>set_index := i\<rparr>) ot = set_ok s ot" "set_ok (s\<lparr>set_indexInUse := u\<rparr>) ot = set_ok s ot"
  "set_covers (s\<lparr>set_index := i\<rparr>) ot = set_covers s ot" "set_covers (s\<lparr>set_indexInUse := u\<rparr>) ot = set_covers s ot"
  by (simp_all add: set_ok_def set_covers_def set_inv_def keys_ok_def)

section \<open>Lookup\<close>

lemma contains_leaf:
  assumes "trie_hash env" "trie_ok env ts ot" "length k = te_size env"
  shows "contains env ts k = LEAF_NODE \<longleftrightarrow> k \<in> set (tree_keys ot)"
  using assms(2,3) trie_hash.contains_tree [OF assms(1)] trie_hash.contains_empty [OF assms(1)]
  by (cases ot) auto

lemma set_find_covers:
  assumes "set_covers s ot" "length k = set_hs s"
  shows "set_find s k = Inr (k \<in> set (tree_keys ot))"
proof -
  have fs: "fs_ok (kb_bf (set_bf s))" using assms(1) by (simp add: set_covers_def kvc_covers_def covered_def)
  have "contains (set_env s) (set_trie s) k = LEAF_NODE \<longleftrightarrow> k \<in> set (tree_keys ot)"
    using assms by (intro contains_leaf) (simp_all add: set_covers_def set_inv_def)
  moreover have "fs_contains (kb_bf (set_bf s)) k = Inr True" if "k \<in> set (tree_keys ot)"
    using kvc_covers_contains [of "set_bf s" "set (tree_keys ot)"] that assms(1) by (simp add: set_covers_def)
  ultimately show ?thesis using fs_contains_bits [OF fs, of k] by (auto simp: set_find_def)
qed

section \<open>Insertion\<close>

lemma set_insert_run:
  assumes ok: "set_ok s ot" and k: "length k = set_hs s" "spread (kb_bf (set_bf s)) k"
    and cf: "cf_step (te_hash (set_env s)) ot (opt_insert (set_hs s) k ot)"
    and size: "unat (ts_size (set_trie s)) < 2 ^ 64 - 2"
    and room: "\<not> (set_hardMaximum s \<and> set_maxSize s \<le> ts_size (set_trie s))"
  shows "\<exists>s'. set_insert k s = (Inr (k \<notin> set (tree_keys ot)), s') \<and>
    set_ok s' (opt_insert (set_hs s) k ot) \<and> set_env s' = set_env s \<and> set_hs s' = set_hs s \<and>
    filterSize (kb_bf (set_bf s')) = filterSize (kb_bf (set_bf s)) \<and>
    functionCount (kb_bf (set_bf s')) = functionCount (kb_bf (set_bf s)) \<and>
    set_hardMaximum s' = set_hardMaximum s \<and> set_maxSize s' = set_maxSize s"
proof -
  let ?env = "set_env s" and ?ot = "opt_insert (set_hs s) k ot" and ?kb = "set_bf s"
  have inv: "trie_hash ?env" "trie_ok ?env (set_trie s) ot" "hashSize (kb_bf ?kb) = set_hs s"
    "keys_ok s (set (tree_keys ot))" and kv: "kvc_ok ?kb (set (tree_keys ot))"
    and cnt: "itemCount (kb_bf ?kb) = ts_size (set_trie s)"
    and hard: "hardMaximum (kb_bf ?kb) = set_hardMaximum s" "set_hardMaximum s \<Longrightarrow> maxElements (kb_bf ?kb) = set_maxSize s"
    using ok by (simp_all add: set_ok_def set_inv_def)
  obtain t where t: "add ?env k True (set_trie s) = (Inr (k \<notin> set (tree_keys ot)), t)" "trie_ok ?env t ?ot"
    using trie_hash.add_refines [OF inv(1,2), of k] k(1) cf size by auto
  have wf: "case ot of None \<Rightarrow> True | Some t \<Rightarrow> wf_tree (set_hs s) t"
    using trie_hash.trie_ok_wf [OF inv(1,2)] unfolding te_size_env .
  have keys: "set (tree_keys ?ot) = insert k (set (tree_keys ot))"
    using set_tree_keys_step [OF wf, of "Add k"] k(1) by simp
  have len: "length (tree_keys ?ot) = (if k \<in> set (tree_keys ot) then length (tree_keys ot) else length (tree_keys ot) + 1)"
    using length_tree_keys_insert [OF wf k(1)] .
  have sizes: "unat (ts_size t) = length (tree_keys ?ot)" "unat (ts_size (set_trie s)) = length (tree_keys ot)"
    using t(2) inv(2) by (simp_all add: trie_ok_def)
  have ko: "keys_ok s (insert k (set (tree_keys ot)))" using inv(4) k by (simp add: keys_ok_def)
  show ?thesis
  proof (cases "k \<in> set (tree_keys ot)")
    case True
    then have "ts_size t = ts_size (set_trie s)" using sizes len by (simp add: word_unat_eq_iff)
    moreover have "set_insert k s = (Inr False, s\<lparr>set_trie := t\<rparr>)" unfolding set_insert_def if_not_P [OF room]
      using t(1) True by (simp add: on_trie_def bindE_def ret_def)
    ultimately show ?thesis using t(2) True ok keys kv
      by (simp add: set_ok_def set_inv_def keys_ok_def insert_absorb)
  next
    case False
    have u: "unat (ts_size (set_trie s) + 1) = unat (ts_size (set_trie s)) + 1" using size by (simp add: unat_plus_if')
    then have sz: "ts_size t = ts_size (set_trie s) + 1" using sizes len False by (simp add: word_unat_eq_iff)
    have "unat (- 1 :: u64) = 2 ^ 64 - 1" by (simp add: unsigned_minus_1_eq_mask mask_eq_exp_minus_1)
    then have lt: "ts_size (set_trie s) < - 1" using size unfolding word_less_nat_alt by linarith
    have len': "length k = hashSize (kb_bf ?kb)" using k(1) inv(3) by simp
    have room': "\<not> (hardMaximum (kb_bf ?kb) \<and> maxElements (kb_bf ?kb) \<le> itemCount (kb_bf ?kb))"
      using room hard cnt by auto
    obtain kb where kb: "kvc_add k ?kb = (Inr (), kb)" "kvc_ok kb (insert k (set (tree_keys ot)))"
      "filterSize (kb_bf kb) = filterSize (kb_bf ?kb)" "functionCount (kb_bf kb) = functionCount (kb_bf ?kb)"
      "hashSize (kb_bf kb) = hashSize (kb_bf ?kb)" "hardMaximum (kb_bf kb) = hardMaximum (kb_bf ?kb)"
      "maxElements (kb_bf kb) = maxElements (kb_bf ?kb)" "itemCount (kb_bf kb) = itemCount (kb_bf ?kb) + 1"
      using kvc_add_fresh [OF kv len' False k(2) room'] lt cnt by auto
    let ?s = "s\<lparr>set_trie := t, set_bf := kb\<rparr>"
    have run: "set_insert k s = (Inr True, ?s)" unfolding set_insert_def if_not_P [OF room]
      using t(1) kb(1) False by (simp add: on_trie_def on_kvc_def bindE_def ret_def)
    have "spread (kb_bf kb) = spread (kb_bf ?kb)" using kb(3,4) pos_list_cong [of "kb_bf kb" "kb_bf ?kb"]
      by (simp add: spread_def fun_eq_iff)
    then have "set_ok ?s ?ot" using t(2) inv kb sz cnt hard ko keys
      by (simp add: set_ok_def set_inv_def keys_ok_def)
    then show ?thesis using run False kb(3,4) by (intro exI [of _ ?s]) simp
  qed
qed

section \<open>Removal\<close>

lemma spread_shape: "same_shape kb kb' \<Longrightarrow> spread (kb_bf kb') = spread (kb_bf kb)"
  using key_pos_shape by (simp add: spread_def fun_eq_iff)

lemma set_erase_run:
  assumes ok: "set_covers s ot" and k: "length k = set_hs s"
    and cf: "cf_step (te_hash (set_env s)) ot (opt_delete k ot)"
  shows "\<exists>s'. set_erase k s = (Inr (k \<in> set (tree_keys ot)), s') \<and>
    set_covers s' (opt_delete k ot) \<and> set_env s' = set_env s \<and> set_hs s' = set_hs s"
proof -
  let ?env = "set_env s" and ?ot = "opt_delete k ot" and ?kb = "set_bf s"
  have inv: "trie_hash ?env" "trie_ok ?env (set_trie s) ot" "hashSize (kb_bf ?kb) = set_hs s"
    "keys_ok s (set (tree_keys ot))" and kv: "kvc_covers ?kb (set (tree_keys ot))"
    using ok by (simp_all add: set_covers_def set_inv_def)
  obtain t where t: "remove ?env k True (set_trie s) = (Inr (k \<in> set (tree_keys ot)), t)" "trie_ok ?env t ?ot"
    using trie_hash.remove_refines [OF inv(1,2), of k] k cf by auto
  have wf: "case ot of None \<Rightarrow> True | Some t \<Rightarrow> wf_tree (set_hs s) t"
    using trie_hash.trie_ok_wf [OF inv(1,2)] unfolding te_size_env .
  have keys: "set (tree_keys ?ot) = set (tree_keys ot) - {k}"
    using set_tree_keys_step [OF wf, of "Remove k"] k by simp
  show ?thesis
  proof (cases "k \<in> set (tree_keys ot)")
    case True
    have sp: "spread (kb_bf ?kb) k" using inv(4) True by (simp add: keys_ok_def)
    obtain r kb where kb: "kvc_remove k ?kb = (Inr r, kb)" "same_shape ?kb kb" "kvc_covers kb (set (tree_keys ot) - {k})"
      using kvc_covers_remove [OF kv True sp] by blast
    let ?s1 = "s\<lparr>set_trie := t, set_bf := kb\<rparr>"
    have "set_covers ?s1 ?ot" using t(2) inv kb keys spread_shape [OF kb(2)]
      by (auto simp: set_covers_def set_inv_def keys_ok_def same_shape_def)
    moreover have "\<exists>i. set_erase k s = (Inr True, ?s1\<lparr>set_index := i\<rparr>)" using t(1) kb(1) True
      by (cases "set_indexInUse s")
        (auto simp: set_erase_def on_trie_def on_kvc_def bindE_def ret_def modify_def intro: exI [of _ "set_index s"])
    ultimately show ?thesis using True by fastforce
  next
    case False
    then show ?thesis using t ok inv kv keys
      by (auto simp: set_erase_def on_trie_def bindE_def ret_def set_covers_def set_inv_def keys_ok_def)
  qed
qed

end
