(* ===== verification/SetRuns.thy ===== *)
theory SetRuns
  imports SetRep
begin

text \<open>
  A set made by the constructor over empty storages meets the invariant, and sequences of
  insertions and of removals keep what is needed of it.
\<close>

section \<open>A new set\<close>

definition new_files :: set_files where
  "new_files = \<lparr>sf_trie = new_storage True, sf_bf = new_storage True, sf_index = new_storage True\<rparr>"

definition env_usable :: "set_world \<Rightarrow> Configuration \<Rightarrow> bool" where
  "env_usable w config \<longleftrightarrow> 0 < sw_filterSize w \<and> unat (sw_filterSize w) + 7 < 2 ^ 35 \<and>
     (\<exists>hash. CryptoHash_init (getHashFunction config) = Inr hash \<and> unat (getHashSize hash) < 32 \<and>
        length (sw_junk_node w) = unat (getHashSize hash))"

lemma fs_init_cases:
  assumes "fs_init bad fsize functions hardmax n junk hsize f1 f2 f3 = Inr bf"
  shows "bad = None \<and> f1 \<and> f2 \<and> f3 \<and> filterSize bf = fsize \<and>
    functionCount bf = (if functions < 1 then 1 else functions) \<and> hardMaximum bf = hardmax \<and>
    maxElements bf = (if hardmax then n else junk) \<and> hashSize bf = hsize \<and> itemCount bf = 0"
  using assms by (auto simp: fs_init_def Let_def split: option.splits if_splits)

lemma functions_pos: "0 < (if (f :: u32) < 1 then 1 else f)"
  by (auto simp: not_less word_le_nat_alt word_less_nat_alt)

lemma Set_init_cases:
  assumes "Set_init w config files = Inr s" "env_usable w config"
  obtains bf files' where "trie_hash (set_env s)" "16 \<le> set_hs s"
    "open_storages w config files = Inr files'"
    "fs_ok bf" "bf_bits bf = {}" "0 < functionCount bf" "hashSize bf = set_hs s" "filterSize bf = sw_filterSize w"
    "functionCount bf = (if sw_functions w < 1 then 1 else sw_functions w)"
    "hardMaximum bf = set_hardMaximum s" "set_hardMaximum s \<longrightarrow> maxElements bf = set_maxSize s"
    "itemCount bf = 0" "set_trie s = open_trie (sf_trie files')" "set_bf s = kvc_open bf (sf_bf files')"
    "set_hardMaximum s = bc_hardMaximum (co_bf config)" "set_maxSize s = bc_maxElements (co_bf config)"
    "set_index s = sf_index files'" "\<not> set_indexInUse s"
proof -
  obtain hash where h: "CryptoHash_init (getHashFunction config) = Inr hash" "unat (getHashSize hash) < 32"
    "length (sw_junk_node w) = unat (getHashSize hash)" using assms(2) by (auto simp: env_usable_def)
  obtain files' bf where o: "open_storages w config files = Inr files'"
    "fs_init (sw_bad_rate w) (sw_filterSize w) (sw_functions w) (bc_hardMaximum (co_bf config))
       (bc_maxElements (co_bf config)) (sw_junk_max w) (unat (getHashSize hash)) (sw_file_ok w) (sw_write_ok w)
       (sw_mmap_ok w) = Inr bf"
    "set_hash s = hash" "set_junk s = sw_junk_node w" "set_trie s = open_trie (sf_trie files')"
    "set_bf s = kvc_open bf (sf_bf files')" "set_hardMaximum s = bc_hardMaximum (co_bf config)"
    "set_maxSize s = bc_maxElements (co_bf config)" "set_index s = sf_index files'" "\<not> set_indexInUse s"
    using assms(1) h(1) by (auto simp: Set_init_def Let_def isHardMaximum_def getMaxElements_def split: sum.splits)
  note f = fs_init_cases [OF o(2)]
  have sixteen: "16 \<le> unat (getHashSize hash)" using hash_env_length(2) [OF h(1)] by (simp add: hash_env_def)
  have i: "fs_init None (sw_filterSize w) (sw_functions w) (bc_hardMaximum (co_bf config))
       (bc_maxElements (co_bf config)) (sw_junk_max w) (unat (getHashSize hash)) True True True = Inr bf"
    using o(2) f by simp
  have b: "fs_ok bf \<and> bf_bits bf = {}"
    using assms(2) sixteen by (intro fs_init_ok [OF i]) (simp_all add: env_usable_def)
  have t: "trie_hash (set_env s)" unfolding set_env_def o(3,4)
    using h(2,3) by (simp add: hash_env_trie_hash [OF h(1)])
  have n: "set_hs s = unat (getHashSize hash)" by (simp add: set_hs_def o(3))
  have c: "0 < functionCount bf" using f functions_pos [of "sw_functions w"] by simp
  show thesis by (rule that [of files' bf]) (use b t n c o f sixteen in \<open>simp_all\<close>)
qed

lemma Set_init_ok:
  assumes "Set_init w config new_files = Inr s" "env_usable w config"
  shows "set_ok s None"
proof -
  obtain bf files' where i: "trie_hash (set_env s)" "open_storages w config new_files = Inr files'"
    "fs_ok bf" "bf_bits bf = {}" "0 < functionCount bf" "hashSize bf = set_hs s" 
    "hardMaximum bf = set_hardMaximum s" "set_hardMaximum s \<longrightarrow> maxElements bf = set_maxSize s"
    "itemCount bf = 0" "set_trie s = open_trie (sf_trie files')" "set_bf s = kvc_open bf (sf_bf files')"
    by (rule Set_init_cases [OF assms])
  have files: "sf_trie files' = new_storage True" "sf_bf files' = new_storage True"
    using i(2) by (auto simp: open_storages_def new_files_def split: StorageType.splits if_splits)
  have "storage_keys (new_storage True) = []" by (simp add: storage_keys_def new_storage_def)
  then have bf: "set_bf s = \<lparr>kb_bf = bf, kb_store = new_storage True\<rparr>" using i(11) files by (simp add: kvc_open_def)
  have none: "storage_get (new_storage True) k = None" for k by (simp add: storage_get_def new_storage_def)
  then have t: "set_trie s = \<lparr>ts_store = new_storage True, ts_size = 0\<rparr>" using i(10) files by (simp add: open_trie_def Let_def)
  have "kvc_ok \<lparr>kb_bf = bf, kb_store = new_storage True\<rparr> {}"
    using i(3-5) none by (auto simp: kvc_ok_def holds_at_def intro!: exI [of _ "\<lambda>_. []"])
  moreover have "trie_ok (set_env s) (set_trie s) None" using none by (simp add: t trie_ok_def)
  ultimately show ?thesis using i(1,6-9) unfolding set_ok_def set_inv_def keys_ok_def bf by (simp add: t)
qed

section \<open>Sequences\<close>

definition set_inserts :: "bytes list \<Rightarrow> unit sprog" where
  "set_inserts ks = forE ks (\<lambda>k. bindE (set_insert k) (\<lambda>_. ret ()))"

definition set_erases :: "bytes list \<Rightarrow> unit sprog" where
  "set_erases ks = forE ks (\<lambda>k. bindE (set_erase k) (\<lambda>_. ret ()))"

lemma set_insert_next:
  assumes "set_ok s ot" "length k = set_hs s" "spread (kb_bf (set_bf s)) k"
    "cf_step (te_hash (set_env s)) ot (opt_insert (set_hs s) k ot)" "\<not> set_hardMaximum s"
    "length (tree_keys ot) + 1 < 2 ^ 64 - 1"
  obtains s1 where "set_insert k s = (Inr (k \<notin> set (tree_keys ot)), s1)" "set_ok s1 (opt_insert (set_hs s) k ot)"
    "set_env s1 = set_env s" "set_hs s1 = set_hs s" "spread (kb_bf (set_bf s1)) = spread (kb_bf (set_bf s))"
    "filterSize (kb_bf (set_bf s1)) = filterSize (kb_bf (set_bf s))"
    "functionCount (kb_bf (set_bf s1)) = functionCount (kb_bf (set_bf s))" "\<not> set_hardMaximum s1"
    "length (tree_keys (opt_insert (set_hs s) k ot)) \<le> length (tree_keys ot) + 1"
    "set (tree_keys (opt_insert (set_hs s) k ot)) = insert k (set (tree_keys ot))"
proof -
  have tr: "trie_hash (set_env s)" "trie_ok (set_env s) (set_trie s) ot" using assms(1) by (simp_all add: set_ok_def set_inv_def)
  have n: "unat (ts_size (set_trie s)) = length (tree_keys ot)" using tr(2) by (simp add: trie_ok_def)
  obtain s1 where s1: "set_insert k s = (Inr (k \<notin> set (tree_keys ot)), s1)" "set_ok s1 (opt_insert (set_hs s) k ot)"
    "set_env s1 = set_env s" "set_hs s1 = set_hs s"
    "filterSize (kb_bf (set_bf s1)) = filterSize (kb_bf (set_bf s))"
    "functionCount (kb_bf (set_bf s1)) = functionCount (kb_bf (set_bf s))" "\<not> set_hardMaximum s1"
    using set_insert_run [OF assms(1-4)] assms(5,6) n by auto
  have sp: "spread (kb_bf (set_bf s1)) = spread (kb_bf (set_bf s))"
    using pos_list_cong [OF s1(5,6)] by (simp add: spread_def fun_eq_iff)
  have wf: "case ot of None \<Rightarrow> True | Some t \<Rightarrow> wf_tree (set_hs s) t"
    using trie_hash.trie_ok_wf [OF tr] unfolding te_size_env .
  have "length (tree_keys (opt_insert (set_hs s) k ot)) \<le> length (tree_keys ot) + 1"
    using length_tree_step [OF wf, of "Add k"] assms(2) by simp
  moreover have "set (tree_keys (opt_insert (set_hs s) k ot)) = insert k (set (tree_keys ot))"
    using set_tree_keys_step [OF wf, of "Add k"] assms(2) by simp
  ultimately show thesis using that s1 sp by blast
qed

lemma set_inserts_run:
  assumes "set_ok s ot" "\<forall>k \<in> set ks. length k = set_hs s \<and> spread (kb_bf (set_bf s)) k"
    "cf_run (te_hash (set_env s)) (set_hs s) ot (map Add ks)" "\<not> set_hardMaximum s"
    "length (tree_keys ot) + length ks < 2 ^ 64 - 1"
  shows "\<exists>s'. set_inserts ks s = (Inr (), s') \<and>
    set_ok s' (fold (tree_step (set_hs s)) (map Add ks) ot) \<and> set_env s' = set_env s \<and> set_hs s' = set_hs s \<and>
    filterSize (kb_bf (set_bf s')) = filterSize (kb_bf (set_bf s)) \<and>
    functionCount (kb_bf (set_bf s')) = functionCount (kb_bf (set_bf s)) \<and> \<not> set_hardMaximum s'"
  using assms
proof (induction ks arbitrary: s ot)
  case Nil
  then show ?case by (simp add: set_inserts_def ret_def)
next
  case (Cons k ks)
  obtain s1 where s1: "set_insert k s = (Inr (k \<notin> set (tree_keys ot)), s1)" "set_ok s1 (opt_insert (set_hs s) k ot)"
    "set_env s1 = set_env s" "set_hs s1 = set_hs s" "spread (kb_bf (set_bf s1)) = spread (kb_bf (set_bf s))"
    "filterSize (kb_bf (set_bf s1)) = filterSize (kb_bf (set_bf s))"
    "functionCount (kb_bf (set_bf s1)) = functionCount (kb_bf (set_bf s))" "\<not> set_hardMaximum s1"
    "length (tree_keys (opt_insert (set_hs s) k ot)) \<le> length (tree_keys ot) + 1"
    by (rule set_insert_next [OF Cons.prems(1), of k]) (use Cons.prems(2-5) in auto)
  then show ?case using Cons.IH [OF s1(2)] Cons.prems(2,3,5) by (simp add: set_inserts_def bindE_def ret_def)
qed

lemma set_erases_run:
  assumes "set_covers s ot" "\<forall>k \<in> set ks. length k = set_hs s"
    "cf_run (te_hash (set_env s)) (set_hs s) ot (map Remove ks)"
  shows "\<exists>s'. set_erases ks s = (Inr (), s') \<and>
    set_covers s' (fold (tree_step (set_hs s)) (map Remove ks) ot) \<and> set_hs s' = set_hs s"
  using assms
proof (induction ks arbitrary: s ot)
  case Nil
  then show ?case by (simp add: set_erases_def ret_def)
next
  case (Cons k ks)
  obtain s1 where s1: "set_erase k s = (Inr (k \<in> set (tree_keys ot)), s1)" "set_covers s1 (opt_delete k ot)"
    "set_env s1 = set_env s" "set_hs s1 = set_hs s"
    using set_erase_run [OF Cons.prems(1), of k] Cons.prems(2,3) by auto
  then show ?case using Cons.IH [OF s1(2)] Cons.prems(2,3) by (simp add: set_erases_def bindE_def ret_def)
qed

lemma wf_fold_steps:
  assumes "case ot of None \<Rightarrow> True | Some t \<Rightarrow> wf_tree h t" "list_all (\<lambda>x. length (op_key x) = h) xs"
  shows "(case fold (tree_step h) xs ot of None \<Rightarrow> True | Some t \<Rightarrow> wf_tree h t) \<and>
    set (tree_keys (fold (tree_step h) xs ot)) = fold set_step xs (set (tree_keys ot))"
  using assms
proof (induction xs arbitrary: ot)
  case (Cons x xs)
  have "case tree_step h x ot of None \<Rightarrow> True | Some t \<Rightarrow> wf_tree h t"
    using Cons.prems
    by (cases x; cases ot) (auto simp: wf_pt_insert split: option.splits, metis owf.simps(2) wf_pt_delete)
  then show ?case using Cons set_tree_keys_step [OF Cons.prems(1), of x] by simp
qed simp

lemma cf_run_append: "cf_run H h ot (xs @ ys) \<longleftrightarrow> cf_run H h ot xs \<and> cf_run H h (fold (tree_step h) xs ot) ys"
  by (induction xs arbitrary: ot) simp_all

lemma fold_add_remove:
  "fold set_step (map Add ks) K = K \<union> set ks" "fold set_step (map Remove ks) K = K - set ks"
  by (induction ks arbitrary: K) auto

end
