(* ===== verification/SetProps.thy ===== *)
theory SetProps
  imports SetRuns BloomProps
begin

text \<open>
  The properties of class \<^verbatim>\<open>Set\<close>, over the composition of trie, counting filter and index.
  The witnesses open a set with MD5, whose hashes have the 16 bytes that the double hashing
  needs at least.
\<close>

section \<open>A set to run\<close>

definition toy_world :: "u32 \<Rightarrow> set_world" where
  "toy_world f = \<lparr>sw_leveldb = True, sw_bdb = True, sw_env_open = True, sw_temp = ''/tmp/set_1'', sw_bad_rate = None,
     sw_filterSize = 20, sw_functions = f, sw_junk_max = 0, sw_junk_node = replicate 16 0,
     sw_file_ok = True, sw_write_ok = True, sw_mmap_ok = True\<rparr>"

definition toy_config :: "bool \<Rightarrow> u64 \<Rightarrow> Configuration" where
  "toy_config hard n = Configuration_init (BloomFilterConfig_init NORMAL n hard 0x3A83126F) ''md5''"

lemma toy_config_fields [simp]:
  "co_path (toy_config hard n) = ''''" "co_hashname (toy_config hard n) = ''md5''"
  "bc_hardMaximum (co_bf (toy_config hard n)) = hard" "bc_maxElements (co_bf (toy_config hard n)) = n"
  "sc_type (co_storage (toy_config hard n)) = BERKELEY_DB"
  by (simp_all add: toy_config_def Configuration_init_def BloomFilterConfig_init_def default_storage_def
      StorageConfig_init_def)

lemma toy_world_fields [simp]:
  "sw_bdb (toy_world f)" "sw_env_open (toy_world f)" "sw_bad_rate (toy_world f) = None" "sw_filterSize (toy_world f) = 20"
  "sw_functions (toy_world f) = f" "sw_junk_node (toy_world f) = replicate 16 0"
  "sw_file_ok (toy_world f)" "sw_write_ok (toy_world f)" "sw_mmap_ok (toy_world f)"
  by (simp_all add: toy_world_def)

lemma toy_set:
  assumes "1 \<le> f"
  obtains s where "Set_init (toy_world f) (toy_config hard n) new_files = Inr s" "env_usable (toy_world f) (toy_config hard n)"
    "set_ok s None" "set_hs s = 16" "set_hardMaximum s = hard" "set_maxSize s = n"
    "spread (kb_bf (set_bf s)) = spread (toy_file 20 f)" "\<not> set_indexInUse s"
    "set_hash s = \<lparr>ch_name = ''md5'', digit = md5_info, ch_size = 16\<rparr>"
    "filterSize (kb_bf (set_bf s)) = 20" "functionCount (kb_bf (set_bf s)) = f"
proof -
  let ?h = "\<lparr>ch_name = ''md5'', digit = md5_info, ch_size = 16\<rparr>"
  have g: "getHashFunction (toy_config hard n) = ''md5''"
    by (simp add: getHashFunction_def init_md5)
  have e: "env_usable (toy_world f) (toy_config hard n)"
    by (simp add: env_usable_def g init_md5 getHashSize_def)
  obtain s where i: "Set_init (toy_world f) (toy_config hard n) new_files = Inr s" "set_hash s = ?h"
    by (simp add: Set_init_def g init_md5 Let_def open_storages_def fs_init_def)
  obtain bf files' where b: "open_storages (toy_world f) (toy_config hard n) new_files = Inr files'"
    "functionCount bf = f" "filterSize bf = 20" "set_bf s = kvc_open bf (sf_bf files')"
    "set_hardMaximum s = hard" "set_maxSize s = n" "\<not> set_indexInUse s"
    by (rule Set_init_cases [OF i(1) e]) (use assms in \<open>simp split: if_splits\<close>)
  have "sf_bf files' = new_storage True"
    using b(1) by (auto simp: open_storages_def new_files_def split: StorageType.splits if_splits)
  then have "kb_bf (set_bf s) = bf" using b(4) by (simp add: kvc_open_def storage_keys_def new_storage_def)
  then have kb: "filterSize (kb_bf (set_bf s)) = 20" "functionCount (kb_bf (set_bf s)) = f" using b(2,3) by simp_all
  then have "spread (kb_bf (set_bf s)) = spread (toy_file 20 f)" by (intro spread_cong) simp_all
  then show thesis using that i e b kb Set_init_ok [OF i(1) e] by (simp add: set_hs_def getHashSize_def)
qed

section \<open>The set\<close>



text \<open>C36: \<^verbatim>\<open>insert\<close> of a key two of whose hash functions hit the same bit returns true, and yet
  \<^verbatim>\<open>find\<close> does not find it unless other keys happen to cover its bits.\<close>

theorem set_insert_colliding_not_found:
  assumes "set_ok s ot" "length k = set_hs s" "\<not> spread (kb_bf (set_bf s)) k" "k \<notin> set (tree_keys ot)"
    and "cf_step (te_hash (set_env s)) ot (opt_insert (set_hs s) k ot)" "unat (ts_size (set_trie s)) < 2 ^ 64 - 2"
    and "\<not> (set_hardMaximum s \<and> set_maxSize s \<le> ts_size (set_trie s))"
    and "\<not> bf_pos (kb_bf (set_bf s)) k \<subseteq> (\<Union>k \<in> set (tree_keys ot). bf_pos (kb_bf (set_bf s)) k)"
  shows "\<exists>s'. set_insert k s = (Inr True, s') \<and> set_getSize s' = set_getSize s + 1 \<and> set_find s' k = Inr False"
proof -
  let ?env = "set_env s" and ?kb = "set_bf s"
  have inv: "trie_hash ?env" "trie_ok ?env (set_trie s) ot" "hashSize (kb_bf ?kb) = set_hs s"
    and kv: "kvc_ok ?kb (set (tree_keys ot))" using assms(1) by (simp_all add: set_ok_def set_inv_def)
  obtain t where t: "add ?env k True (set_trie s) = (Inr True, t)" "trie_ok ?env t (opt_insert (set_hs s) k ot)"
    using trie_hash.add_refines [OF inv(1,2), of k] assms(2,4,5,6) by auto
  have wf: "case ot of None \<Rightarrow> True | Some t \<Rightarrow> wf_tree (set_hs s) t"
    using trie_hash.trie_ok_wf [OF inv(1,2)] unfolding te_size_env .
  have "unat (ts_size t) = unat (ts_size (set_trie s)) + 1"
    using length_tree_keys_insert [OF wf assms(2)] assms(4) t(2) inv(2) by (simp add: trie_ok_def)
  moreover have "unat (ts_size (set_trie s) + 1) = unat (ts_size (set_trie s)) + 1"
    using assms(6) by (simp add: unat_plus_if')
  ultimately have sz: "ts_size t = ts_size (set_trie s) + 1" by (simp add: word_unat_eq_iff)
  obtain kb where kb: "kvc_add k ?kb = (Inr (), kb)" "kb_bf kb = kb_bf ?kb"
    using kvc_add_colliding [OF kv _ assms(3)] assms(2) inv(3) by fastforce
  have "fs_contains (kb_bf ?kb) k = Inr False" using kv assms(8)
    by (simp add: kvc_ok_def fs_contains_bits)
  moreover have "set_insert k s = (Inr True, s\<lparr>set_trie := t, set_bf := kb\<rparr>)"
    unfolding set_insert_def if_not_P [OF assms(7)] using t(1) kb(1)
    by (simp add: on_trie_def on_kvc_def bindE_def ret_def)
  ultimately show ?thesis using kb(2) sz by (simp add: set_find_def set_getSize_def)
qed

lemma toy_positions: "bf_pos (kb_bf (set_bf s)) k \<noteq> {}" if "set_ok s ot"
proof -
  have "0 < functionCount (kb_bf (set_bf s))" using that by (simp add: set_ok_def kvc_ok_def)
  then have "0 < unat (functionCount (kb_bf (set_bf s)))" by (simp add: word_less_nat_alt)
  then show ?thesis by (auto simp: bf_pos_def lessThan_empty_iff)
qed

theorem set_insert_colliding_not_found_witness:
  "\<exists>s s'. Set_init (toy_world 2) (toy_config False 100) new_files = Inr s \<and>
    set_insert (mk_key 7 40) s = (Inr True, s') \<and> set_find s' (mk_key 7 40) = Inr False"
proof -
  obtain s where s: "Set_init (toy_world 2) (toy_config False 100) new_files = Inr s" "set_ok s None" "set_hs s = 16"
    "\<not> set_hardMaximum s" "spread (kb_bf (set_bf s)) = spread (toy_file 20 2)"
    by (rule toy_set [of 2 False 100]) simp_all
  have sp: "\<not> spread (kb_bf (set_bf s)) (mk_key 7 40)" unfolding s(5) by code_simp
  have size: "ts_size (set_trie s) = 0" using s(2) by (simp add: set_ok_def set_inv_def trie_ok_def unat_eq_0)
  have "cf_step (te_hash (set_env s)) None (opt_insert (set_hs s) (mk_key 7 40) None)"
    by (simp add: cf_step_def collision_free_def no_clash_def)
  then show ?thesis using set_insert_colliding_not_found [OF s(2) _ sp] s(1,3,4) toy_positions [OF s(2)] size by auto
qed

section \<open>The hard maximum\<close>

lemma kvc_reads_empty:
  assumes "kvc_reads kb {}" "0 < functionCount (kb_bf kb)" shows "kvc_ok kb {}"
proof -
  obtain E where E: "reads_at (kb_store kb) (hashSize (kb_bf kb)) E" "\<And>p. set (E p) = {}"
    using assms(1) by (auto simp: kvc_reads_def)
  have "storage_get (kb_store kb) (size_to_bytes p) = None" for p
    using E(1) [unfolded reads_at_def, rule_format, of p] E(2) [of p] by (auto split: option.splits)
  then have "holds_at (kb_store kb) (hashSize (kb_bf kb)) (\<lambda>_. [])" by (simp add: holds_at_def)
  then show ?thesis using assms by (auto simp: kvc_ok_def kvc_reads_def)
qed

lemma kvc_add_full:
  assumes ok: "kvc_ok kb {}" and len: "length key = hashSize (kb_bf kb)" and sp: "spread (kb_bf kb) key"
    and full: "hardMaximum (kb_bf kb)" "maxElements (kb_bf kb) \<le> itemCount (kb_bf kb)"
  shows "\<exists>store. kvc_add key kb =
    (Inl (RuntimeError ''Maximum of Elements reached, adding failed''), kb\<lparr>kb_store := store\<rparr>)"
proof -
  let ?bf = "kb_bf kb"
  have fs: "fs_ok ?bf" using ok by (simp add: kvc_ok_def)
  obtain E where E: "holds_at (kb_store kb) (hashSize ?bf) E" "\<And>p. set (E p) = {}" using ok by (auto simp: kvc_ok_def)
  have dist: "distinct (map (key_pos ?bf key) [0..<unat (functionCount ?bf)])"
    using sp by (simp add: spread_def pos_list_def)
  obtain store where "kvc_add_from key [0..<unat (functionCount ?bf)] kb = (Inr False, kb\<lparr>kb_store := store\<rparr>)"
    using kvc_add_from_run [OF kvc_ok_bloom [OF ok] len E(1) dist] by (auto simp: E(2) simp del: set_upt)
  then show ?thesis using fs_add_run [OF fs, of key] full
    by (intro exI [of _ store]) (simp add: kvc_add_def bindE_def on_bf_def)
qed



section \<open>Data\<close>

text \<open>A set whose filter has a single hash function, after its first data.\<close>

lemma spread_one: "functionCount bf = 1 \<Longrightarrow> spread bf k"
  by (simp add: spread_def pos_list_def)

lemma toy_data:
  obtains s k s' where "Set_init (toy_world 1) (toy_config False 100) new_files = Inr s" "set_ok s None"
    "k = te_hash (set_env s) data" "set_insert_data data s = (Inr True, s')" "set_ok s' (Some (Tip k))"
    "length k = set_hs s'" "set_env s' = set_env s" "set_hs s' = set_hs s" "\<not> set_hardMaximum s'"
proof -
  obtain s where s: "Set_init (toy_world 1) (toy_config False 100) new_files = Inr s" "set_ok s None"
    "set_hs s = 16" "\<not> set_hardMaximum s" "spread (kb_bf (set_bf s)) = spread (toy_file 20 1)"
    by (rule toy_set [of 1 False 100]) simp_all
  let ?k = "te_hash (set_env s) data"
  let ?s1 = "s\<lparr>set_index := storage_put (set_index s) (take (set_hs s) ?k) data\<rparr>"
  have h: "crypto_hash (te_hash (set_env s)) (te_size (set_env s))"
    using s(2) by (simp add: set_ok_def set_inv_def trie_hash_def)
  have k: "length ?k = set_hs s" using crypto_hash.length_H [OF h] by simp
  have sp: "spread (kb_bf (set_bf s)) ?k" unfolding s(5) by (simp add: spread_one toy_file_def)
  have size: "ts_size (set_trie s) = 0" using s(2) by (simp add: set_ok_def set_inv_def trie_ok_def unat_eq_0)
  obtain u where u: "set_insert ?k ?s1 = (Inr True, u)" "set_ok u (Some (Tip ?k))" "set_env u = set_env s"
    "set_hs u = set_hs s" "\<not> set_hardMaximum u"
    using set_insert_run [of ?s1 None ?k] s(2,4) k sp size
    by (auto simp: cf_step_def collision_free_def no_clash_def)
  have run: "set_insert_data data s = (Inr True, u\<lparr>set_indexInUse := True\<rparr>)"
    unfolding set_insert_data_def index_put_def using u(1) by (simp add: Let_def bindE_def modify_def ret_def)
  show thesis by (rule that [OF s(1,2) refl run]) (use u k in simp_all)
qed

text \<open>\<^verbatim>\<open>get\<close> hands out the data that was stored with a key, and its size, but always returns
  false, as it does when there is nothing.\<close>

theorem set_get_always_false:
  assumes "set_find s' k = Inr True" "k = te_hash (set_env s) data" "set_insert_data data s = (Inr True, s')"
  shows "set_get junk heap s' k = Inr (False, Some (memcpy_at (heap (length data)) 0 data), length data) \<and>
    (\<forall>t key b v n. set_get junk heap t key = Inr (b, v, n) \<longrightarrow> \<not> b)"
proof -
  have ins: "set_index (snd (set_insert x t)) = set_index t \<and> set_indexInUse (snd (set_insert x t)) = set_indexInUse t \<and>
      set_hs (snd (set_insert x t)) = set_hs t" for x t
    by (auto simp: set_insert_def on_trie_def on_kvc_def bindE_def ret_def set_hs_def split: prod.splits sum.splits)
  let ?t = "s\<lparr>set_index := storage_put (set_index s) (take (set_hs s) k) data\<rparr>"
  obtain u where u: "set_insert k ?t = (Inr True, u)" "s' = u\<lparr>set_indexInUse := True\<rparr>"
    using assms(3) unfolding set_insert_data_def index_put_def assms(2)
    by (auto simp: Let_def bindE_def modify_def ret_def split: prod.splits sum.splits if_splits)
  have "set_index u = set_index ?t" "set_hs u = set_hs s" using ins [of k ?t] u(1) by simp_all
  then have "set_index s' = storage_put (set_index s) (take (set_hs s) k) data" "set_hs s' = set_hs s" "set_indexInUse s'"
    using u(2) by simp_all
  then have "set_get junk heap s' k = Inr (False, Some (memcpy_at (heap (length data)) 0 data), length data)"
    using assms(1) by (simp add: set_get_def Let_def index_getSizeOf_def index_get_def kv.get_put)
  moreover have "\<not> b" if "set_get junk heap t key = Inr (b, v, n)" for t key b v n
    using that by (auto simp: set_get_def Let_def split: sum.splits prod.splits if_splits)
  ultimately show ?thesis by blast
qed

theorem set_get_always_false_witness:
  "\<exists>s s' k. Set_init (toy_world 1) (toy_config False 100) new_files = Inr s \<and>
    set_insert_data [1, 2, 3] s = (Inr True, s') \<and> set_find s' k = Inr True \<and>
    set_get 0 (\<lambda>n. replicate n 0) s' k = Inr (False, Some [1, 2, 3], 3)"
proof -
  obtain s k s' where s: "Set_init (toy_world 1) (toy_config False 100) new_files = Inr s"
    "k = te_hash (set_env s) [1, 2, 3]" "set_insert_data [1, 2, 3] s = (Inr True, s')"
    "set_ok s' (Some (Tip k))" "length k = set_hs s'" by (rule toy_data [of "[1, 2, 3]"])
  have f: "set_find s' k = Inr True" using set_find_covers [OF set_ok_covers [OF s(4)] s(5)] by simp
  have m: "memcpy_at (replicate (length [1, 2, 3]) 0) 0 [1, 2, 3 :: byte] = [1, 2, 3]" by code_simp
  show ?thesis
    using set_get_always_false [OF f s(2,3), of 0 "\<lambda>n. replicate n 0"] s(1,3) f m by auto
qed

text \<open>C38: inserting data that is already in the set removes it from the index: the key stays, the
  data is gone.\<close>

theorem set_insert_data_twice:
  assumes "set_ok s ot" "te_hash (set_env s) data \<in> set (tree_keys ot)"
    and "cf_step (te_hash (set_env s)) ot (opt_insert (set_hs s) (te_hash (set_env s) data) ot)"
    and "unat (ts_size (set_trie s)) < 2 ^ 64 - 2"
    and "\<not> (set_hardMaximum s \<and> set_maxSize s \<le> ts_size (set_trie s))"
  shows "\<exists>s'. set_insert_data data s = (Inr False, s') \<and> set_find s' (te_hash (set_env s) data) = Inr True \<and>
    storage_get (set_index s') (take (set_hs s) (te_hash (set_env s) data)) = None"
proof -
  let ?k = "te_hash (set_env s) data"
  let ?t = "s\<lparr>set_index := storage_put (set_index s) (take (set_hs s) ?k) data\<rparr>"
  have "keys_ok s (set (tree_keys ot))" using assms(1) by (simp add: set_ok_def set_inv_def)
  then have k: "length ?k = set_hs s" "spread (kb_bf (set_bf s)) ?k" using assms(2) by (simp_all add: keys_ok_def)
  have ins: "set_index (snd (set_insert x u)) = set_index u" for x u
    by (auto simp: set_insert_def on_trie_def on_kvc_def bindE_def ret_def split: prod.splits sum.splits)
  have same: "opt_insert (set_hs s) ?k ot = ot"
  proof -
    have wf: "case ot of None \<Rightarrow> True | Some t \<Rightarrow> wf_tree (set_hs s) t"
      using trie_hash.trie_ok_wf [of "set_env s" "set_trie s" ot] assms(1) unfolding te_size_env by (simp add: set_ok_def set_inv_def)
    then obtain t where t: "ot = Some t" "wf_tree (set_hs s) t" using assms(2) by (cases ot) auto
    then have "keys (pt_insert (set_hs s) ?k t) = keys t" using keys_pt_insert [OF t(2) k(1)] assms(2) by auto
    then show ?thesis using wf_tree_unique [OF wf_pt_insert [OF t(2) k(1)] t(2)] t(1) by simp
  qed
  obtain u where u: "set_insert ?k ?t = (Inr False, u)" "set_ok u ot" "set_hs u = set_hs s"
    using set_insert_run [of ?t ot ?k] assms k by (auto simp: same)
  have idx: "set_index u = storage_put (set_index s) (take (set_hs s) ?k) data" using ins [of ?k ?t] u(1) by simp
  obtain st where st: "index_remove (set_hs s) ?k (set_index u) = (True, st)"
    "storage_get st = (storage_get (set_index s))(take (set_hs s) ?k := None)"
    using index_remove_put [of "set_hs s" ?k data "set_index s"] by (auto simp: idx index_put_def)
  have "set_insert_data data s = (Inr False, u\<lparr>set_index := st\<rparr>)"
    unfolding set_insert_data_def index_put_def using u(1,3) st(1) by (simp add: Let_def bindE_def modify_def ret_def)
  moreover have "set_covers (u\<lparr>set_index := st\<rparr>) ot" using set_ok_covers [OF u(2)] by simp
  then have "set_find (u\<lparr>set_index := st\<rparr>) ?k = Inr True" using set_find_covers k(1) u(3) assms(2) by simp
  ultimately show ?thesis using st(2) by simp
qed

theorem set_insert_data_twice_witness:
  "\<exists>s s1 s2 k. Set_init (toy_world 1) (toy_config False 100) new_files = Inr s \<and>
    set_insert_data [1, 2, 3] s = (Inr True, s1) \<and> set_insert_data [1, 2, 3] s1 = (Inr False, s2) \<and>
    set_find s2 k = Inr True \<and> storage_get (set_index s2) k = None"
proof -
  obtain s k s1 where s: "Set_init (toy_world 1) (toy_config False 100) new_files = Inr s"
    "k = te_hash (set_env s) [1, 2, 3]" "set_insert_data [1, 2, 3] s = (Inr True, s1)"
    "set_ok s1 (Some (Tip k))" "length k = set_hs s1" "set_env s1 = set_env s" "\<not> set_hardMaximum s1"
    by (rule toy_data [of "[1, 2, 3]"])
  have size: "ts_size (set_trie s1) = 1"
    using s(4) by (simp add: set_ok_def set_inv_def trie_ok_def word_unat_eq_iff)
  obtain s2 where s2: "set_insert_data [1, 2, 3] s1 = (Inr False, s2)" "set_find s2 k = Inr True"
    "storage_get (set_index s2) (take (set_hs s1) k) = None"
    using set_insert_data_twice [OF s(4), of "[1, 2, 3]"] s(2,5-7) size
    by (auto simp: cf_step_def collision_free_def no_clash_def)
  show ?thesis using s(1,3,5) s2 by auto
qed

end
