(* ===== verification/DiffHandlers.thy ===== *)
theory DiffHandlers
  imports BitSet
begin

text \<open>
  \<^verbatim>\<open>setsync/DiffHandler.cpp\<close>: the classes that take the hashes a comparison finds.  A handler
  is a constructor per class with its members; a C callback is the list of the calls made to
  it.  Every call on one handler uses the same hash size, as all of them come from one set.
\<close>

datatype diff_handler =
    IgnoringDiffHandler
  | ListDiffHandler "(bytes \<times> bool) list"
  | OutputStreamDiffHandler string
  | C_DiffHandler "(bytes \<times> nat \<times> bool) list"
  | UniqueFilterDiffHandler "bytes list" "(bytes \<times> nat \<times> bool) list"

text \<open>Whether \<^verbatim>\<open>memcmp\<close> finds the hash among the stored ones.\<close>

fun known_hash :: "bytes \<Rightarrow> nat \<Rightarrow> bytes list \<Rightarrow> bool" where
  "known_hash hash hashsize [] = False"
| "known_hash hash hashsize (h # hs) =
     (if take hashsize h = take hashsize hash then True else known_hash hash hashsize hs)"

definition list_handle :: "bytes \<Rightarrow> nat \<Rightarrow> bool \<Rightarrow> (bytes \<times> bool) list \<Rightarrow> (bytes \<times> bool) list" where
  "list_handle hash hashsize existsLocally list =
     (if known_hash hash hashsize (map fst list) then list
      else list @ [(take hashsize hash, existsLocally)])"

definition out_handle :: "bytes \<Rightarrow> nat \<Rightarrow> bool \<Rightarrow> string \<Rightarrow> string" where
  "out_handle hash hashsize existsLocally out = out @ CryptoHashtoString hash hashsize"

definition c_handle :: "bytes \<Rightarrow> nat \<Rightarrow> bool \<Rightarrow> (bytes \<times> nat \<times> bool) list \<Rightarrow> (bytes \<times> nat \<times> bool) list" where
  "c_handle hash hashsize existsLocally calls = calls @ [(take hashsize hash, hashsize, existsLocally)]"

definition unique_handle :: "bytes \<Rightarrow> nat \<Rightarrow> bool \<Rightarrow> bytes list \<times> (bytes \<times> nat \<times> bool) list \<Rightarrow>
    bytes list \<times> (bytes \<times> nat \<times> bool) list" where
  "unique_handle hash hashsize existsLocally = (\<lambda>(list, calls).
     if known_hash hash hashsize list then (list, calls)
     else (list @ [take hashsize hash], c_handle hash hashsize existsLocally calls))"

text \<open>The virtual method, and the call operator of the base class.\<close>

fun handle :: "bytes \<Rightarrow> nat \<Rightarrow> bool \<Rightarrow> diff_handler \<Rightarrow> diff_handler" where
  "handle hash hashsize existsLocally IgnoringDiffHandler = IgnoringDiffHandler"
| "handle hash hashsize existsLocally (ListDiffHandler list) =
     ListDiffHandler (list_handle hash hashsize existsLocally list)"
| "handle hash hashsize existsLocally (OutputStreamDiffHandler out) =
     OutputStreamDiffHandler (out_handle hash hashsize existsLocally out)"
| "handle hash hashsize existsLocally (C_DiffHandler calls) =
     C_DiffHandler (c_handle hash hashsize existsLocally calls)"
| "handle hash hashsize existsLocally (UniqueFilterDiffHandler list calls) =
     (case unique_handle hash hashsize existsLocally (list, calls) of
        (list, calls) \<Rightarrow> UniqueFilterDiffHandler list calls)"

definition handler_call :: "bytes \<Rightarrow> nat \<Rightarrow> bool \<Rightarrow> diff_handler \<Rightarrow> diff_handler" where
  "handler_call hash hashsize existsLocally h = handle hash hashsize existsLocally h"

text \<open>Access to the list.\<close>

definition list_at :: "(bytes \<times> bool) list \<Rightarrow> u32 \<Rightarrow> bytes option \<times> bool" where
  "list_at list index =
     (if length list \<le> unat index then (None, False)
      else (case list ! unat index of (h, b) \<Rightarrow> (Some h, b)))"

definition list_size :: "(bytes \<times> bool) list \<Rightarrow> nat" where
  "list_size list = length list"

definition list_clear :: "(bytes \<times> bool) list \<Rightarrow> (bytes \<times> bool) list" where
  "list_clear list = []"

section \<open>Lemmas\<close>

lemma known_hash_iff: "known_hash hash n hs \<longleftrightarrow> take n hash \<in> take n ` set hs"
  by (induction hs) auto

lemma known_hash_same:
  "length hash = n \<Longrightarrow> list_all (\<lambda>h. length h = n) hs \<Longrightarrow> known_hash hash n hs \<longleftrightarrow> hash \<in> set hs"
  by (induction hs) auto

text \<open>A sequence of calls: each hash is kept once, with the flag of its first call.\<close>

fun firsts :: "(bytes \<times> bool) list \<Rightarrow> (bytes \<times> bool) list" where
  "firsts [] = []"
| "firsts ((h, b) # calls) = (h, b) # filter (\<lambda>c. fst c \<noteq> h) (firsts calls)"

lemma firsts_snoc:
  "firsts (calls @ [(h, b)]) = (if h \<in> fst ` set calls then firsts calls else firsts calls @ [(h, b)])"
  by (induction calls rule: firsts.induct) auto

lemma fst_firsts: "fst ` set (firsts calls) = fst ` set calls"
  by (induction calls rule: firsts.induct) auto

lemma distinct_firsts: "distinct (map fst (firsts calls))"
  by (induction calls rule: firsts.induct) (auto simp: distinct_map_filter)

lemma list_handle_firsts:
  "list_all (\<lambda>c. length (fst c) = n) calls \<Longrightarrow>
   fold (\<lambda>(h, b). list_handle h n b) calls [] = firsts calls"
proof (induction calls rule: rev_induct)
  case (snoc c calls)
  obtain h b where c: "c = (h, b)" by fastforce
  have "list_all (\<lambda>h. length h = n) (map fst (firsts calls))"
    using snoc.prems fst_firsts [of calls] by (fastforce simp: list_all_iff)
  then have "known_hash h n (map fst (firsts calls)) \<longleftrightarrow> h \<in> fst ` set calls"
    using known_hash_same [of h n] snoc.prems c fst_firsts [of calls] by simp
  then show ?case using snoc c by (simp add: list_handle_def firsts_snoc)
qed simp

lemma unique_handle_firsts:
  "list_all (\<lambda>c. length (fst c) = n) calls \<Longrightarrow>
   fold (\<lambda>(h, b). unique_handle h n b) calls ([], []) =
     (map fst (firsts calls), map (\<lambda>(h, b). (h, n, b)) (firsts calls))"
proof (induction calls rule: rev_induct)
  case (snoc c calls)
  obtain h b where c: "c = (h, b)" by fastforce
  have "list_all (\<lambda>h. length h = n) (map fst (firsts calls))"
    using snoc.prems fst_firsts [of calls] by (fastforce simp: list_all_iff)
  then have "known_hash h n (map fst (firsts calls)) \<longleftrightarrow> h \<in> fst ` set calls"
    using known_hash_same [of h n] snoc.prems c fst_firsts [of calls] by simp
  then show ?case using snoc c by (simp add: unique_handle_def c_handle_def firsts_snoc)
qed simp

end
