(* ===== verification/SyncModel.thy ===== *)
theory SyncModel
  imports SubTrie SetModel DiffHandlers
begin

text \<open>
  Class \<^verbatim>\<open>SynchronizationProcess\<close> of \<^verbatim>\<open>setsync/Set.cpp\<close>.  A process reads its set, which is the
  first argument of the operations, and keeps queues of hashes: those it sent and has no
  answer for, the roots of the subtries it still has to send, and the answers it owes.  A
  queue is a list with its front first, the stack one with its top first.  The counters of
  bytes and the positions in the filter stay below the range of \<^verbatim>\<open>size_t\<close>.
\<close>

datatype status = START | BF | TRIE | EQUAL

record sync =
  sy_stat :: status
  sy_bfOut_pos :: nat
  sy_bfIn_pos :: nat
  sy_bfOutIsFinished :: bool
  sy_sentBytes :: nat
  sy_receivedBytes :: nat
  sy_sentHashes :: "bytes list"
  sy_pendingSubtries :: "bytes list"
  sy_pendingAcks :: "bool list"

definition createSyncProcess :: sync where
  "createSyncProcess = \<lparr>sy_stat = START, sy_bfOut_pos = 0, sy_bfIn_pos = 0, sy_bfOutIsFinished = False,
     sy_sentBytes = 0, sy_receivedBytes = 0, sy_sentHashes = [], sy_pendingSubtries = [], sy_pendingAcks = []\<rparr>"

text \<open>The rate times the delay is computed in floating point, so its result is an argument.\<close>

definition calcOutputBufferSize :: "set_state \<Rightarrow> nat \<Rightarrow> nat \<Rightarrow> nat" where
  "calcOutputBufferSize s RTT product =
     (if RTT = 0 then getMinSyncBuffer s else max product (getMinSyncBuffer s))"

section \<open>Bloom filter\<close>

definition isBloomFilterOutputAvail :: "sync \<Rightarrow> bool" where
  "isBloomFilterOutputAvail sy \<longleftrightarrow> \<not> sy_bfOutIsFinished sy"

definition readNextBloomFilterChunk :: "set_state \<Rightarrow> nat \<Rightarrow> sync \<Rightarrow> bytes \<times> sync" where
  "readNextBloomFilterChunk s len sy =
     (let chunk = kvc_getChunk (set_bf s) len (sy_bfOut_pos sy); written = length chunk;
          sy = sy\<lparr>sy_bfOut_pos := sy_bfOut_pos sy + written\<rparr>;
          sy = (if written < len then sy\<lparr>sy_bfOutIsFinished := True\<rparr> else sy)
      in (chunk, sy\<lparr>sy_sentBytes := sy_sentBytes sy + written\<rparr>))"

definition processBloomFilterChunk :: "set_state \<Rightarrow> bytes \<Rightarrow> nat \<Rightarrow> (sync \<times> diff_handler, unit) prog" where
  "processBloomFilterChunk s buf len = (\<lambda>(sy, handler).
     case kvc_diff (set_bf s) buf len (sy_bfIn_pos sy) of
       Inl e \<Rightarrow> (Inl e, (sy, handler))
     | Inr hashes \<Rightarrow>
         (Inr (), (sy\<lparr>sy_bfIn_pos := sy_bfIn_pos sy + len, sy_receivedBytes := sy_receivedBytes sy + len\<rparr>,
           fold (\<lambda>h. handler_call h (set_hs s) True) hashes handler)))"

section \<open>Root hashes\<close>

definition getRootHash :: "set_state \<Rightarrow> bytes option" where
  "getRootHash s = getRoot (set_env s) (set_trie s)"

definition getRootHashForSending :: "set_state \<Rightarrow> sync \<Rightarrow> bytes option \<times> sync" where
  "getRootHashForSending s sy = (getRootHash s, sy\<lparr>sy_sentBytes := sy_sentBytes sy + set_hs s\<rparr>)"

definition isEqual :: "set_state \<Rightarrow> bytes \<Rightarrow> sync \<Rightarrow> bool \<times> sync" where
  "isEqual s hash sy =
     (if sy_stat sy = EQUAL then (True, sy)
      else case getRoot (set_env s) (set_trie s) of
        None \<Rightarrow> (False, sy)
      | Some localroothash \<Rightarrow>
          if localroothash = take (set_hs s) hash then (True, sy\<lparr>sy_stat := EQUAL\<rparr>) else (False, sy))"

section \<open>Subtries\<close>

text \<open>
  An exception of \<^verbatim>\<open>KeyValueTrie::getSubTrie\<close>, whatever it is, drops the topmost subtrie and the
  next one is tried.  The model of a recursion out of fuel is not an exception.
\<close>

function sync_getSubTrie :: "set_state \<Rightarrow> bytes \<Rightarrow> nat \<Rightarrow> sync \<Rightarrow> exn + (nat \<times> bytes \<times> sync)" where
  "sync_getSubTrie s buf buffersize sy =
     (case sy_pendingSubtries sy of
        [] \<Rightarrow> Inr (0, buf, sy)
      | front # rest \<Rightarrow>
          (case getSubTrie (set_env s) (set_trie s) front buf buffersize of
             Inl e \<Rightarrow> if e = OutOfFuel then Inl e
               else sync_getSubTrie s buf buffersize (sy\<lparr>sy_pendingSubtries := rest\<rparr>)
           | Inr (subtriesize, buf) \<Rightarrow>
               let sy = sy\<lparr>sy_pendingSubtries := rest\<rparr>; hashsize = set_hs s; entries = subtriesize div hashsize
               in Inr (subtriesize, buf,
                    sy\<lparr>sy_sentHashes := sy_sentHashes sy @
                         map (\<lambda>i. slice (i * hashsize) hashsize buf) [0..<entries],
                       sy_sentBytes := sy_sentBytes sy + subtriesize\<rparr>)))"
  by pat_completeness auto
termination
  by (relation "measure (\<lambda>(s, buf, n, sy). length (sy_pendingSubtries sy))") simp_all

declare sync_getSubTrie.simps [simp del]

definition isSubtrieUnacked :: "sync \<Rightarrow> bool" where
  "isSubtrieUnacked sy \<longleftrightarrow> 0 < length (sy_sentHashes sy)"

definition isSubtrieOutputAvailable :: "set_state \<Rightarrow> sync \<Rightarrow> bool \<times> sync" where
  "isSubtrieOutputAvailable s sy =
     (if sy_stat sy = START
      then case getRootHash s of
          Some root \<Rightarrow>
            let sy = sy\<lparr>sy_stat := TRIE, sy_pendingSubtries := root # sy_pendingSubtries sy\<rparr>
            in (0 < length (sy_pendingSubtries sy), sy)
        | None \<Rightarrow> (False, sy)
      else (0 < length (sy_pendingSubtries sy), sy))"

definition processSubTrie :: "set_state \<Rightarrow> bytes \<Rightarrow> nat \<Rightarrow> sync \<Rightarrow> nat \<times> sync" where
  "processSubTrie s buf len sy =
     (let hashsize = set_hs s; entries = len div hashsize;
          acks = map (\<lambda>i. contains (set_env s) (set_trie s) (slice (i * hashsize) hashsize buf) = NOT_FOUND)
            [0..<entries];
          sy = sy\<lparr>sy_pendingAcks := sy_pendingAcks sy @ acks, sy_receivedBytes := sy_receivedBytes sy + len\<rparr>
      in ((length (sy_pendingAcks sy) + 7) div 8, sy))"

section \<open>Answers\<close>

definition isAckOutputAvailable :: "sync \<Rightarrow> bool" where
  "isAckOutputAvailable sy \<longleftrightarrow> 0 < length (sy_pendingAcks sy)"

text \<open>The loop that takes answers off the queue and sets their bits.\<close>

fun put_acks :: "nat \<Rightarrow> bool list \<Rightarrow> bytes \<Rightarrow> bytes" where
  "put_acks i [] buf = buf"
| "put_acks i (b # bs) buf = put_acks (Suc i) bs (if b then BITSET buf i else buf)"

definition readSomeTrieAcks :: "bytes \<Rightarrow> nat \<Rightarrow> nat \<Rightarrow> sync \<Rightarrow> nat \<times> bytes \<times> nat \<times> sync" where
  "readSomeTrieAcks buf len numberOfAcks sy =
     (if 0 < length (sy_pendingAcks sy) then
        let buf = memcpy_at buf 0 (replicate len 0);
            number = min (len * 8) (length (sy_pendingAcks sy));
            buf = put_acks 0 (take number (sy_pendingAcks sy)) buf;
            resultsize = (number + 7) div 8
        in (resultsize, buf, number,
            sy\<lparr>sy_pendingAcks := drop number (sy_pendingAcks sy), sy_sentBytes := sy_sentBytes sy + resultsize\<rparr>)
      else (0, buf, numberOfAcks, sy))"

text \<open>One turn of the loop of \<^verbatim>\<open>processAcks\<close>.\<close>

definition process_ack :: "set_state \<Rightarrow> bytes \<Rightarrow> nat \<Rightarrow> sync \<times> diff_handler \<Rightarrow> sync \<times> diff_handler" where
  "process_ack s buf i = (\<lambda>(sy, handler).
     let front = hd (sy_sentHashes sy);
         (sy, handler) =
           (if BITTEST buf i then
              case contains (set_env s) (set_trie s) front of
                LEAF_NODE \<Rightarrow> (sy, handle front (set_hs s) True handler)
              | INNER_NODE \<Rightarrow> (sy\<lparr>sy_pendingSubtries := front # sy_pendingSubtries sy\<rparr>, handler)
              | _ \<Rightarrow>
                  (case getRootHash s of
                     Some newroot \<Rightarrow> (sy\<lparr>sy_pendingSubtries := [newroot]\<rparr>, handler)
                   | None \<Rightarrow> (sy\<lparr>sy_pendingSubtries := []\<rparr>, handler))
            else (sy, handler))
     in (sy\<lparr>sy_sentHashes := tl (sy_sentHashes sy)\<rparr>, handler))"

definition processAcks :: "set_state \<Rightarrow> bytes \<Rightarrow> nat \<Rightarrow> nat \<Rightarrow> (sync \<times> diff_handler, unit) prog" where
  "processAcks s buf len numberOfAcks = (\<lambda>(sy, handler).
     if len < (numberOfAcks + 7) div 8 then (Inl (CString ''illegal input length''), (sy, handler))
     else if length (sy_sentHashes sy) < numberOfAcks then (Inl (CString ''illegal input length''), (sy, handler))
     else (case fold (process_ack s buf) [0..<numberOfAcks] (sy, handler) of
             (sy, handler) \<Rightarrow>
               (Inr (), (sy\<lparr>sy_receivedBytes := sy_receivedBytes sy + (numberOfAcks + 7) div 8\<rparr>, handler))))"

section \<open>State\<close>

definition sync_done :: "sync \<Rightarrow> bool" where
  "sync_done sy =
     (if sy_stat sy = EQUAL then True
      else if 0 < length (sy_pendingAcks sy) then False
      else if 0 < length (sy_pendingSubtries sy) then False
      else if 0 < length (sy_sentHashes sy) then False
      else if sy_stat sy = START then False
      else True)"

definition getSentBytes :: "sync \<Rightarrow> nat" where
  "getSentBytes sy = sy_sentBytes sy"

definition getReceivedBytes :: "sync \<Rightarrow> nat" where
  "getReceivedBytes sy = sy_receivedBytes sy"

definition getMinTrieBuffer :: "set_state \<Rightarrow> nat" where
  "getMinTrieBuffer s = getMinSyncTrieBuffer s"

definition getMinBFBuffer :: "set_state \<Rightarrow> nat" where
  "getMinBFBuffer s = getMinSyncBFBuffer s"

definition getMinBuffer :: "set_state \<Rightarrow> nat" where
  "getMinBuffer s = getMinSyncBuffer s"

end
