(* ===== verification/CInterface.thy ===== *)
theory CInterface
  imports SyncModel TrieDot
begin

text \<open>
  The C functions of \<^verbatim>\<open>setsync/set.h\<close>, at the end of \<^verbatim>\<open>setsync/Set.cpp\<close>, and the program
  \<^verbatim>\<open>main.c\<close> that uses them.  The two \<^verbatim>\<open>struct\<close>s hold pointers: what \<^verbatim>\<open>set\<close> and \<^verbatim>\<open>process\<close> point to
  is \<open>None\<close> when it is not an object, and \<^verbatim>\<open>error\<close> is one of the four things such a pointer can
  be.  Using a pointer that is not initialised, or to memory that was freed, is undefined
  behaviour.  An exception that leaves a function without a handler is its result.
\<close>

datatype error_slot = Uninit | Null | Msg string | Freed

record SET =
  c_set :: "set_state option"
  c_error :: error_slot

record SET_SYNC_HANDLE =
  h_process :: "sync option"
  h_error :: error_slot

section \<open>Errors\<close>

text \<open>
  What \<^verbatim>\<open>catch (std::exception& e)\<close> gets from \<^verbatim>\<open>e.what()\<close>; \<open>None\<close> for a value that is no
  \<^verbatim>\<open>std::exception\<close>.  In the classes of the library \<^verbatim>\<open>what()\<close> is not \<^verbatim>\<open>const\<close> and overrides
  nothing, so the text is the one of the base class in the GNU library.
\<close>

fun what :: "exn \<Rightarrow> string option" where
  "what (RuntimeError m) = Some (c_str m)"
| "what (TrieException m) = Some ''std::exception''"
| "what (DbTrieException m) = Some ''std::exception''"
| "what TrieNodeNotFoundException = Some ''std::exception''"
| "what TrieRootNotFoundException = Some ''std::exception''"
| "what (StorageException m) = Some ''std::exception''"
| "what IosFailure = Some ''basic_ios::clear''"
| "what _ = None"

definition error_text :: "exn \<Rightarrow> string" where
  "error_text e = (case what e of Some m \<Rightarrow> m | None \<Rightarrow> ''unknown error'')"

definition is_exception :: "exn \<Rightarrow> bool" where
  "is_exception e \<longleftrightarrow> e \<noteq> UndefinedBehaviour \<and> e \<noteq> OutOfFuel"

text \<open>The two handlers that end most functions: the message goes to a new string, or over the old one.\<close>

definition record_error :: "exn \<Rightarrow> error_slot \<Rightarrow> exn + error_slot" where
  "record_error e slot =
     (case slot of
        Null \<Rightarrow> Inr (Msg (error_text e))
      | Msg _ \<Rightarrow> Inr (Msg (error_text e))
      | Uninit \<Rightarrow> Inl UndefinedBehaviour
      | Freed \<Rightarrow> Inl UndefinedBehaviour)"

definition catch_all :: "('s \<Rightarrow> error_slot) \<Rightarrow> (error_slot \<Rightarrow> 's \<Rightarrow> 's) \<Rightarrow> 'a \<Rightarrow> ('s, 'a) prog \<Rightarrow> ('s, 'a) prog" where
  "catch_all slot_of with_slot code m = (\<lambda>s.
     case m s of
       (Inr x, s) \<Rightarrow> (Inr x, s)
     | (Inl e, s) \<Rightarrow>
         if is_exception e
         then case record_error e (slot_of s) of
             Inl u \<Rightarrow> (Inl u, s)
           | Inr slot \<Rightarrow> (Inr code, with_slot slot s)
         else (Inl e, s))"

abbreviation set_catch :: "'a \<Rightarrow> (SET, 'a) prog \<Rightarrow> (SET, 'a) prog" where
  "set_catch \<equiv> catch_all c_error (\<lambda>slot s. s\<lparr>c_error := slot\<rparr>)"

abbreviation handle_catch :: "'a \<Rightarrow> (SET_SYNC_HANDLE, 'a) prog \<Rightarrow> (SET_SYNC_HANDLE, 'a) prog" where
  "handle_catch \<equiv> catch_all h_error (\<lambda>slot h. h\<lparr>h_error := slot\<rparr>)"

text \<open>The calls on the object behind the pointer; a \<^verbatim>\<open>bool\<close> is returned as 1 or 0.\<close>

definition on_set :: "'a sprog \<Rightarrow> (SET, 'a) prog" where
  "on_set m = (\<lambda>s. case c_set s of
      None \<Rightarrow> (Inl UndefinedBehaviour, s)
    | Some x \<Rightarrow> (case m x of (r, x) \<Rightarrow> (r, s\<lparr>c_set := Some x\<rparr>)))"

definition ask_set :: "(set_state \<Rightarrow> exn + 'a) \<Rightarrow> (SET, 'a) prog" where
  "ask_set f = (\<lambda>s. case c_set s of
      None \<Rightarrow> (Inl UndefinedBehaviour, s)
    | Some x \<Rightarrow> (f x, s))"

definition int_of_bool :: "bool \<Rightarrow> int" where
  "int_of_bool b = (if b then 1 else 0)"

section \<open>Creating and freeing a set\<close>

definition c_set_init :: "set_world \<Rightarrow> BloomFilterType \<Rightarrow> set_files \<Rightarrow> SET_CONFIG \<Rightarrow> (SET, int) prog" where
  "c_set_init w junk files config = (\<lambda>s.
     let s = s\<lparr>c_error := Null\<rparr>
     in set_catch (- 1)
          (bindE (liftE (Set_init w (Configuration_of_C junk (sw_leveldb w) (sw_bdb w) config) files))
            (\<lambda>cppset. bindE (modify (\<lambda>s. s\<lparr>c_set := Some cppset\<rparr>)) (\<lambda>_. ret 0))) s)"

definition c_set_init_with_path ::
    "set_world \<Rightarrow> BloomFilterType \<Rightarrow> set_files \<Rightarrow> SET_CONFIG \<Rightarrow> string \<Rightarrow> (SET, int) prog" where
  "c_set_init_with_path w junk files config path =
     set_catch (- 1)
       (bindE (liftE (Set_init w (setPath path (Configuration_of_C junk (sw_leveldb w) (sw_bdb w) config)) files))
         (\<lambda>cppset. bindE (modify (\<lambda>s. s\<lparr>c_set := Some cppset\<rparr>)) (\<lambda>_. ret 0)))"

text \<open>
  The destructor throws nothing, so neither handler is reached.  The message is deleted, but
  the pointer to it stays.  The result carries what the storages are left with.
\<close>

definition c_set_free :: "(SET, int \<times> set_files) prog" where
  "c_set_free = (\<lambda>s. case c_set s of
      None \<Rightarrow> (Inl UndefinedBehaviour, s)
    | Some cppset \<Rightarrow>
        let s = s\<lparr>c_set := None\<rparr>
        in (case c_error s of
              Null \<Rightarrow> (Inr (0, Set_free cppset), s)
            | Msg _ \<Rightarrow> (Inr (0, Set_free cppset), s\<lparr>c_error := Freed\<rparr>)
            | _ \<Rightarrow> (Inl UndefinedBehaviour, s)))"

section \<open>Capacity, lookup and modifiers\<close>

definition c_set_empty :: "(SET, int) prog" where
  "c_set_empty = ask_set (\<lambda>x. Inr (if set_isEmpty x then 1 else 0))"

definition c_set_size :: "(SET, u64) prog" where
  "c_set_size = ask_set (\<lambda>x. Inr (set_getSize x))"

definition c_set_max_size :: "(SET, u64) prog" where
  "c_set_max_size = ask_set (\<lambda>x. Inr (set_getMaximumSize x))"

definition c_set_find :: "bytes \<Rightarrow> (SET, int) prog" where
  "c_set_find key = ask_set (\<lambda>x. map_sum id int_of_bool (set_find x key))"

definition c_set_find_string :: "string \<Rightarrow> (SET, int) prog" where
  "c_set_find_string str = ask_set (\<lambda>x. map_sum id int_of_bool (set_find_str x str))"

definition c_set_get_data :: "nat \<Rightarrow> (nat \<Rightarrow> bytes) \<Rightarrow> bytes \<Rightarrow> (SET, int \<times> bytes option \<times> nat) prog" where
  "c_set_get_data junk heap key = ask_set (\<lambda>x. map_sum id (apfst int_of_bool) (set_get junk heap x key))"

definition c_set_insert :: "bytes \<Rightarrow> (SET, int) prog" where
  "c_set_insert key = bindE (on_set (set_insert key)) (\<lambda>b. ret (int_of_bool b))"

definition c_set_insert_string :: "string \<Rightarrow> (SET, int) prog" where
  "c_set_insert_string str = bindE (on_set (set_insert_str str)) (\<lambda>b. ret (int_of_bool b))"

definition c_set_insert_data :: "bytes \<Rightarrow> (SET, int) prog" where
  "c_set_insert_data data = bindE (on_set (set_insert_data data)) (\<lambda>b. ret (int_of_bool b))"

definition c_set_erase :: "bytes \<Rightarrow> (SET, int) prog" where
  "c_set_erase key = bindE (on_set (set_erase key)) (\<lambda>b. ret (int_of_bool b))"

definition c_set_erase_string :: "string \<Rightarrow> (SET, int) prog" where
  "c_set_erase_string str = bindE (on_set (set_erase_str str)) (\<lambda>b. ret (int_of_bool b))"

definition c_set_clear :: "(SET, int) prog" where
  "c_set_clear = set_catch (- 1) (bindE (on_set (modify set_clear)) (\<lambda>_. ret 0))"

section \<open>Synchronisation\<close>

text \<open>
  A process keeps a pointer to its set.  The functions take the \<^verbatim>\<open>SET\<close> it was made from as
  their first argument, which they only read.  The buffers they write are part of the result,
  and \<open>buf\<close> is what a buffer held before.
\<close>

definition c_set_sync_init_handle :: "(SET \<times> SET_SYNC_HANDLE, int) prog" where
  "c_set_sync_init_handle = (\<lambda>(s, h).
     let h = h\<lparr>h_error := Null\<rparr>
     in case c_set s of
          None \<Rightarrow> (Inl UndefinedBehaviour, (s, h))
        | Some _ \<Rightarrow> (Inr 0, (s, h\<lparr>h_process := Some createSyncProcess\<rparr>)))"

definition ask_process :: "(sync \<Rightarrow> 'a) \<Rightarrow> (SET_SYNC_HANDLE, 'a) prog" where
  "ask_process f = (\<lambda>h. case h_process h of
      None \<Rightarrow> (Inl UndefinedBehaviour, h)
    | Some sy \<Rightarrow> (Inr (f sy), h))"

definition on_process :: "SET \<Rightarrow> (set_state \<Rightarrow> (sync, 'a) prog) \<Rightarrow> (SET_SYNC_HANDLE, 'a) prog" where
  "on_process s m = (\<lambda>h. case h_process h of
      None \<Rightarrow> (Inl UndefinedBehaviour, h)
    | Some sy \<Rightarrow> (case c_set s of
          None \<Rightarrow> (Inl UndefinedBehaviour, h)
        | Some x \<Rightarrow> (case m x sy of (r, sy) \<Rightarrow> (r, h\<lparr>h_process := Some sy\<rparr>))))"

definition c_set_sync_get_root_hash :: "SET \<Rightarrow> bytes \<Rightarrow> (SET_SYNC_HANDLE, int \<times> bytes) prog" where
  "c_set_sync_get_root_hash s buf = handle_catch (- 1, buf)
     (on_process s (\<lambda>x. ret (case getRootHash x of
        Some hash \<Rightarrow> (0, memcpy_at buf 0 hash)
      | None \<Rightarrow> (- 1, buf))))"

definition c_set_sync_is_equal_to_hash :: "SET \<Rightarrow> bytes \<Rightarrow> (SET_SYNC_HANDLE, int) prog" where
  "c_set_sync_is_equal_to_hash s remotehash = handle_catch (- 1)
     (on_process s (\<lambda>x sy. case isEqual x remotehash sy of (b, sy) \<Rightarrow> (Inr (if b then 1 else 0), sy)))"

definition c_set_sync_bf_output_avail :: "(SET_SYNC_HANDLE, int) prog" where
  "c_set_sync_bf_output_avail = handle_catch (- 1)
     (ask_process (\<lambda>sy. if isBloomFilterOutputAvail sy then 1 else 0))"

definition c_set_sync_bf_read_next_chunk :: "SET \<Rightarrow> bytes \<Rightarrow> nat \<Rightarrow> (SET_SYNC_HANDLE, nat \<times> bytes) prog" where
  "c_set_sync_bf_read_next_chunk s buf buffersize = handle_catch (0, buf)
     (on_process s (\<lambda>x sy. case readNextBloomFilterChunk x buffersize sy of
        (chunk, sy) \<Rightarrow> (Inr (length chunk, memcpy_at buf 0 chunk), sy)))"

text \<open>A callback is the list of the calls it has had.\<close>

type_synonym calls = "(bytes \<times> nat \<times> bool) list"

fun handler_calls :: "diff_handler \<Rightarrow> calls" where
  "handler_calls (C_DiffHandler calls) = calls"
| "handler_calls _ = []"

definition with_callback :: "(set_state \<Rightarrow> (sync \<times> diff_handler, unit) prog) \<Rightarrow> SET \<Rightarrow>
    (SET_SYNC_HANDLE \<times> calls, int) prog" where
  "with_callback m s = (\<lambda>(h, calls).
     case h_process h of
       None \<Rightarrow> (Inl UndefinedBehaviour, (h, calls))
     | Some sy \<Rightarrow> (case c_set s of
           None \<Rightarrow> (Inl UndefinedBehaviour, (h, calls))
         | Some x \<Rightarrow> (case m x (sy, C_DiffHandler calls) of
             (r, (sy, handler)) \<Rightarrow> (map_sum id (\<lambda>_. 0) r, (h\<lparr>h_process := Some sy\<rparr>, handler_calls handler)))))"

abbreviation callback_catch :: "(SET_SYNC_HANDLE \<times> calls, int) prog \<Rightarrow> (SET_SYNC_HANDLE \<times> calls, int) prog" where
  "callback_catch \<equiv> catch_all (\<lambda>(h, _). h_error h) (\<lambda>slot (h, calls). (h\<lparr>h_error := slot\<rparr>, calls)) (- 1)"

definition c_set_sync_bf_process_chunk :: "SET \<Rightarrow> bytes \<Rightarrow> nat \<Rightarrow> (SET_SYNC_HANDLE \<times> calls, int) prog" where
  "c_set_sync_bf_process_chunk s inbuffer inlength =
     callback_catch (with_callback (\<lambda>x. processBloomFilterChunk x inbuffer inlength) s)"

definition c_set_sync_trie_get_subtrie :: "SET \<Rightarrow> bytes \<Rightarrow> nat \<Rightarrow> (SET_SYNC_HANDLE, int \<times> bytes) prog" where
  "c_set_sync_trie_get_subtrie s buf len = handle_catch (- 1, buf)
     (on_process s (\<lambda>x sy. case isSubtrieOutputAvailable x sy of (avail, sy) \<Rightarrow>
        if avail then
          (case sync_getSubTrie x buf len sy of
             Inl e \<Rightarrow> (Inl e, sy)
           | Inr (subtriesize, buf, sy) \<Rightarrow> (Inr (int subtriesize, buf), sy))
        else (Inr (0, buf), sy)))"

definition c_set_sync_trie_process_subtrie :: "SET \<Rightarrow> bytes \<Rightarrow> nat \<Rightarrow> (SET_SYNC_HANDLE, int) prog" where
  "c_set_sync_trie_process_subtrie s buf len = handle_catch (- 1)
     (on_process s (\<lambda>x sy. case processSubTrie x buf len sy of (n, sy) \<Rightarrow> (Inr (int n), sy)))"

definition c_set_sync_trie_subtrie_output_avail :: "SET \<Rightarrow> (SET_SYNC_HANDLE, int) prog" where
  "c_set_sync_trie_subtrie_output_avail s = handle_catch (- 1)
     (on_process s (\<lambda>x sy. case isSubtrieOutputAvailable x sy of (b, sy) \<Rightarrow> (Inr (if b then 1 else 0), sy)))"

definition c_set_sync_trie_acks_avail :: "(SET_SYNC_HANDLE, int) prog" where
  "c_set_sync_trie_acks_avail = handle_catch (- 1)
     (ask_process (\<lambda>sy. if isAckOutputAvailable sy then 1 else 0))"

definition c_set_sync_trie_read_acks :: "bytes \<Rightarrow> nat \<Rightarrow> nat \<Rightarrow> (SET_SYNC_HANDLE, int \<times> bytes \<times> nat) prog" where
  "c_set_sync_trie_read_acks buf len numberOfAcks = handle_catch (- 1, buf, numberOfAcks)
     (\<lambda>h. case h_process h of
        None \<Rightarrow> (Inl UndefinedBehaviour, h)
      | Some sy \<Rightarrow> (case readSomeTrieAcks buf len numberOfAcks sy of
          (n, buf, number, sy) \<Rightarrow> (Inr (int n, buf, number), h\<lparr>h_process := Some sy\<rparr>)))"

definition c_set_sync_trie_process_acks :: "SET \<Rightarrow> bytes \<Rightarrow> nat \<Rightarrow> nat \<Rightarrow> (SET_SYNC_HANDLE \<times> calls, int) prog" where
  "c_set_sync_trie_process_acks s buf len numberOfAcks =
     callback_catch (with_callback (\<lambda>x. processAcks x buf len numberOfAcks) s)"

definition c_set_sync_sent_bytes :: "(SET_SYNC_HANDLE, nat) prog" where
  "c_set_sync_sent_bytes = ask_process getSentBytes"

definition c_set_sync_received_bytes :: "(SET_SYNC_HANDLE, nat) prog" where
  "c_set_sync_received_bytes = ask_process getReceivedBytes"

definition c_set_sync_done :: "(SET_SYNC_HANDLE, int) prog" where
  "c_set_sync_done = ask_process (\<lambda>sy. int_of_bool (sync_done sy))"

definition c_set_sync_free_handle :: "(SET_SYNC_HANDLE, int) prog" where
  "c_set_sync_free_handle = (\<lambda>h. case h_process h of
      None \<Rightarrow> (Inl UndefinedBehaviour, h)
    | Some _ \<Rightarrow>
        let h = h\<lparr>h_process := None\<rparr>
        in (case h_error h of
              Null \<Rightarrow> (Inr 0, h)
            | Msg _ \<Rightarrow> (Inr 0, h\<lparr>h_error := Freed\<rparr>)
            | _ \<Rightarrow> (Inl UndefinedBehaviour, h)))"

definition c_set_sync_min_trie_buffer :: "SET \<Rightarrow> (SET_SYNC_HANDLE, nat) prog" where
  "c_set_sync_min_trie_buffer s = on_process s (\<lambda>x. ret (getMinTrieBuffer x))"

definition c_set_sync_min_bf_buffer :: "SET \<Rightarrow> (SET_SYNC_HANDLE, nat) prog" where
  "c_set_sync_min_bf_buffer s = on_process s (\<lambda>x. ret (getMinBFBuffer x))"

definition c_set_sync_min_buffer :: "SET \<Rightarrow> (SET_SYNC_HANDLE, nat) prog" where
  "c_set_sync_min_buffer s = on_process s (\<lambda>x. ret (getMinBuffer x))"

definition c_set_sync_calc_output_buffer_size :: "SET \<Rightarrow> nat \<Rightarrow> nat \<Rightarrow> (SET_SYNC_HANDLE, nat) prog" where
  "c_set_sync_calc_output_buffer_size s RTT product = on_process s (\<lambda>x. ret (calcOutputBufferSize x RTT product))"

section \<open>The last error\<close>

definition c_set_last_error_to_string :: "(SET, string option) prog" where
  "c_set_last_error_to_string = (\<lambda>s. case c_error s of
      Msg m \<Rightarrow> (Inr (Some (c_str m)), s)
    | Null \<Rightarrow> (Inr None, s)
    | _ \<Rightarrow> (Inl UndefinedBehaviour, s))"

text \<open>The result and what is printed.\<close>

definition c_set_last_error_printf :: "(SET, int \<times> string) prog" where
  "c_set_last_error_printf = (\<lambda>s. case c_error s of
      Msg m \<Rightarrow> (Inr (0, m), s)
    | Null \<Rightarrow> (Inr (- 1, ''''), s)
    | _ \<Rightarrow> (Inl UndefinedBehaviour, s))"

section \<open>The program\<close>

text \<open>\<^verbatim>\<open>main.c\<close> inserts the strings \<^verbatim>\<open>test 0\<close>, \<^verbatim>\<open>test 1\<close> and so on; it prints only on failure.\<close>

definition decimal_int :: "int \<Rightarrow> string" where
  "decimal_int i = (if i < 0 then CHR 0x2D # decimal (nat (- i)) else decimal (nat i))"

definition test_string :: "nat \<Rightarrow> string" where
  "test_string i = ''test '' @ decimal i"

definition printf :: "string \<Rightarrow> (SET \<times> string, unit) prog" where
  "printf line = modify (\<lambda>(s, out). (s, out @ line))"

definition in_main :: "(SET, 'a) prog \<Rightarrow> (SET \<times> string, 'a) prog" where
  "in_main m = (\<lambda>(s, out). case m s of (r, s) \<Rightarrow> (r, (s, out)))"

text \<open>The loop, from \<open>i\<close> with \<open>n\<close> turns to go: the value \<^verbatim>\<open>main\<close> returns from inside it, if it does.\<close>

fun main_loop :: "nat \<Rightarrow> nat \<Rightarrow> (SET \<times> string, int option) prog" where
  "main_loop i 0 = ret None"
| "main_loop i (Suc n) =
     bindE (in_main (c_set_insert_string (test_string i))) (\<lambda>result.
       if result = 0 then
         bindE (printf (''adding '' @ test_string i @ '' failed'' @ [CHR 0x0A])) (\<lambda>_.
         bindE (in_main c_set_free) (\<lambda>_. ret (Some result)))
       else main_loop (Suc i) n)"

definition main_config :: "set_world \<Rightarrow> SET_CONFIG" where
  "main_config w = (set_create_config (sw_leveldb w))\<lparr>cf_storage := C_BERKELEY_DB, cf_storage_cache_bytes := 20 * 1024\<rparr>"

definition c_main :: "nat \<Rightarrow> set_world \<Rightarrow> BloomFilterType \<Rightarrow> set_files \<Rightarrow> (SET \<times> string, int) prog" where
  "c_main SET_SIZE w junk files =
     bindE (in_main (c_set_init w junk files (main_config w))) (\<lambda>result.
         if result \<noteq> 0 then
           bindE (in_main c_set_last_error_to_string) (\<lambda>m.
           bindE (printf (''error on init berkeley db set: '' @
             (case m of Some m \<Rightarrow> m | None \<Rightarrow> ''(null)'') @ [CHR 0x0A])) (\<lambda>_. ret (- 1)))
         else
           bindE (main_loop 0 SET_SIZE) (\<lambda>stopped. case stopped of
               Some result \<Rightarrow> ret result
             | None \<Rightarrow>
                 bindE (in_main c_set_free) (\<lambda>(result, _).
                   if result \<noteq> 0
                   then bindE (printf (''error on deleting set1: '' @ decimal_int result @ [CHR 0x0A])) (\<lambda>_. ret result)
                   else ret result)))"

end
