(* ===== verification/SyncTrie.thy ===== *)
theory SyncTrie
  imports SyncModel
begin

text \<open>
  The synchronisation of the tries of two sets, as a step relation.  \<open>one_way\<close> are the four
  steps by which the first set finds what the second lacks: it sends a message of hashes, the
  other side receives it, sends answers back, and the first side takes those.  Messages wait
  in queues, in order, and any step whose turn it can be may be the next, with any buffers of
  at least the sizes the library asks for.  The invariant names the trees behind the hashes:
  still to send, on their way, at the other side, and answered.
\<close>

record chan =
  ch_from :: sync
  ch_to :: sync
  ch_subtries :: "bytes list"
  ch_acks :: "(bytes \<times> nat) list"
  ch_handler :: diff_handler

inductive one_way :: "set_state \<Rightarrow> set_state \<Rightarrow> chan \<Rightarrow> chan \<Rightarrow> bool" for a b where
  send: "isSubtrieOutputAvailable a (ch_from c) = (True, sy) \<Longrightarrow> getMinTrieBuffer a \<le> length buf \<Longrightarrow>
    sync_getSubTrie a buf (length buf) sy = Inr (sz, buf', sy') \<Longrightarrow>
    one_way a b c (c\<lparr>ch_from := sy', ch_subtries := ch_subtries c @ [take sz buf']\<rparr>)"
| receive: "ch_subtries c = m # ms \<Longrightarrow> processSubTrie b m (length m) (ch_to c) = (r, sy) \<Longrightarrow>
    one_way a b c (c\<lparr>ch_to := sy, ch_subtries := ms\<rparr>)"
| answer: "isAckOutputAvailable (ch_to c) \<Longrightarrow> buf \<noteq> [] \<Longrightarrow>
    readSomeTrieAcks buf (length buf) k (ch_to c) = (sz, buf', number, sy) \<Longrightarrow>
    one_way a b c (c\<lparr>ch_to := sy, ch_acks := ch_acks c @ [(take sz buf', number)]\<rparr>)"
| accept: "ch_acks c = (m, number) # ms \<Longrightarrow>
    processAcks a m (length m) number (ch_from c, ch_handler c) = (Inr (), (sy, h)) \<Longrightarrow>
    one_way a b c (c\<lparr>ch_from := sy, ch_acks := ms, ch_handler := h\<rparr>)"

section \<open>Two tries under one hash function\<close>

definition in_trie :: "set_state \<Rightarrow> ptree option \<Rightarrow> bool" where
  "in_trie s ot \<longleftrightarrow> trie_hash (set_env s) \<and> trie_ok (set_env s) (set_trie s) ot"

definition sync_pair :: "set_state \<Rightarrow> set_state \<Rightarrow> ptree \<Rightarrow> ptree option \<Rightarrow> bool" where
  "sync_pair a b t ob \<longleftrightarrow> in_trie a (Some t) \<and> in_trie b ob \<and> te_hash (set_env a) = te_hash (set_env b) \<and>
     set_hs a = set_hs b \<and> collision_free (te_hash (set_env a)) (t # opt_list ob)"

abbreviation hs_of :: "set_state \<Rightarrow> ptree \<Rightarrow> bytes" where
  "hs_of a \<equiv> th (set_env a)"

definition missing :: "set_state \<Rightarrow> bytes \<Rightarrow> bool" where
  "missing b h \<longleftrightarrow> contains (set_env b) (set_trie b) h = NOT_FOUND"

lemma te_size_set: "te_size (set_env s) = set_hs s"
  by (simp add: set_env_def set_hs_def hash_env_def)

lemma sync_pair_stored:
  assumes "sync_pair a b t ob"
  shows "trie_hash (set_env a)" "trie_ok (set_env a) (set_trie a) (Some t)" "wf_tree (set_hs a) t" "0 < set_hs a"
  using assms trie_hash.trie_ok_wf [of "set_env a" "set_trie a" "Some t"] trie_hash.size_pos [of "set_env a"]
  by (simp_all add: sync_pair_def in_trie_def te_size_set)

lemma length_hs_of: "sync_pair a b t ob \<Longrightarrow> u \<in> set (subs t) \<Longrightarrow> length (hs_of a u) = set_hs a"
  using sync_pair_stored(1,3) [of a b t ob] crypto_hash.length_thash subs_wf
  by (metis te_size_set trie_hash.axioms(1))

lemma hs_of_inj:
  assumes "sync_pair a b t ob" "u \<in> set (subs t)" "v \<in> set (subs t) \<union> \<Union> (set ` subs ` set_option ob)" "hs_of a u = hs_of a v"
  shows "u = v"
proof -
  have c: "crypto_hash (te_hash (set_env a)) (set_hs a)" "collision_free (te_hash (set_env a)) (t # opt_list ob)"
    using assms(1) unfolding sync_pair_def in_trie_def trie_hash_def te_size_set by blast+
  have wf: "wf_tree (set_hs a) t'" if "ob = Some t'" for t'
    using assms(1) that trie_hash.trie_ok_wf [of "set_env b" "set_trie b" ob]
    by (simp add: sync_pair_def in_trie_def te_size_set)
  obtain t' where "v \<in> set (subs t')" "t' \<in> set (t # opt_list ob)" "wf_tree (set_hs a) t'"
    using assms(3) wf sync_pair_stored(3) [OF assms(1)] by (cases ob) auto
  then show ?thesis using crypto_hash.thash_inj_subs [OF c(1,2) _ _ sync_pair_stored(3) [OF assms(1)]] assms(2,4) by auto
qed

text \<open>What the two sides find under the hash of a subtree.\<close>

lemma contains_own:
  assumes p: "sync_pair a b t ob" and u: "u \<in> set (subs t)"
  shows "contains (set_env a) (set_trie a) (hs_of a u) = (if is_bin u then INNER_NODE else LEAF_NODE)"
proof -
  have "hs_of a u \<in> keys t \<longleftrightarrow> \<not> is_bin u"
  proof (cases u)
    case (Tip k)
    then show ?thesis using u by (simp add: key_Tip_subs)
  next
    case (Bin m l r)
    have "Tip (hs_of a u) \<notin> set (subs t)" using hs_of_inj [OF p u, of "Tip (hs_of a u)"] Bin by auto
    then show ?thesis using Bin by (simp add: key_Tip_subs del: thash.simps)
  qed
  moreover have "hs_of a u \<in> node_hashes (set_env a) t" using u by (auto simp: node_hashes_def)
  ultimately show ?thesis
    using trie_hash.contains_tree [OF sync_pair_stored(1,2) [OF p]] length_hs_of [OF p u] by (simp add: te_size_set)
qed

lemma missing_there:
  assumes p: "sync_pair a b t ob" and u: "u \<in> set (subs t)"
  shows "\<not> missing b (hs_of a u) \<Longrightarrow> keys u \<subseteq> set (tree_keys ob)"
    and "u = Tip k \<Longrightarrow> missing b (hs_of a u) \<longleftrightarrow> k \<notin> set (tree_keys ob)"
proof -
  have b: "trie_hash (set_env b)" "trie_ok (set_env b) (set_trie b) ob" "te_hash (set_env a) = te_hash (set_env b)"
    "set_hs a = set_hs b" using p by (simp_all add: sync_pair_def in_trie_def)
  have len: "length (hs_of a u) = te_size (set_env b)" using length_hs_of [OF p u] b(4) by (simp add: te_size_set)
  have th: "hs_of a v = hs_of b v" for v using b(3) by simp
  show "keys u \<subseteq> set (tree_keys ob)" if "\<not> missing b (hs_of a u)"
  proof (cases ob)
    case None
    then show ?thesis using that trie_hash.contains_empty [OF b(1)] b(2) len by (simp add: missing_def)
  next
    case (Some t')
    then have "hs_of a u \<in> keys t' \<or> hs_of a u \<in> node_hashes (set_env b) t'"
      using that trie_hash.contains_tree [OF b(1)] b(2) len by (auto simp: missing_def split: if_splits)
    then obtain v where v: "v \<in> set (subs t')" "hs_of a u = hs_of a v"
      using th by (auto simp: node_hashes_def key_Tip_subs)
    then have "u = v" using hs_of_inj [OF p u, of v] Some by simp
    then show ?thesis using subs_keys [OF v(1)] Some by simp
  qed
  show "missing b (hs_of a u) \<longleftrightarrow> k \<notin> set (tree_keys ob)" if k: "u = Tip k"
  proof
    show "missing b (hs_of a u)" if "k \<notin> set (tree_keys ob)"
      using \<open>\<not> missing b (hs_of a u) \<Longrightarrow> keys u \<subseteq> set (tree_keys ob)\<close> that k by auto
    show "k \<notin> set (tree_keys ob)" if m: "missing b (hs_of a u)"
    proof (cases ob)
      case (Some t')
      then show ?thesis using m k trie_hash.contains_tree [OF b(1), of "set_trie b" t' k] b(2) len
        by (auto simp: missing_def split: if_splits)
    qed simp
  qed
qed

section \<open>The trees behind the hashes\<close>

text \<open>
  The trees still to send, answered (with the answers on their way back), waiting for an
  answer at the other side, and on their way there; and the keys handed to the handler.
\<close>

record trees =
  tr_pend :: "ptree list"
  tr_answered :: "ptree list"
  tr_there :: "ptree list"
  tr_moving :: "ptree list list"
  tr_keys :: "bytes list"

definition all_trees :: "trees \<Rightarrow> ptree list" where
  "all_trees g = tr_pend g @ tr_answered g @ tr_there g @ concat (tr_moving g)"

definition new_keys :: "bytes set \<Rightarrow> bytes multiset \<Rightarrow> bytes multiset" where
  "new_keys K M = filter_mset (\<lambda>k. k \<notin> K) M"

definition report :: "set_state \<Rightarrow> bytes list \<Rightarrow> diff_handler \<Rightarrow> diff_handler" where
  "report a ks h = fold (\<lambda>k. handle k (set_hs a) True) ks h"

definition acks_of :: "(bytes \<times> nat) list \<Rightarrow> bool list" where
  "acks_of ms = concat (map (\<lambda>(m, n). map (BITTEST m) [0..<n]) ms)"

definition chan_at :: "set_state \<Rightarrow> set_state \<Rightarrow> ptree \<Rightarrow> bytes set \<Rightarrow> diff_handler \<Rightarrow> chan \<Rightarrow> trees \<Rightarrow> bool" where
  "chan_at a b t K h0 c g \<longleftrightarrow>
     set (all_trees g) \<subseteq> set (subs t) \<and>
     (if sy_stat (ch_from c) = START then sy_pendingSubtries (ch_from c) = [] \<and> tr_pend g = [t] \<and> all_trees g = [t]
      else sy_stat (ch_from c) = TRIE \<and> sy_pendingSubtries (ch_from c) = map (hs_of a) (tr_pend g)) \<and>
     sy_sentHashes (ch_from c) = map (hs_of a) (tr_answered g @ tr_there g @ concat (tr_moving g)) \<and>
     acks_of (ch_acks c) = map (\<lambda>u. missing b (hs_of a u)) (tr_answered g) \<and>
     list_all (\<lambda>(m, n). 0 < n \<and> length m = (n + 7) div 8) (ch_acks c) \<and>
     sy_pendingAcks (ch_to c) = map (\<lambda>u. missing b (hs_of a u)) (tr_there g) \<and>
     ch_subtries c = map (\<lambda>vs. concat (map (hs_of a) vs)) (tr_moving g) \<and> [] \<notin> set (tr_moving g) \<and>
     ch_handler c = report a (tr_keys g) h0 \<and>
     new_keys K (below (all_trees g)) + mset (tr_keys g) = new_keys K (mset (key_list t)) \<and>
     (\<forall>u \<in> set (tr_pend g). is_bin u \<or> u = t)"

text \<open>
  The work left: a message replaces an inner node by nodes of less weight together, the other
  steps move nodes on.  A leaf is only sent when it is the root.
\<close>

definition stages :: "trees \<Rightarrow> nat" where
  "stages g = sum_list (map (\<lambda>u. if is_bin u then 0 else 4) (tr_pend g)) + length (tr_answered g) +
     2 * length (tr_there g) + 3 * length (concat (tr_moving g))"

definition work :: "ptree \<Rightarrow> trees \<Rightarrow> nat" where
  "work t g = weight (all_trees g) * (4 * length (subs t) + 1) + stages g"

lemma length_le_weight: "length us \<le> weight us"
proof (induction us)
  case (Cons u us)
  then show ?case using length_subs_pos [of u] by (simp del: length_greater_0_conv)
qed simp

lemma stages_le: "stages g \<le> 4 * weight (all_trees g)"
proof -
  have "sum_list (map (\<lambda>u. if is_bin u then 0 else 4) us) \<le> 4 * length us" for us
    by (induction us) auto
  from this [of "tr_pend g"] show ?thesis
    using length_le_weight [of "all_trees g"] by (simp add: stages_def all_trees_def)
qed

lemma work_less:
  assumes "weight (all_trees g) \<le> length (subs t)"
    "weight (all_trees g') < weight (all_trees g) \<or> weight (all_trees g') = weight (all_trees g) \<and> stages g' < stages g"
  shows "work t g' < work t g"
proof (cases "weight (all_trees g') < weight (all_trees g)")
  case True
  then have "(weight (all_trees g') + 1) * (4 * length (subs t) + 1) \<le> weight (all_trees g) * (4 * length (subs t) + 1)"
    by (intro mult_le_mono) simp_all
  moreover have "stages g' < 4 * length (subs t) + 1" using stages_le [of g'] True assms(1) by simp
  ultimately show ?thesis by (simp add: work_def add_mult_distrib)
qed (use assms(2) in \<open>simp add: work_def\<close>)

section \<open>The answers as bits\<close>

lemma BITTEST_put_acks:
  "i + length bs \<le> 8 * length m \<Longrightarrow> (\<And>j. i \<le> j \<Longrightarrow> j < 8 * length m \<Longrightarrow> \<not> BITTEST m j) \<Longrightarrow> j < 8 * length m \<Longrightarrow>
   BITTEST (put_acks i bs m) j = (if i \<le> j \<and> j < i + length bs then bs ! (j - i) else BITTEST m j)"
proof (induction bs arbitrary: i m)
  case (Cons x bs)
  let ?m = "if x then BITSET m i else m"
  have lm: "length ?m = length m" by simp
  have b: "BITTEST ?m k = (k = i \<and> x \<or> BITTEST m k)" for k
    using Cons.prems(1) by (auto simp: BITTEST_BITSET less_mult_imp_div_less)
  have "BITTEST (put_acks (Suc i) bs ?m) j =
      (if Suc i \<le> j \<and> j < Suc i + length bs then bs ! (j - Suc i) else BITTEST ?m j)"
    using Cons.prems lm by (intro Cons.IH) (auto simp: b)
  moreover have "\<not> BITTEST m i" using Cons.prems(1,2) by simp
  ultimately show ?case using b [of j] by (auto simp: nth_Cons' not_less_eq_eq)
qed auto

lemma length_put_acks [simp]: "length (put_acks i bs m) = length m"
  by (induction bs arbitrary: i m) auto

lemma BITTEST_take: "j < 8 * n \<Longrightarrow> BITTEST (take n m) j = BITTEST m j"
  by (simp add: BITTEST_def BITSLOT_def less_mult_imp_div_less)

text \<open>The bits of a message of answers are the answers.\<close>

lemma put_acks_bits:
  assumes "length bs \<le> 8 * n"
  shows "map (BITTEST (take ((length bs + 7) div 8) (put_acks 0 bs (replicate n 0)))) [0..<length bs] = bs"
proof (rule nth_equalityI)
  fix j assume "j < length (map (BITTEST (take ((length bs + 7) div 8) (put_acks 0 bs (replicate n 0)))) [0..<length bs])"
  then have j: "j < length bs" "j < 8 * ((length bs + 7) div 8)" by simp_all
  have "BITTEST (put_acks 0 bs (replicate n 0)) j = bs ! j"
    using BITTEST_put_acks [of 0 bs "replicate n 0" j] assms j(1) by (simp add: BITTEST_replicate)
  then show "map (BITTEST (take ((length bs + 7) div 8) (put_acks 0 bs (replicate n 0)))) [0..<length bs] ! j = bs ! j"
    using j BITTEST_take [OF j(2)] by simp
qed simp

section \<open>The steps keep the invariant\<close>

definition less_work :: "trees \<Rightarrow> trees \<Rightarrow> bool" where
  "less_work g' g \<longleftrightarrow> weight (all_trees g') < weight (all_trees g) \<or>
     weight (all_trees g') = weight (all_trees g) \<and> stages g' < stages g"

lemma report_snoc: "report a (ks @ [k]) h = handle k (set_hs a) True (report a ks h)"
  by (simp add: report_def)

lemma new_keys_simps [simp]: "new_keys K {#} = {#}" "new_keys K (M + N) = new_keys K M + new_keys K N"
  by (simp_all add: new_keys_def)

lemma new_keys_none: "set_mset M \<subseteq> K \<Longrightarrow> new_keys K M = {#}"
  by (auto simp: new_keys_def multiset_eq_iff count_eq_zero_iff)

lemma hashes_split:
  assumes "list_all (\<lambda>x. length x = h) xs"
  shows "map (\<lambda>i. slice (i * h) h (concat xs @ r)) [0..<length xs] = xs"
  using slice_concat [OF assms] by (intro nth_equalityI) simp_all

lemma hs_of_lengths:
  assumes "sync_pair a b t ob" "set vs \<subseteq> set (subs t)"
  shows "list_all (\<lambda>x. length x = set_hs a) (map (hs_of a) vs)" "length (concat (map (hs_of a) vs)) = length vs * set_hs a"
proof -
  show l: "list_all (\<lambda>x. length x = set_hs a) (map (hs_of a) vs)"
    using assms length_hs_of by (fastforce simp: list_all_iff)
  then show "length (concat (map (hs_of a) vs)) = length vs * set_hs a" by (induction vs) simp_all
qed

lemma output_available:
  assumes p: "sync_pair a b t ob" and c: "chan_at a b t K h0 c g"
  shows "isSubtrieOutputAvailable a (ch_from c) = (tr_pend g \<noteq> [],
    (ch_from c)\<lparr>sy_stat := TRIE, sy_pendingSubtries := map (hs_of a) (tr_pend g)\<rparr>)"
proof (cases "sy_stat (ch_from c) = START")
  case True
  have "getRootHash a = Some (hs_of a t)"
    using trie_hash.getRoot_tree [OF sync_pair_stored(1,2) [OF p]] by (simp add: getRootHash_def)
  then show ?thesis using True c by (simp add: isSubtrieOutputAvailable_def chan_at_def Let_def)
next
  case False
  then have "sy_stat (ch_from c) = TRIE" "sy_pendingSubtries (ch_from c) = map (hs_of a) (tr_pend g)"
    using c by (simp_all add: chan_at_def)
  then show ?thesis using False by (simp add: isSubtrieOutputAvailable_def)
qed

lemma send_step:
  assumes p: "sync_pair a b t ob" and c: "chan_at a b t K h0 c g"
    and pend: "tr_pend g = u # us" and buf: "getMinTrieBuffer a \<le> length buf"
  shows "\<exists>sz buf' sy'. sync_getSubTrie a buf (length buf)
        ((ch_from c)\<lparr>sy_stat := TRIE, sy_pendingSubtries := map (hs_of a) (tr_pend g)\<rparr>) = Inr (sz, buf', sy') \<and>
    (\<exists>g'. chan_at a b t K h0 (c\<lparr>ch_from := sy', ch_subtries := ch_subtries c @ [take sz buf']\<rparr>) g' \<and> less_work g' g)"
proof -
  let ?h = "set_hs a"
  have u: "u \<in> set (subs t)" using c pend by (simp add: chan_at_def all_trees_def)
  have h: "0 < ?h" "2 * ?h \<le> length buf" using sync_pair_stored(4) [OF p] buf
    by (simp_all add: getMinTrieBuffer_def getMinSyncTrieBuffer_def)
  then have n: "2 \<le> length buf div te_size (set_env a)" by (simp add: te_size_set less_eq_div_iff_mult_less_eq)
  obtain vs where vs: "getSubTrie (set_env a) (set_trie a) (hs_of a u) buf (length buf) =
      Inr (length vs * ?h, memcpy_at buf 0 (concat (map (hs_of a) vs)))"
    "set vs \<subseteq> set (subs t)" "vs \<noteq> []" "length vs \<le> length buf div ?h" "below vs = mset (key_list u)"
    "if is_bin u then 2 \<le> length vs \<and> weight vs < length (subs u) else vs = [u]"
    using trie_hash.getSubTrie_run [OF sync_pair_stored(1,2) [OF p] u n, of buf] unfolding te_size_set by blast
  let ?m = "concat (map (hs_of a) vs)"
  have len: "length ?m = length vs * ?h" "list_all (\<lambda>x. length x = ?h) (map (hs_of a) vs)"
    using hs_of_lengths [OF p vs(2)] by simp_all
  have "length vs * ?h \<le> length buf" using vs(4) h(1) by (simp add: less_eq_div_iff_mult_less_eq)
  then have fit: "length ?m \<le> length buf" using len(1) by simp
  have sl: "map (\<lambda>i. slice (i * ?h) ?h (memcpy_at buf 0 ?m)) [0..<length vs] = map (hs_of a) vs"
    using hashes_split [OF len(2), of "drop (length ?m) buf"] by (simp add: memcpy_at_def)
  have tk: "take (length vs * ?h) (memcpy_at buf 0 ?m) = ?m" using memcpy_at_0(1) [OF fit] len(1) by simp
  let ?sy = "(ch_from c)\<lparr>sy_stat := TRIE, sy_pendingSubtries := map (hs_of a) us,
    sy_sentHashes := sy_sentHashes (ch_from c) @ map (hs_of a) vs, sy_sentBytes := sy_sentBytes (ch_from c) + length vs * ?h\<rparr>"
  have run: "sync_getSubTrie a buf (length buf)
      ((ch_from c)\<lparr>sy_stat := TRIE, sy_pendingSubtries := map (hs_of a) (tr_pend g)\<rparr>) =
    Inr (length vs * ?h, memcpy_at buf 0 ?m, ?sy)"
    using vs(1) sl h(1) pend by (simp add: sync_getSubTrie.simps Let_def)
  let ?g = "g\<lparr>tr_pend := us, tr_moving := tr_moving g @ [vs]\<rparr>"
  have ct: "chan_at a b t K h0 (c\<lparr>ch_from := ?sy, ch_subtries := ch_subtries c @ [take (length vs * ?h) (memcpy_at buf 0 ?m)]\<rparr>) ?g"
    using c pend vs(2,3,5) tk by (simp add: chan_at_def all_trees_def ac_simps)
  have "less_work ?g g"
  proof (cases "is_bin u")
    case True
    then show ?thesis using vs(6) pend by (simp add: less_work_def all_trees_def)
  next
    case False
    then show ?thesis using vs(6) pend by (simp add: less_work_def all_trees_def stages_def)
  qed
  then show ?thesis using run ct by blast
qed

lemma receive_step:
  assumes p: "sync_pair a b t ob" and c: "chan_at a b t K h0 c g"
    and m: "ch_subtries c = m # ms" and r: "processSubTrie b m (length m) (ch_to c) = (r, sy)"
  shows "\<exists>g'. chan_at a b t K h0 (c\<lparr>ch_to := sy, ch_subtries := ms\<rparr>) g' \<and> less_work g' g"
proof -
  obtain vs vss where vs: "tr_moving g = vs # vss" "m = concat (map (hs_of a) vs)" "vs \<noteq> []" "set vs \<subseteq> set (subs t)"
    "ms = map (\<lambda>vs. concat (map (hs_of a) vs)) vss"
    using c m by (cases "tr_moving g") (auto simp: chan_at_def all_trees_def)
  have h: "0 < set_hs a" "set_hs b = set_hs a" using p sync_pair_stored(4) [OF p] by (simp_all add: sync_pair_def)
  have len: "length m = length vs * set_hs a" "list_all (\<lambda>x. length x = set_hs a) (map (hs_of a) vs)"
    using hs_of_lengths [OF p vs(4)] vs(2) by simp_all
  have "map (\<lambda>i. contains (set_env b) (set_trie b) (slice (i * set_hs a) (set_hs a) m) = NOT_FOUND) [0..<length vs] =
      map (missing b) (map (\<lambda>i. slice (i * set_hs a) (set_hs a) m) [0..<length vs])" by (simp add: missing_def)
  also have "\<dots> = map (\<lambda>u. missing b (hs_of a u)) vs" using hashes_split [OF len(2), of "[]"] vs(2) by simp
  finally have "sy = (ch_to c)\<lparr>sy_pendingAcks := sy_pendingAcks (ch_to c) @ map (\<lambda>u. missing b (hs_of a u)) vs,
      sy_receivedBytes := sy_receivedBytes (ch_to c) + length m\<rparr>"
    using r h len(1) by (simp add: processSubTrie_def Let_def)
  moreover let ?g = "g\<lparr>tr_there := tr_there g @ vs, tr_moving := vss\<rparr>"
  have all: "all_trees ?g = all_trees g" using vs(1) by (simp add: all_trees_def)
  ultimately have "chan_at a b t K h0 (c\<lparr>ch_to := sy, ch_subtries := ms\<rparr>) ?g"
    using c vs unfolding chan_at_def all by simp
  moreover have "less_work ?g g" unfolding less_work_def all using vs(1,3) by (simp add: stages_def)
  ultimately show ?thesis by blast
qed

lemma answer_step:
  assumes c: "chan_at a b t K h0 c g" and av: "tr_there g \<noteq> []" and buf: "buf \<noteq> []"
    and r: "readSomeTrieAcks buf (length buf) k (ch_to c) = (sz, buf', number, sy)"
  shows "\<exists>g'. chan_at a b t K h0 (c\<lparr>ch_to := sy, ch_acks := ch_acks c @ [(take sz buf', number)]\<rparr>) g' \<and> less_work g' g"
proof -
  let ?n = "min (length buf * 8) (length (tr_there g))"
  let ?bs = "map (\<lambda>u. missing b (hs_of a u)) (take ?n (tr_there g))"
  have pa: "sy_pendingAcks (ch_to c) = map (\<lambda>u. missing b (hs_of a u)) (tr_there g)" using c by (simp add: chan_at_def)
  have pos: "0 < ?n" using av buf by simp
  have "readSomeTrieAcks buf (length buf) k (ch_to c) = ((?n + 7) div 8, put_acks 0 ?bs (replicate (length buf) 0), ?n,
      (ch_to c)\<lparr>sy_pendingAcks := drop ?n (sy_pendingAcks (ch_to c)), sy_sentBytes := sy_sentBytes (ch_to c) + (?n + 7) div 8\<rparr>)"
    using av pa by (simp add: readSomeTrieAcks_def Let_def memcpy_at_def take_map)
  then have res: "number = ?n" "sz = (?n + 7) div 8" "buf' = put_acks 0 ?bs (replicate (length buf) 0)"
    "sy = (ch_to c)\<lparr>sy_pendingAcks := drop ?n (sy_pendingAcks (ch_to c)), sy_sentBytes := sy_sentBytes (ch_to c) + (?n + 7) div 8\<rparr>"
    using r by simp_all
  have lb: "length ?bs = ?n" by simp
  have "length ?bs \<le> 8 * length buf" unfolding lb by simp
  from put_acks_bits [OF this] have bits: "map (BITTEST (take sz buf')) [0..<number] = ?bs"
    unfolding lb res(1-3) .
  have small: "(?n + 7) div 8 \<le> length buf" by simp
  have lm: "length (take sz buf') = (number + 7) div 8" unfolding res(1-3) using small by simp
  let ?g = "g\<lparr>tr_answered := tr_answered g @ take ?n (tr_there g), tr_there := drop ?n (tr_there g)\<rparr>"
  have "all_trees ?g = all_trees g"
    unfolding all_trees_def using append_take_drop_id [of ?n "tr_there g"] by simp
  note all = this
  have sent: "tr_answered ?g @ tr_there ?g @ concat (tr_moving ?g) = tr_answered g @ tr_there g @ concat (tr_moving g)"
    using append_take_drop_id [of ?n "tr_there g"] by simp
  have "acks_of (ch_acks c @ [(take sz buf', number)]) = map (\<lambda>u. missing b (hs_of a u)) (tr_answered ?g)"
    using c bits by (simp add: chan_at_def acks_of_def)
  then have "chan_at a b t K h0 (c\<lparr>ch_to := sy, ch_acks := ch_acks c @ [(take sz buf', number)]\<rparr>) ?g"
    using c res(4) pos lm unfolding chan_at_def all sent by (simp add: res(1) drop_map)
  moreover have "n + 2 * (l - n) < 2 * l" if "0 < n" "n \<le> l" for n l :: nat using that by arith
  from this [OF pos] have "less_work ?g g" unfolding less_work_def all by (simp add: stages_def)
  ultimately show ?thesis by blast
qed

text \<open>
  The answers to a list of trees: the inner nodes that are missing go on the stack of subtries,
  the leaves that are missing to the handler.
\<close>

definition to_send :: "set_state \<Rightarrow> set_state \<Rightarrow> ptree list \<Rightarrow> ptree list" where
  "to_send a b us = filter (\<lambda>u. missing b (hs_of a u) \<and> is_bin u) us"

definition to_report :: "set_state \<Rightarrow> set_state \<Rightarrow> ptree list \<Rightarrow> bytes list" where
  "to_report a b us = map (hs_of a) (filter (\<lambda>u. missing b (hs_of a u) \<and> \<not> is_bin u) us)"

lemma process_ack_run:
  assumes p: "sync_pair a b t ob"
  shows "set us \<subseteq> set (subs t) \<Longrightarrow> sy_sentHashes sy = map (hs_of a) us @ rest \<Longrightarrow>
    (\<And>i. i < length us \<Longrightarrow> BITTEST m (j + i) = missing b (hs_of a (us ! i))) \<Longrightarrow>
    fold (process_ack a m) [j..<j + length us] (sy, h) =
      (sy\<lparr>sy_sentHashes := rest,
         sy_pendingSubtries := map (hs_of a) (rev (to_send a b us)) @ sy_pendingSubtries sy\<rparr>,
       report a (to_report a b us) h)"
proof (induction us arbitrary: j sy h)
  case Nil
  then show ?case by (simp add: to_send_def to_report_def report_def)
next
  case (Cons u us)
  have u: "u \<in> set (subs t)" "set us \<subseteq> set (subs t)" using Cons.prems(1) by simp_all
  have bit: "BITTEST m j = missing b (hs_of a u)" using Cons.prems(3) [of 0] by simp
  have bits: "BITTEST m (Suc j + i) = missing b (hs_of a (us ! i))" if "i < length us" for i
    using Cons.prems(3) [of "Suc i"] that by simp
  have sent: "hd (sy_sentHashes sy) = hs_of a u" "tl (sy_sentHashes sy) = map (hs_of a) us @ rest"
    using Cons.prems(2) by simp_all
  let ?sy = "sy\<lparr>sy_sentHashes := map (hs_of a) us @ rest, sy_pendingSubtries :=
    (if missing b (hs_of a u) \<and> is_bin u then hs_of a u # sy_pendingSubtries sy else sy_pendingSubtries sy)\<rparr>"
  let ?h = "if missing b (hs_of a u) \<and> \<not> is_bin u then handle (hs_of a u) (set_hs a) True h else h"
  have one: "process_ack a m j (sy, h) = (?sy, ?h)"
    unfolding process_ack_def by (simp add: bit sent Let_def contains_own [OF p u(1)])
  have upt: "[j..<j + length (u # us)] = j # [Suc j..<Suc j + length us]" by (simp add: upt_rec)
  have IH: "fold (process_ack a m) [Suc j..<Suc j + length us] (?sy, ?h) =
      (?sy\<lparr>sy_sentHashes := rest, sy_pendingSubtries := map (hs_of a) (rev (to_send a b us)) @ sy_pendingSubtries ?sy\<rparr>,
       report a (to_report a b us) ?h)"
    by (rule Cons.IH [OF u(2) _ bits]) simp_all
  show ?case unfolding upt fold_simps one IH
    by (simp add: to_send_def to_report_def report_def)
qed

lemma answers_account:
  assumes p: "sync_pair a b t ob" and us: "set us \<subseteq> set (subs t)" and K: "K = set (tree_keys ob)"
  shows "new_keys K (below us) = new_keys K (below (to_send a b us)) + mset (to_report a b us)"
  using us
proof (induction us)
  case (Cons u us)
  have u: "u \<in> set (subs t)" using Cons.prems by simp
  have one: "new_keys K (mset (key_list u)) = new_keys K (below (to_send a b [u])) + mset (to_report a b [u])"
  proof (cases "missing b (hs_of a u)")
    case False
    then have "new_keys K (mset (key_list u)) = {#}" using missing_there(1) [OF p u] K by (intro new_keys_none) simp
    then show ?thesis using False by (simp add: to_send_def to_report_def)
  next
    case True
    show ?thesis
    proof (cases u)
      case (Tip k)
      then show ?thesis using missing_there(2) [OF p u Tip] True K by (simp add: to_send_def to_report_def new_keys_def)
    next
      case (Bin m l r)
      then have "is_bin u" by simp
      then show ?thesis using True by (simp add: to_send_def to_report_def del: is_bin.simps)
    qed
  qed
  have two: "to_send a b (u # us) = to_send a b [u] @ to_send a b us"
    "to_report a b (u # us) = to_report a b [u] @ to_report a b us" by (simp_all add: to_send_def to_report_def)
  have "new_keys K (below us) = new_keys K (below (to_send a b us)) + mset (to_report a b us)"
    using Cons by simp
  then show ?case unfolding two below_simps(2,3) new_keys_simps mset_append one by (simp only: ac_simps)
qed (simp add: to_send_def to_report_def)

lemma to_send_work:
  "weight (to_send a b us) \<le> weight us"
  "sum_list (map (\<lambda>u. if is_bin u then 0 else 4 :: nat) (rev (to_send a b us))) = 0"
proof -
  show "weight (to_send a b us) \<le> weight us" by (induction us) (simp_all add: to_send_def)
qed (auto simp: to_send_def)

lemma accept_step:
  assumes p: "sync_pair a b t ob" and c: "chan_at a b t K h0 c g" and K: "K = set (tree_keys ob)"
    and m: "ch_acks c = (m, number) # ms"
  shows "\<exists>sy h. processAcks a m (length m) number (ch_from c, ch_handler c) = (Inr (), (sy, h)) \<and>
    (\<exists>g'. chan_at a b t K h0 (c\<lparr>ch_from := sy, ch_acks := ms, ch_handler := h\<rparr>) g' \<and> less_work g' g)"
proof -
  let ?from = "ch_from c"
  let ?us = "take number (tr_answered g)" and ?rest = "drop number (tr_answered g)"
  have bits: "map (BITTEST m) [0..<number] @ acks_of ms = map (\<lambda>u. missing b (hs_of a u)) (tr_answered g)"
    and lm: "0 < number" "length m = (number + 7) div 8"
    using c m by (simp_all add: chan_at_def acks_of_def)
  have le: "number \<le> length (tr_answered g)" using arg_cong [OF bits, of length] by simp
  have b1: "map (BITTEST m) [0..<number] = map (\<lambda>u. missing b (hs_of a u)) ?us"
    and b2: "acks_of ms = map (\<lambda>u. missing b (hs_of a u)) ?rest"
    using arg_cong [OF bits, of "take number"] arg_cong [OF bits, of "drop number"] le by (simp_all add: take_map drop_map)
  have bit: "BITTEST m (0 + i) = missing b (hs_of a (?us ! i))" if "i < length ?us" for i
    using arg_cong [OF b1, of "\<lambda>xs. xs ! i"] that by simp
  have sub: "set ?us \<subseteq> set (subs t)" using c set_take_subset [of number "tr_answered g"] by (auto simp: chan_at_def all_trees_def)
  have lus: "0 + length ?us = number" using le by simp
  have sent: "sy_sentHashes ?from = map (hs_of a) ?us @ map (hs_of a) (?rest @ tr_there g @ concat (tr_moving g))"
    using c append_take_drop_id [of number "tr_answered g"] unfolding chan_at_def
    by (metis append_assoc map_append)
  have trie: "sy_stat ?from = TRIE \<and> sy_pendingSubtries ?from = map (hs_of a) (tr_pend g)"
    using c lm(1) le by (auto simp: chan_at_def all_trees_def split: if_splits)
  let ?sy = "?from\<lparr>sy_sentHashes := map (hs_of a) (?rest @ tr_there g @ concat (tr_moving g)),
    sy_pendingSubtries := map (hs_of a) (rev (to_send a b ?us) @ tr_pend g),
    sy_receivedBytes := sy_receivedBytes ?from + (number + 7) div 8\<rparr>"
  let ?h = "report a (to_report a b ?us) (ch_handler c)"
  have "\<not> length (sy_sentHashes ?from) < number" unfolding sent using le by simp
  then have run: "processAcks a m (length m) number (?from, ch_handler c) = (Inr (), (?sy, ?h))"
    using process_ack_run [OF p sub sent bit, of "ch_handler c", unfolded lus] lm(2) trie by (simp add: processAcks_def)
  let ?g = "g\<lparr>tr_pend := rev (to_send a b ?us) @ tr_pend g, tr_answered := ?rest, tr_keys := tr_keys g @ to_report a b ?us\<rparr>"
  have "below (all_trees g) = below ?us + below (tr_pend g @ ?rest @ tr_there g @ concat (tr_moving g))"
    using below_simps(3) [of ?us ?rest] by (simp add: all_trees_def ac_simps)
  then have acc: "new_keys K (below (all_trees ?g)) + mset (tr_keys ?g) = new_keys K (below (all_trees g)) + mset (tr_keys g)"
    using answers_account [OF p sub K] by (simp add: all_trees_def below_rev ac_simps)
  have ts: "set (to_send a b ?us) \<subseteq> set ?us" "\<forall>u \<in> set (to_send a b ?us). is_bin u" by (auto simp: to_send_def)
  have ct: "chan_at a b t K h0 (c\<lparr>ch_from := ?sy, ch_acks := ms, ch_handler := ?h\<rparr>) ?g"
    using c m b2 acc ts sub trie set_drop_subset [of number "tr_answered g"]
    unfolding chan_at_def by (auto simp: all_trees_def report_def)
  moreover have "stages ?g + number = stages g" using le to_send_work(2) [of a b ?us] by (simp add: stages_def)
  moreover have "weight ?us + weight ?rest = weight (tr_answered g)"
    using weight_simps(3) [of ?us ?rest] by simp
  then have "weight (all_trees ?g) \<le> weight (all_trees g)"
    using to_send_work(1) [of a b ?us] by (simp add: all_trees_def weight_rev)
  ultimately have "less_work ?g g" using lm(1) by (auto simp: less_work_def)
  then show ?thesis using run ct by blast
qed

section \<open>Runs of one direction\<close>

lemma one_way_step:
  assumes p: "sync_pair a b t ob" and c: "chan_at a b t K h0 c g" and K: "K = set (tree_keys ob)"
    and step: "one_way a b c c'"
  shows "\<exists>g'. chan_at a b t K h0 c' g' \<and> less_work g' g"
  using step
proof cases
  case (send sy buf sz buf' sy')
  have sy: "sy = (ch_from c)\<lparr>sy_stat := TRIE, sy_pendingSubtries := map (hs_of a) (tr_pend g)\<rparr>" "tr_pend g \<noteq> []"
    using output_available [OF p c] send(2) by auto
  then obtain u us where "tr_pend g = u # us" by (cases "tr_pend g") auto
  from send_step [OF p c this send(3)] show ?thesis using send(1,4) unfolding sy(1) by auto
next
  case (receive m ms r sy)
  then show ?thesis using receive_step [OF p c receive(2,3)] by simp
next
  case (answer buf k sz buf' number sy)
  have "tr_there g \<noteq> []" using c answer(2) by (auto simp: isAckOutputAvailable_def chan_at_def)
  from answer_step [OF c this answer(3,4)] show ?thesis using answer(1) by simp
next
  case (accept m number ms sy h)
  then show ?thesis using accept_step [OF p c K accept(2)] by auto
qed

text \<open>While there is a tree left, some step is possible.\<close>

lemma one_way_progress:
  assumes p: "sync_pair a b t ob" and c: "chan_at a b t K h0 c g" and K: "K = set (tree_keys ob)"
    and left: "all_trees g \<noteq> []"
  shows "\<exists>c'. one_way a b c c'"
proof -
  consider "tr_pend g \<noteq> []" | "tr_moving g \<noteq> []" | "tr_there g \<noteq> []" | "tr_answered g \<noteq> []"
    using left by (cases "tr_moving g = []") (auto simp: all_trees_def)
  then show ?thesis
  proof cases
    case 1
    then obtain u us where u: "tr_pend g = u # us" by (cases "tr_pend g") auto
    let ?buf = "replicate (getMinTrieBuffer a) 0 :: bytes"
    have "getMinTrieBuffer a \<le> length ?buf" by simp
    from send_step [OF p c u this] output_available [OF p c] u this show ?thesis
      by (fastforce intro: one_way.send)
  next
    case 2
    then obtain m ms where "ch_subtries c = m # ms" using c by (cases "tr_moving g") (auto simp: chan_at_def)
    then show ?thesis by (cases "processSubTrie b m (length m) (ch_to c)") (blast intro: one_way.receive)
  next
    case 3
    then have av: "isAckOutputAvailable (ch_to c)" using c by (simp add: isAckOutputAvailable_def chan_at_def)
    obtain sz buf' number sy where "readSomeTrieAcks [0] (length [0 :: byte]) 0 (ch_to c) = (sz, buf', number, sy)"
      by (metis prod_cases4)
    from one_way.answer [OF av _ this] show ?thesis by blast
  next
    case 4
    have "acks_of (ch_acks c) = map (\<lambda>u. missing b (hs_of a u)) (tr_answered g)" using c by (simp add: chan_at_def)
    then have "ch_acks c \<noteq> []" using 4 by (auto simp: acks_of_def)
    then obtain m number ms where m: "ch_acks c = (m, number) # ms" by (cases "ch_acks c") auto
    then show ?thesis using accept_step [OF p c K m] by (blast intro: one_way.accept)
  qed
qed

text \<open>Without a tree left the handler got every key that the other side lacks, once.\<close>

lemma one_way_result:
  assumes p: "sync_pair a b t ob" and c: "chan_at a b t K h0 c g" and none: "all_trees g = []"
  shows "distinct (tr_keys g) \<and> set (tr_keys g) = keys t - K \<and> ch_handler c = report a (tr_keys g) h0"
proof -
  have m: "mset (tr_keys g) = filter_mset (\<lambda>k. k \<notin> K) (mset (key_list t))"
    using c none by (simp add: chan_at_def new_keys_def)
  have "distinct (filter (\<lambda>k. k \<notin> K) (key_list t))" using wf_distinct_keys [OF sync_pair_stored(3) [OF p]] by simp
  then have "distinct (tr_keys g)" using m by (metis mset_eq_imp_distinct_iff mset_filter)
  moreover have "set (tr_keys g) = keys t - K" using arg_cong [OF m, of set_mset] by auto
  ultimately show ?thesis using c by (simp add: chan_at_def)
qed

end
