(* ===== verification/SyncRuns.thy ===== *)
theory SyncRuns
  imports SyncTrie
begin

text \<open>
  Both directions at once: a session of two processes, each of which sends its own subtries
  and answers those of the other.  The steps of one direction do not touch what the invariant
  of the other reads.
\<close>

record session =
  se_l :: sync
  se_r :: sync
  se_lr :: "bytes list"
  se_rl :: "bytes list"
  se_acks_l :: "(bytes \<times> nat) list" \<comment> \<open>answers to the left side\<close>
  se_acks_r :: "(bytes \<times> nat) list"
  se_hl :: diff_handler
  se_hr :: diff_handler

definition chan_l :: "session \<Rightarrow> chan" where
  "chan_l s = \<lparr>ch_from = se_l s, ch_to = se_r s, ch_subtries = se_lr s, ch_acks = se_acks_l s, ch_handler = se_hl s\<rparr>"

definition chan_r :: "session \<Rightarrow> chan" where
  "chan_r s = \<lparr>ch_from = se_r s, ch_to = se_l s, ch_subtries = se_rl s, ch_acks = se_acks_r s, ch_handler = se_hr s\<rparr>"

definition put_l :: "chan \<Rightarrow> session \<Rightarrow> session" where
  "put_l c s = s\<lparr>se_l := ch_from c, se_r := ch_to c, se_lr := ch_subtries c, se_acks_l := ch_acks c, se_hl := ch_handler c\<rparr>"

definition put_r :: "chan \<Rightarrow> session \<Rightarrow> session" where
  "put_r c s = s\<lparr>se_r := ch_from c, se_l := ch_to c, se_rl := ch_subtries c, se_acks_r := ch_acks c, se_hr := ch_handler c\<rparr>"

inductive two_way :: "set_state \<Rightarrow> set_state \<Rightarrow> session \<Rightarrow> session \<Rightarrow> bool" for l r where
  left: "one_way l r (chan_l s) c \<Longrightarrow> two_way l r s (put_l c s)"
| right: "one_way r l (chan_r s) c \<Longrightarrow> two_way l r s (put_r c s)"

definition session_init :: "diff_handler \<Rightarrow> diff_handler \<Rightarrow> session" where
  "session_init hl hr = \<lparr>se_l = createSyncProcess, se_r = createSyncProcess, se_lr = [], se_rl = [],
     se_acks_l = [], se_acks_r = [], se_hl = hl, se_hr = hr\<rparr>"

lemma chan_put [simp]: "chan_l (put_l c s) = c" "chan_r (put_r c s) = c"
  by (simp_all add: chan_l_def chan_r_def put_l_def put_r_def)

section \<open>What a step leaves alone\<close>

lemma process_ack_acks: "sy_pendingAcks (fst (fold (process_ack s m) is x)) = sy_pendingAcks (fst x)"
proof (induction "is" arbitrary: x)
  case (Cons i "is")
  have "sy_pendingAcks (fst (process_ack s m i x)) = sy_pendingAcks (fst x)"
    by (cases x) (simp add: process_ack_def Let_def split: TrieNodeType.split option.split)
  then show ?case using Cons by simp
qed simp

lemma getSubTrie_acks:
  "sync_getSubTrie s buf n sy = Inr (sz, buf', sy') \<Longrightarrow> sy_pendingAcks sy' = sy_pendingAcks sy"
proof (induction s buf n sy rule: sync_getSubTrie.induct)
  case (1 s buf n sy)
  then show ?case
    by (subst (asm) (2) sync_getSubTrie.simps) (auto simp: Let_def split: list.splits sum.splits if_splits)
qed

definition from_fields :: "sync \<Rightarrow> status \<times> bytes list \<times> bytes list" where
  "from_fields sy = (sy_stat sy, sy_pendingSubtries sy, sy_sentHashes sy)"

lemma one_way_frame:
  assumes "one_way a b c c'"
  shows "sy_pendingAcks (ch_from c') = sy_pendingAcks (ch_from c)" "from_fields (ch_to c') = from_fields (ch_to c)"
proof -
  show "sy_pendingAcks (ch_from c') = sy_pendingAcks (ch_from c)"
    using assms
  proof cases
    case (send sy buf sz buf' sy')
    have "sy_pendingAcks sy = sy_pendingAcks (ch_from c)"
      using send(2) by (auto simp: isSubtrieOutputAvailable_def Let_def split: if_splits option.splits)
    then show ?thesis using send(1) getSubTrie_acks [OF send(4)] by simp
  next
    case (accept m number ms sy h)
    then have "sy_pendingAcks sy = sy_pendingAcks (fst (fold (process_ack a m) [0..<number] (ch_from c, ch_handler c)))"
      by (auto simp: processAcks_def split: if_splits prod.splits)
    then show ?thesis using accept(1) process_ack_acks [of a m "[0..<number]"] by simp
  qed simp_all
  show "from_fields (ch_to c') = from_fields (ch_to c)"
    using assms by cases (auto simp: from_fields_def processSubTrie_def readSomeTrieAcks_def Let_def split: if_splits)
qed

lemma chan_at_cong:
  assumes "chan_at a b t K h0 c g" "from_fields (ch_from c') = from_fields (ch_from c)"
    "sy_pendingAcks (ch_to c') = sy_pendingAcks (ch_to c)"
    "ch_subtries c' = ch_subtries c" "ch_acks c' = ch_acks c" "ch_handler c' = ch_handler c"
  shows "chan_at a b t K h0 c' g"
  using assms by (simp add: chan_at_def from_fields_def)

lemma put_l_r:
  assumes "one_way l r (chan_l s) c" "chan_at r l t K h0 (chan_r s) g"
  shows "chan_at r l t K h0 (chan_r (put_l c s)) g"
  using one_way_frame [OF assms(1)]
  by (intro chan_at_cong [OF assms(2)]) (simp_all add: chan_l_def chan_r_def put_l_def from_fields_def)

lemma put_r_l:
  assumes "one_way r l (chan_r s) c" "chan_at l r t K h0 (chan_l s) g"
  shows "chan_at l r t K h0 (chan_l (put_r c s)) g"
  using one_way_frame [OF assms(1)]
  by (intro chan_at_cong [OF assms(2)]) (simp_all add: chan_l_def chan_r_def put_r_def from_fields_def)

section \<open>Sessions\<close>

definition start_trees :: "ptree \<Rightarrow> trees" where
  "start_trees t = \<lparr>tr_pend = [t], tr_answered = [], tr_there = [], tr_moving = [], tr_keys = []\<rparr>"

lemma chan_at_start:
  "chan_at a b t K h (chan_l (session_init h h')) (start_trees t)"
  "chan_at a b t K h (chan_r (session_init h' h)) (start_trees t)"
  by (simp_all add: chan_at_def start_trees_def session_init_def chan_l_def chan_r_def createSyncProcess_def
      all_trees_def acks_of_def report_def)

text \<open>The two sides: their tries, one hash function, and no collisions among their nodes.\<close>

definition two_sets :: "set_state \<Rightarrow> set_state \<Rightarrow> ptree \<Rightarrow> ptree \<Rightarrow> bool" where
  "two_sets l r t1 t2 \<longleftrightarrow> in_trie l (Some t1) \<and> in_trie r (Some t2) \<and> set_hash l = set_hash r \<and>
     collision_free (te_hash (set_env l)) [t1, t2]"

lemma no_clash_swap: "collision_free H [x, y] \<Longrightarrow> collision_free H [y, x]"
  unfolding collision_free_def by (erule no_clash_mono) auto

lemma two_sets_pairs:
  assumes "two_sets l r t1 t2"
  shows "sync_pair l r t1 (Some t2)" "sync_pair r l t2 (Some t1)"
  using assms no_clash_swap
  by (auto simp: two_sets_def sync_pair_def set_env_def set_hs_def hash_env_def)

definition session_inv :: "set_state \<Rightarrow> set_state \<Rightarrow> ptree \<Rightarrow> ptree \<Rightarrow> diff_handler \<Rightarrow> diff_handler \<Rightarrow> session \<Rightarrow> trees \<Rightarrow> trees \<Rightarrow> bool" where
  "session_inv l r t1 t2 hl hr s gl gr \<longleftrightarrow>
     chan_at l r t1 (keys t2) hl (chan_l s) gl \<and> chan_at r l t2 (keys t1) hr (chan_r s) gr \<and>
     weight (all_trees gl) \<le> length (subs t1) \<and> weight (all_trees gr) \<le> length (subs t2)"

lemma session_start: "session_inv l r t1 t2 hl hr (session_init hl hr) (start_trees t1) (start_trees t2)"
  by (simp add: session_inv_def chan_at_start) (simp add: start_trees_def all_trees_def)

lemma session_step:
  assumes two: "two_sets l r t1 t2" and inv: "session_inv l r t1 t2 hl hr s gl gr" and step: "two_way l r s s'"
  shows "\<exists>gl' gr'. session_inv l r t1 t2 hl hr s' gl' gr' \<and> work t1 gl' + work t2 gr' < work t1 gl + work t2 gr"
  using step
proof cases
  case (left c)
  have "chan_at l r t1 (keys t2) hl (chan_l s) gl" using inv by (simp add: session_inv_def)
  from one_way_step [OF two_sets_pairs(1) [OF two] this _ left(2)]
  obtain gl' where g: "chan_at l r t1 (keys t2) hl c gl'" "less_work gl' gl" by auto
  have "work t1 gl' < work t1 gl" using work_less [of gl t1 gl'] g(2) inv by (simp add: session_inv_def less_work_def)
  moreover have "session_inv l r t1 t2 hl hr s' gl' gr"
    using g inv put_l_r [OF left(2)] left(1) by (auto simp: session_inv_def less_work_def)
  ultimately show ?thesis by (intro exI [of _ gl'] exI [of _ gr]) simp
next
  case (right c)
  have "chan_at r l t2 (keys t1) hr (chan_r s) gr" using inv by (simp add: session_inv_def)
  from one_way_step [OF two_sets_pairs(2) [OF two] this _ right(2)]
  obtain gr' where g: "chan_at r l t2 (keys t1) hr c gr'" "less_work gr' gr" by auto
  have "work t2 gr' < work t2 gr" using work_less [of gr t2 gr'] g(2) inv by (simp add: session_inv_def less_work_def)
  moreover have "session_inv l r t1 t2 hl hr s' gl gr'"
    using g inv put_r_l [OF right(2)] right(1) by (auto simp: session_inv_def less_work_def)
  ultimately show ?thesis by (intro exI [of _ gl] exI [of _ gr']) simp
qed

lemma session_run:
  assumes two: "two_sets l r t1 t2"
  shows "(two_way l r ^^ n) (session_init hl hr) s \<Longrightarrow>
    \<exists>gl gr. session_inv l r t1 t2 hl hr s gl gr \<and>
      n + work t1 gl + work t2 gr \<le> work t1 (start_trees t1) + work t2 (start_trees t2)"
proof (induction n arbitrary: s)
  case 0
  then show ?case using session_start by fastforce
next
  case (Suc n)
  obtain s1 where s1: "(two_way l r ^^ n) (session_init hl hr) s1" "two_way l r s1 s" using Suc.prems by auto
  obtain gl gr where g: "session_inv l r t1 t2 hl hr s1 gl gr"
    "n + work t1 gl + work t2 gr \<le> work t1 (start_trees t1) + work t2 (start_trees t2)" using Suc.IH [OF s1(1)] by blast
  show ?case using session_step [OF two g(1) s1(2)] g(2) by fastforce
qed

lemma session_reach:
  assumes "two_sets l r t1 t2" "(two_way l r)\<^sup>*\<^sup>* (session_init hl hr) s"
  obtains gl gr where "session_inv l r t1 t2 hl hr s gl gr"
  using session_run [OF assms(1)] assms(2) rtranclp_imp_relpowp by metis

text \<open>A side that is done has no trees left.\<close>

lemma done_no_trees:
  assumes "chan_at a b t K h0 c g" "sync_done (ch_from c)"
  shows "all_trees g = []"
proof -
  have "sy_stat (ch_from c) = TRIE" "sy_sentHashes (ch_from c) = []" "sy_pendingSubtries (ch_from c) = []"
    using assms by (auto simp: sync_done_def chan_at_def split: if_splits)
  then show ?thesis using assms(1) by (simp add: chan_at_def all_trees_def)
qed

lemma no_trees_done:
  assumes "chan_at a b t K h0 c g" "all_trees g = []" "sy_pendingAcks (ch_from c) = []"
  shows "sync_done (ch_from c)"
  using assms by (auto simp: sync_done_def chan_at_def all_trees_def split: if_splits)

lemma reported_part:
  assumes p: "sync_pair a b t ob" and c: "chan_at a b t K h0 c g"
  shows "distinct (tr_keys g) \<and> set (tr_keys g) \<subseteq> keys t - K \<and> ch_handler c = report a (tr_keys g) h0"
proof -
  have "new_keys K (below (all_trees g)) + mset (tr_keys g) = new_keys K (mset (key_list t))"
    using c by (simp add: chan_at_def)
  from mset_subset_eq_add_right [of "mset (tr_keys g)" "new_keys K (below (all_trees g))", unfolded this]
  have m: "mset (tr_keys g) \<subseteq># mset (filter (\<lambda>k. k \<notin> K) (key_list t))"
    by (simp add: new_keys_def)
  have d: "distinct (filter (\<lambda>k. k \<notin> K) (key_list t))" using wf_distinct_keys [OF sync_pair_stored(3) [OF p]] by simp
  have "count (mset (tr_keys g)) k \<le> 1" for k
    using mset_subset_eq_count [OF m, of k] d [unfolded distinct_count_atmost_1, rule_format, of k]
    by (simp del: mset_filter add: count_mset_0_iff [THEN iffD2] split: if_splits)
  then have "distinct (tr_keys g)" unfolding distinct_count_atmost_1
    by (metis count_greater_zero_iff le_antisym less_one not_less count_eq_zero_iff set_mset_mset)
  moreover have "set (tr_keys g) \<subseteq> keys t - K" using set_mset_mono [OF m] by auto
  ultimately show ?thesis using c by (simp add: chan_at_def)
qed

text \<open>As long as a side is not done some step is possible, so some run ends with both sides done.\<close>

lemma session_progress:
  assumes two: "two_sets l r t1 t2" and inv: "session_inv l r t1 t2 hl hr s gl gr"
    and nd: "\<not> (sync_done (se_l s) \<and> sync_done (se_r s))"
  shows "\<exists>s'. two_way l r s s'"
proof -
  note p = two_sets_pairs [OF two]
  have c: "chan_at l r t1 (keys t2) hl (chan_l s) gl" "chan_at r l t2 (keys t1) hr (chan_r s) gr"
    using inv by (simp_all add: session_inv_def)
  have f: "ch_from (chan_l s) = se_l s" "ch_to (chan_l s) = se_r s" "ch_from (chan_r s) = se_r s" "ch_to (chan_r s) = se_l s"
    by (simp_all add: chan_l_def chan_r_def)
  have "all_trees gl \<noteq> [] \<or> all_trees gr \<noteq> []"
  proof (rule ccontr)
    assume "\<not> (all_trees gl \<noteq> [] \<or> all_trees gr \<noteq> [])"
    then have e: "all_trees gl = []" "all_trees gr = []" by simp_all
    have "sy_pendingAcks (se_l s) = [] \<and> sy_pendingAcks (se_r s) = []"
      using c e by (simp add: chan_at_def f all_trees_def)
    then show False using no_trees_done [OF c(1) e(1)] no_trees_done [OF c(2) e(2)] nd by (simp add: f)
  qed
  then show ?thesis
    using one_way_progress [OF p(1) c(1)] one_way_progress [OF p(2) c(2)] by (auto intro: two_way.left two_way.right)
qed

lemma session_completes:
  assumes "two_sets l r t1 t2" "(two_way l r)\<^sup>*\<^sup>* (session_init hl hr) s"
  shows "\<exists>s'. (two_way l r)\<^sup>*\<^sup>* s s' \<and> sync_done (se_l s') \<and> sync_done (se_r s')"
proof -
  obtain gl gr where "session_inv l r t1 t2 hl hr s gl gr" using session_reach [OF assms] .
  then show ?thesis
  proof (induction "work t1 gl + work t2 gr" arbitrary: s gl gr rule: less_induct)
    case less
    show ?case
    proof (cases "sync_done (se_l s) \<and> sync_done (se_r s)")
      case False
      then obtain s' where s': "two_way l r s s'" using session_progress [OF assms(1) less.prems] by blast
      then show ?thesis using session_step [OF assms(1) less.prems s'] less.hyps
        by (meson converse_rtranclp_into_rtranclp)
    qed blast
  qed
qed

end
