(* ===== verification/CSession.thy ===== *)
theory CSession
  imports CInterface SyncRuns
begin

text \<open>
  Two programs that synchronise their sets by the C functions of \<^verbatim>\<open>setsync/set.h\<close>.  Each has a
  \<^verbatim>\<open>SET\<close> and a \<^verbatim>\<open>SET_SYNC_HANDLE\<close>, sends the buffers that \<^verbatim>\<open>set_sync_trie_get_subtrie\<close> and
  \<^verbatim>\<open>set_sync_trie_read_acks\<close> fill, and hands what it receives to
  \<^verbatim>\<open>set_sync_trie_process_subtrie\<close> and \<^verbatim>\<open>set_sync_trie_process_acks\<close>.  It may make any call at any
  time, with any buffer of the size \<^verbatim>\<open>set_sync_min_trie_buffer\<close> asks for, and sends a buffer when
  the code returned is positive.  The codes are kept in order.
\<close>

record c_chan =
  cc_from :: SET_SYNC_HANDLE
  cc_to :: SET_SYNC_HANDLE
  cc_subtries :: "bytes list"
  cc_acks :: "(bytes \<times> nat) list"
  cc_calls :: calls
  cc_codes :: "int list"

inductive c_one_way :: "SET \<Rightarrow> SET \<Rightarrow> c_chan \<Rightarrow> c_chan \<Rightarrow> bool" for a b where
  c_send: "c_set_sync_min_trie_buffer a (cc_from c) = (Inr n, h0) \<Longrightarrow> n \<le> length buf \<Longrightarrow>
    c_set_sync_trie_get_subtrie a buf (length buf) (cc_from c) = (Inr (code, buf'), h) \<Longrightarrow>
    c_one_way a b c (c\<lparr>cc_from := h, cc_codes := cc_codes c @ [code],
      cc_subtries := cc_subtries c @ (if 0 < code then [take (nat code) buf'] else [])\<rparr>)"
| c_receive: "cc_subtries c = m # ms \<Longrightarrow>
    c_set_sync_trie_process_subtrie b m (length m) (cc_to c) = (Inr code, h) \<Longrightarrow>
    c_one_way a b c (c\<lparr>cc_to := h, cc_codes := cc_codes c @ [code], cc_subtries := ms\<rparr>)"
| c_answer: "c_set_sync_trie_read_acks buf (length buf) k (cc_to c) = (Inr (code, buf', number), h) \<Longrightarrow>
    c_one_way a b c (c\<lparr>cc_to := h, cc_codes := cc_codes c @ [code],
      cc_acks := cc_acks c @ (if 0 < code then [(take (nat code) buf', number)] else [])\<rparr>)"
| c_accept: "cc_acks c = (m, number) # ms \<Longrightarrow>
    c_set_sync_trie_process_acks a m (length m) number (cc_from c, cc_calls c) = (Inr code, (h, cs)) \<Longrightarrow>
    c_one_way a b c (c\<lparr>cc_from := h, cc_codes := cc_codes c @ [code], cc_acks := ms, cc_calls := cs\<rparr>)"

section \<open>The processes behind the handles\<close>

definition proc :: "SET_SYNC_HANDLE \<Rightarrow> sync" where
  "proc h = the (h_process h)"

definition handle_ok :: "SET_SYNC_HANDLE \<Rightarrow> bool" where
  "handle_ok h \<longleftrightarrow> h_process h \<noteq> None \<and> h_error h = Null"

definition abs_chan :: "c_chan \<Rightarrow> chan" where
  "abs_chan c = \<lparr>ch_from = proc (cc_from c), ch_to = proc (cc_to c), ch_subtries = cc_subtries c,
     ch_acks = cc_acks c, ch_handler = C_DiffHandler (cc_calls c)\<rparr>"

definition c_ok :: "c_chan \<Rightarrow> bool" where
  "c_ok c \<longleftrightarrow> handle_ok (cc_from c) \<and> handle_ok (cc_to c) \<and> list_all (\<lambda>code. 0 \<le> code) (cc_codes c)"

lemma handle_okE:
  assumes "handle_ok h"
  obtains sy where "h_process h = Some sy" "proc h = sy" "h_error h = Null"
  using assms by (auto simp: handle_ok_def proc_def)

lemma handle_ok_upd [simp]: "handle_ok h \<Longrightarrow> handle_ok (h\<lparr>h_process := Some sy\<rparr>)" "proc (h\<lparr>h_process := Some sy\<rparr>) = sy"
  by (simp_all add: handle_ok_def proc_def)

lemma is_C_report:
  "\<exists>cs'. report a ks (C_DiffHandler cs) = C_DiffHandler cs'"
  by (induction ks arbitrary: cs) (auto simp: report_def)

section \<open>What the calls return\<close>

lemma c_min_trie_buffer:
  "handle_ok h \<Longrightarrow> c_set a = Some l \<Longrightarrow> c_set_sync_min_trie_buffer a h = (Inr (getMinTrieBuffer l), h)"
  by (auto simp: c_set_sync_min_trie_buffer_def on_process_def ret_def handle_ok_def)

lemma c_get_subtrie:
  assumes "handle_ok h" "c_set a = Some l"
    "isSubtrieOutputAvailable l (proc h) = (True, sy)" "sync_getSubTrie l buf n sy = Inr (sz, buf', sy')"
  shows "c_set_sync_trie_get_subtrie a buf n h = (Inr (int sz, buf'), h\<lparr>h_process := Some sy'\<rparr>)"
  using assms by (auto simp: c_set_sync_trie_get_subtrie_def catch_all_def on_process_def proc_def handle_ok_def)

lemma no_output_unchanged: "isSubtrieOutputAvailable l sy = (False, sy') \<Longrightarrow> sy' = sy"
  by (auto simp: isSubtrieOutputAvailable_def Let_def split: if_splits option.splits)

lemma c_get_nothing:
  assumes "handle_ok h" "c_set a = Some l" "\<not> fst (isSubtrieOutputAvailable l (proc h))"
  shows "c_set_sync_trie_get_subtrie a buf n h = (Inr (0, buf), h)"
  using assms no_output_unchanged [of l "proc h"]
  by (cases "isSubtrieOutputAvailable l (proc h)")
    (auto simp: c_set_sync_trie_get_subtrie_def catch_all_def on_process_def proc_def handle_ok_def)

lemma c_process_subtrie:
  assumes "handle_ok h" "c_set b = Some r" "processSubTrie r m n (proc h) = (k, sy)"
  shows "c_set_sync_trie_process_subtrie b m n h = (Inr (int k), h\<lparr>h_process := Some sy\<rparr>)"
  using assms by (auto simp: c_set_sync_trie_process_subtrie_def catch_all_def on_process_def proc_def handle_ok_def)

lemma c_read_acks:
  assumes "handle_ok h" "readSomeTrieAcks buf n k (proc h) = (sz, buf', number, sy)"
  shows "c_set_sync_trie_read_acks buf n k h = (Inr (int sz, buf', number), h\<lparr>h_process := Some sy\<rparr>)"
  using assms by (auto simp: c_set_sync_trie_read_acks_def catch_all_def proc_def handle_ok_def)

lemma c_process_acks:
  assumes "handle_ok h" "c_set a = Some l" "processAcks l m n number (proc h, C_DiffHandler cs) = (Inr (), (sy, handler))"
  shows "c_set_sync_trie_process_acks a m n number (h, cs) = (Inr 0, (h\<lparr>h_process := Some sy\<rparr>, handler_calls handler))"
  using assms by (auto simp: c_set_sync_trie_process_acks_def catch_all_def with_callback_def proc_def handle_ok_def)

text \<open>Without an answer to give, or without room for it, nothing happens.\<close>

lemma no_answer:
  assumes "sy_pendingAcks sy = [] \<or> buf = []" "readSomeTrieAcks buf (length buf) k sy = (sz, buf', number, sy')"
  shows "sz = 0" "sy' = sy"
  using assms by (auto simp: readSomeTrieAcks_def split: if_splits)

lemma some_answer:
  assumes "sy_pendingAcks sy \<noteq> []" "buf \<noteq> []" "readSomeTrieAcks buf (length buf) k sy = (sz, buf', number, sy')"
  shows "0 < sz"
proof -
  have "0 < min (length buf * 8) (length (sy_pendingAcks sy))" using assms(1,2) by simp
  moreover have "0 < (n + 7) div 8" if "0 < n" for n :: nat using that by simp
  ultimately show ?thesis using assms by (auto simp: readSomeTrieAcks_def Let_def)
qed

section \<open>Every call is a step of the process, or changes nothing\<close>

lemma abs_chan_simps [simp]:
  "ch_from (abs_chan c) = proc (cc_from c)" "ch_to (abs_chan c) = proc (cc_to c)"
  "ch_subtries (abs_chan c) = cc_subtries c" "ch_acks (abs_chan c) = cc_acks c"
  "ch_handler (abs_chan c) = C_DiffHandler (cc_calls c)"
  by (simp_all add: abs_chan_def)

lemma callback_handler:
  assumes "chan_at a b t K (C_DiffHandler cs) c g"
  shows "C_DiffHandler (handler_calls (ch_handler c)) = ch_handler c"
  using assms is_C_report [of a "tr_keys g" cs] by (auto simp: chan_at_def)

lemma message_not_empty:
  assumes p: "sync_pair a b t ob" and c: "chan_at a b t K h0 c g" "m \<in> set (ch_subtries c)"
  shows "m \<noteq> []"
proof -
  obtain vs where vs: "vs \<in> set (tr_moving g)" "m = concat (map (hs_of a) vs)" "vs \<noteq> []" "set vs \<subseteq> set (subs t)"
  proof -
    have ct: "ch_subtries c = map (\<lambda>vs. concat (map (hs_of a) vs)) (tr_moving g)" "[] \<notin> set (tr_moving g)"
      "set (concat (tr_moving g)) \<subseteq> set (subs t)" using c(1) by (simp_all add: chan_at_def all_trees_def)
    obtain vs where "vs \<in> set (tr_moving g)" "m = concat (map (hs_of a) vs)" using c(2) unfolding ct(1) by auto
    then show thesis using that ct(2,3) by (metis UN_subset_iff set_concat)
  qed
  have "length m = length vs * set_hs a" using hs_of_lengths(2) [OF p vs(4)] vs(2) by simp
  then show ?thesis using vs(3) sync_pair_stored(4) [OF p] by auto
qed

lemma c_step_sim:
  assumes p: "sync_pair l r t ob" and c: "chan_at l r t K (C_DiffHandler cs0) (abs_chan c) g" and K: "K = set (tree_keys ob)"
    and sets: "c_set a = Some l" "c_set b = Some r" and ok: "c_ok c" and step: "c_one_way a b c c'"
  shows "c_ok c' \<and> (abs_chan c' = abs_chan c \<or> one_way l r (abs_chan c) (abs_chan c'))"
  using step
proof cases
  case (c_send n h0 buf code buf' h)
  have fo: "handle_ok (cc_from c)" using ok by (simp add: c_ok_def)
  have n: "getMinTrieBuffer l \<le> length buf" using c_send(2,3) c_min_trie_buffer [OF fo sets(1)] by simp
  show ?thesis
  proof (cases "tr_pend g")
    case Nil
    then have "code = 0" "h = cc_from c"
      using c_get_nothing [OF fo sets(1), of buf "length buf"] output_available [OF p c] c_send(4) by auto
    then show ?thesis using c_send(1) ok by (simp add: c_ok_def abs_chan_def)
  next
    case (Cons u us)
    let ?sy = "(ch_from (abs_chan c))\<lparr>sy_stat := TRIE, sy_pendingSubtries := map (hs_of l) (tr_pend g)\<rparr>"
    obtain sz b' sy' g' where s: "sync_getSubTrie l buf (length buf) ?sy = Inr (sz, b', sy')"
      "chan_at l r t K (C_DiffHandler cs0) ((abs_chan c)\<lparr>ch_from := sy', ch_subtries := cc_subtries c @ [take sz b']\<rparr>) g'"
      using send_step [OF p c Cons n] by auto
    have av: "isSubtrieOutputAvailable l (ch_from (abs_chan c)) = (True, ?sy)" using output_available [OF p c] Cons by simp
    have "0 < sz" using message_not_empty [OF p s(2), of "take sz b'"] by simp
    moreover have "code = int sz" "buf' = b'" "h = (cc_from c)\<lparr>h_process := Some sy'\<rparr>"
      using c_get_subtrie [OF fo sets(1) av [unfolded abs_chan_simps] s(1) [unfolded abs_chan_simps]] c_send(4) by simp_all
    ultimately show ?thesis
      using c_send(1) ok fo one_way.send [OF av n s(1), of r] by (simp add: c_ok_def abs_chan_def)
  qed
next
  case (c_receive m ms code h)
  obtain k sy where k: "processSubTrie r m (length m) (proc (cc_to c)) = (k, sy)" by fastforce
  have to: "handle_ok (cc_to c)" using ok by (simp add: c_ok_def)
  have "code = int k" "h = (cc_to c)\<lparr>h_process := Some sy\<rparr>" using c_process_subtrie [OF to sets(2) k] c_receive(3) by simp_all
  then show ?thesis using c_receive(1,2) ok to one_way.receive [of "abs_chan c" m ms r k sy l] k
    by (simp add: c_ok_def abs_chan_def)
next
  case (c_answer buf k code buf' number h)
  have to: "handle_ok (cc_to c)" using ok by (simp add: c_ok_def)
  obtain sz b' n' sy where r: "readSomeTrieAcks buf (length buf) k (proc (cc_to c)) = (sz, b', n', sy)" by (metis prod_cases4)
  have res: "code = int sz" "buf' = b'" "number = n'" "h = (cc_to c)\<lparr>h_process := Some sy\<rparr>"
    using c_read_acks [OF to r] c_answer(2) by simp_all
  show ?thesis
  proof (cases "sy_pendingAcks (proc (cc_to c)) = [] \<or> buf = []")
    case True
    then have "code = 0" "h = cc_to c" using no_answer [OF True r] res to by (auto simp: proc_def handle_ok_def)
    then show ?thesis using c_answer(1) ok by (simp add: c_ok_def abs_chan_def)
  next
    case False
    then have "isAckOutputAvailable (ch_to (abs_chan c))" "buf \<noteq> []" "0 < sz"
      using some_answer [OF _ _ r] by (auto simp: isAckOutputAvailable_def)
    then show ?thesis
      using c_answer(1) ok to res one_way.answer [of "abs_chan c" buf k sz b' n' sy l r] r by (simp add: c_ok_def abs_chan_def)
  qed
next
  case (c_accept m number ms code h cs)
  have fo: "handle_ok (cc_from c)" using ok by (simp add: c_ok_def)
  obtain sy hd' g' where a: "processAcks l m (length m) number (proc (cc_from c), C_DiffHandler (cc_calls c)) = (Inr (), (sy, hd'))"
    "chan_at l r t K (C_DiffHandler cs0) ((abs_chan c)\<lparr>ch_from := sy, ch_acks := ms, ch_handler := hd'\<rparr>) g'"
    using accept_step [OF p c K, of m number ms] c_accept(2) by auto
  have "code = 0" "h = (cc_from c)\<lparr>h_process := Some sy\<rparr>" "cs = handler_calls hd'"
    using c_process_acks [OF fo sets(1) a(1)] c_accept(3) by simp_all
  then show ?thesis
    using c_accept(1,2) ok fo one_way.accept [of "abs_chan c" m number ms l sy hd' r] a(1) callback_handler [OF a(2)]
    by (simp add: c_ok_def abs_chan_def)
qed

text \<open>And every step of the process is the effect of a call.\<close>

lemma c_step_back:
  assumes p: "sync_pair l r t ob" and c: "chan_at l r t K (C_DiffHandler cs0) (abs_chan c) g" and K: "K = set (tree_keys ob)"
    and sets: "c_set a = Some l" "c_set b = Some r" and ok: "c_ok c" and step: "one_way l r (abs_chan c) d"
  shows "\<exists>c'. c_one_way a b c c' \<and> abs_chan c' = d"
proof -
  have fo: "handle_ok (cc_from c)" and to: "handle_ok (cc_to c)" using ok by (simp_all add: c_ok_def)
  obtain g' where g': "chan_at l r t K (C_DiffHandler cs0) d g'" using one_way_step [OF p c K step] by blast
  from step show ?thesis
  proof cases
    case (send sy buf sz buf' sy')
    note s = c_get_subtrie [OF fo sets(1) send(2,4) [unfolded abs_chan_simps]]
    have "0 < sz" using message_not_empty [OF p g', of "take sz buf'"] send(1) by simp
    then show ?thesis
      using c_one_way.c_send [OF c_min_trie_buffer [OF fo sets(1)] send(3) s] send(1) by (fastforce simp: abs_chan_def)
  next
    case (receive m ms k sy)
    note s = c_process_subtrie [OF to sets(2) receive(3) [unfolded abs_chan_simps]]
    show ?thesis using c_one_way.c_receive [OF receive(2) [unfolded abs_chan_simps] s] receive(1) by (fastforce simp: abs_chan_def)
  next
    case (answer buf k sz buf' number sy)
    note s = c_read_acks [OF to answer(4) [unfolded abs_chan_simps]]
    have "0 < sz" using some_answer [OF _ answer(3,4)] answer(2) by (simp add: isAckOutputAvailable_def)
    then show ?thesis using c_one_way.c_answer [OF s] answer(1) by (fastforce simp: abs_chan_def)
  next
    case (accept m number ms sy h)
    note s = c_process_acks [OF fo sets(1) accept(3) [unfolded abs_chan_simps]]
    have "C_DiffHandler (handler_calls h) = h" using callback_handler [OF g'] accept(1) by simp
    then show ?thesis using c_one_way.c_accept [OF accept(2) [unfolded abs_chan_simps] s] accept(1)
      by (fastforce simp: abs_chan_def)
  qed
qed

section \<open>Both directions\<close>

record c_session =
  cs_l :: SET_SYNC_HANDLE
  cs_r :: SET_SYNC_HANDLE
  cs_lr :: "bytes list"
  cs_rl :: "bytes list"
  cs_acks_l :: "(bytes \<times> nat) list"
  cs_acks_r :: "(bytes \<times> nat) list"
  cs_calls_l :: calls
  cs_calls_r :: calls
  cs_codes :: "int list"

definition c_chan_l :: "c_session \<Rightarrow> c_chan" where
  "c_chan_l s = \<lparr>cc_from = cs_l s, cc_to = cs_r s, cc_subtries = cs_lr s, cc_acks = cs_acks_l s,
     cc_calls = cs_calls_l s, cc_codes = cs_codes s\<rparr>"

definition c_chan_r :: "c_session \<Rightarrow> c_chan" where
  "c_chan_r s = \<lparr>cc_from = cs_r s, cc_to = cs_l s, cc_subtries = cs_rl s, cc_acks = cs_acks_r s,
     cc_calls = cs_calls_r s, cc_codes = cs_codes s\<rparr>"

definition c_put_l :: "c_chan \<Rightarrow> c_session \<Rightarrow> c_session" where
  "c_put_l c s = s\<lparr>cs_l := cc_from c, cs_r := cc_to c, cs_lr := cc_subtries c, cs_acks_l := cc_acks c,
     cs_calls_l := cc_calls c, cs_codes := cc_codes c\<rparr>"

definition c_put_r :: "c_chan \<Rightarrow> c_session \<Rightarrow> c_session" where
  "c_put_r c s = s\<lparr>cs_r := cc_from c, cs_l := cc_to c, cs_rl := cc_subtries c, cs_acks_r := cc_acks c,
     cs_calls_r := cc_calls c, cs_codes := cc_codes c\<rparr>"

inductive c_two_way :: "SET \<Rightarrow> SET \<Rightarrow> c_session \<Rightarrow> c_session \<Rightarrow> bool" for a b where
  c_left: "c_one_way a b (c_chan_l s) c \<Longrightarrow> c_two_way a b s (c_put_l c s)"
| c_right: "c_one_way b a (c_chan_r s) c \<Longrightarrow> c_two_way a b s (c_put_r c s)"

text \<open>Two handles that were just made.\<close>

definition c_session_init :: "SET_SYNC_HANDLE \<Rightarrow> SET_SYNC_HANDLE \<Rightarrow> c_session" where
  "c_session_init hl hr = \<lparr>cs_l = hl, cs_r = hr, cs_lr = [], cs_rl = [], cs_acks_l = [], cs_acks_r = [],
     cs_calls_l = [], cs_calls_r = [], cs_codes = []\<rparr>"

definition abs_session :: "c_session \<Rightarrow> session" where
  "abs_session s = \<lparr>se_l = proc (cs_l s), se_r = proc (cs_r s), se_lr = cs_lr s, se_rl = cs_rl s,
     se_acks_l = cs_acks_l s, se_acks_r = cs_acks_r s,
     se_hl = C_DiffHandler (cs_calls_l s), se_hr = C_DiffHandler (cs_calls_r s)\<rparr>"

definition cs_ok :: "c_session \<Rightarrow> bool" where
  "cs_ok s \<longleftrightarrow> handle_ok (cs_l s) \<and> handle_ok (cs_r s) \<and> list_all (\<lambda>code. 0 \<le> code) (cs_codes s)"

lemma abs_chans: "abs_chan (c_chan_l s) = chan_l (abs_session s)" "abs_chan (c_chan_r s) = chan_r (abs_session s)"
  by (simp_all add: abs_chan_def abs_session_def c_chan_l_def c_chan_r_def chan_l_def chan_r_def)

lemma abs_puts: "abs_session (c_put_l c s) = put_l (abs_chan c) (abs_session s)"
  "abs_session (c_put_r c s) = put_r (abs_chan c) (abs_session s)"
  by (simp_all add: abs_chan_def abs_session_def c_put_l_def c_put_r_def put_l_def put_r_def)

lemma put_same: "put_l (chan_l s) s = s" "put_r (chan_r s) s = s"
  by (simp_all add: put_l_def put_r_def chan_l_def chan_r_def)

lemma cs_ok_chans: "c_ok (c_chan_l s) \<longleftrightarrow> cs_ok s" "c_ok (c_chan_r s) \<longleftrightarrow> cs_ok s"
  by (auto simp: c_ok_def cs_ok_def c_chan_l_def c_chan_r_def)

lemma cs_ok_puts: "cs_ok (c_put_l c s) \<longleftrightarrow> c_ok c" "cs_ok (c_put_r c s) \<longleftrightarrow> c_ok c"
  by (auto simp: c_ok_def cs_ok_def c_put_l_def c_put_r_def)

abbreviation at_session :: "set_state \<Rightarrow> set_state \<Rightarrow> ptree \<Rightarrow> ptree \<Rightarrow> session \<Rightarrow> trees \<Rightarrow> trees \<Rightarrow> bool" where
  "at_session l r t1 t2 \<equiv> session_inv l r t1 t2 (C_DiffHandler []) (C_DiffHandler [])"

lemma c_session_sim:
  assumes two: "two_sets l r t1 t2" and inv: "at_session l r t1 t2 (abs_session s) gl gr"
    and sets: "c_set a = Some l" "c_set b = Some r" and ok: "cs_ok s" and step: "c_two_way a b s s'"
  shows "cs_ok s' \<and> (two_way l r)\<^sup>*\<^sup>* (abs_session s) (abs_session s')"
proof -
  have c: "chan_at l r t1 (keys t2) (C_DiffHandler []) (abs_chan (c_chan_l s)) gl"
    "chan_at r l t2 (keys t1) (C_DiffHandler []) (abs_chan (c_chan_r s)) gr"
    using inv by (simp_all add: session_inv_def abs_chans)
  note p = two_sets_pairs [OF two]
  from step show ?thesis
  proof cases
    case (c_left d)
    have "c_ok d \<and> (abs_chan d = abs_chan (c_chan_l s) \<or> one_way l r (abs_chan (c_chan_l s)) (abs_chan d))"
      by (rule c_step_sim [OF p(1) c(1) _ sets _ c_left(2)]) (simp_all add: ok cs_ok_chans)
    then show ?thesis
      using two_way.left [of l r "abs_session s" "abs_chan d"] c_left(1) put_same(1)
      by (auto simp: cs_ok_puts abs_puts abs_chans)
  next
    case (c_right d)
    have "c_ok d \<and> (abs_chan d = abs_chan (c_chan_r s) \<or> one_way r l (abs_chan (c_chan_r s)) (abs_chan d))"
      by (rule c_step_sim [OF p(2) c(2) _ sets(2,1) _ c_right(2)]) (simp_all add: ok cs_ok_chans)
    then show ?thesis
      using two_way.right [of r l "abs_session s" "abs_chan d"] c_right(1) put_same(2)
      by (auto simp: cs_ok_puts abs_puts abs_chans)
  qed
qed

lemma c_session_back:
  assumes two: "two_sets l r t1 t2" and inv: "at_session l r t1 t2 (abs_session s) gl gr"
    and sets: "c_set a = Some l" "c_set b = Some r" and ok: "cs_ok s" and step: "two_way l r (abs_session s) d"
  shows "\<exists>s'. c_two_way a b s s' \<and> abs_session s' = d"
proof -
  have c: "chan_at l r t1 (keys t2) (C_DiffHandler []) (abs_chan (c_chan_l s)) gl"
    "chan_at r l t2 (keys t1) (C_DiffHandler []) (abs_chan (c_chan_r s)) gr"
    using inv by (simp_all add: session_inv_def abs_chans)
  note p = two_sets_pairs [OF two]
  from step show ?thesis
  proof cases
    case (left e)
    have "\<exists>c'. c_one_way a b (c_chan_l s) c' \<and> abs_chan c' = e"
      by (rule c_step_back [OF p(1) c(1) _ sets]) (simp_all add: ok cs_ok_chans abs_chans left)
    then show ?thesis using left(1) c_left abs_puts(1) by metis
  next
    case (right e)
    have "\<exists>c'. c_one_way b a (c_chan_r s) c' \<and> abs_chan c' = e"
      by (rule c_step_back [OF p(2) c(2) _ sets(2,1)]) (simp_all add: ok cs_ok_chans abs_chans right)
    then show ?thesis using right(1) c_right abs_puts(2) by metis
  qed
qed

section \<open>Runs\<close>

definition c_start :: "SET \<Rightarrow> SET \<Rightarrow> SET_SYNC_HANDLE \<Rightarrow> SET_SYNC_HANDLE \<Rightarrow> bool" where
  "c_start a b hl hr \<longleftrightarrow> (\<exists>h h'. c_set_sync_init_handle (a, h) = (Inr 0, (a, hl)) \<and>
     c_set_sync_init_handle (b, h') = (Inr 0, (b, hr)))"

lemma c_start_abs:
  assumes "c_start a b hl hr"
  shows "cs_ok (c_session_init hl hr)"
    "abs_session (c_session_init hl hr) = session_init (C_DiffHandler []) (C_DiffHandler [])"
  using assms
  by (auto simp: c_start_def c_set_sync_init_handle_def Let_def cs_ok_def handle_ok_def proc_def c_session_init_def
      abs_session_def session_init_def split: option.splits)

lemma c_session_reach:
  assumes two: "two_sets l r t1 t2" and sets: "c_set a = Some l" "c_set b = Some r"
    and start: "c_start a b hl hr" and run: "(c_two_way a b)\<^sup>*\<^sup>* (c_session_init hl hr) s"
  shows "cs_ok s \<and> (two_way l r)\<^sup>*\<^sup>* (session_init (C_DiffHandler []) (C_DiffHandler [])) (abs_session s)"
  using run
proof (induction rule: rtranclp_induct)
  case base
  then show ?case by (simp add: c_start_abs [OF start])
next
  case (step s s')
  obtain gl gr where "at_session l r t1 t2 (abs_session s) gl gr" using session_reach [OF two] step.IH by blast
  from c_session_sim [OF two this sets _ step.hyps(2)] step.IH show ?case by auto
qed

lemma c_session_follow:
  assumes two: "two_sets l r t1 t2" and sets: "c_set a = Some l" "c_set b = Some r"
    and start: "c_start a b hl hr" and run: "(c_two_way a b)\<^sup>*\<^sup>* (c_session_init hl hr) s"
    and follow: "(two_way l r)\<^sup>*\<^sup>* (abs_session s) d"
  shows "\<exists>s'. (c_two_way a b)\<^sup>*\<^sup>* s s' \<and> abs_session s' = d"
  using follow
proof (induction rule: rtranclp_induct)
  case base
  then show ?case by blast
next
  case (step d e)
  then obtain s' where s': "(c_two_way a b)\<^sup>*\<^sup>* s s'" "abs_session s' = d" by blast
  then have r: "(c_two_way a b)\<^sup>*\<^sup>* (c_session_init hl hr) s'" using run by simp
  note reach = c_session_reach [OF two sets start r]
  obtain gl gr where "at_session l r t1 t2 (abs_session s') gl gr" using session_reach [OF two] reach by blast
  from c_session_back [OF two this sets] reach step.hyps(2) s' show ?case
    by (metis rtranclp.rtrancl_into_rtrancl)
qed

lemma c_done: "handle_ok h \<Longrightarrow> c_set_sync_done h = (Inr (int_of_bool (sync_done (proc h))), h)"
  by (auto simp: c_set_sync_done_def ask_process_def handle_ok_def proc_def)

end
