(* ===== verification/CPeer.thy ===== *)
theory CPeer
  imports CSession SetRep CountingDiff
begin

text \<open>
  A program that uses one \<^verbatim>\<open>SET_SYNC_HANDLE\<close> while nothing is known of the other side: it calls
  the functions of \<^verbatim>\<open>setsync/set.h\<close> in any order, with any buffers, what it passes on may be any
  bytes, and its set may be another one at every call, because keys were inserted or erased in
  between.  The hashes in the queues of the process are then still hashes of nodes that its set
  had at one of the calls.
\<close>

datatype sync_call =
    Get_root_hash bytes
  | Is_equal bytes
  | Bf_read bytes
  | Bf_process bytes
  | Get_subtrie bytes
  | Process_subtrie bytes
  | Output_avail
  | Read_acks bytes nat
  | Process_acks bytes nat
  | Acks_avail
  | Is_done

definition handle_part :: "(SET_SYNC_HANDLE, 'a) prog \<Rightarrow> ('a \<Rightarrow> int) \<Rightarrow> (SET_SYNC_HANDLE \<times> calls, int) prog" where
  "handle_part m f = (\<lambda>(h, cs). case m h of (r, h) \<Rightarrow> (map_sum id f r, (h, cs)))"

fun c_call :: "SET \<Rightarrow> sync_call \<Rightarrow> (SET_SYNC_HANDLE \<times> calls, int) prog" where
  "c_call s (Get_root_hash buf) = handle_part (c_set_sync_get_root_hash s buf) fst"
| "c_call s (Is_equal hash) = handle_part (c_set_sync_is_equal_to_hash s hash) id"
| "c_call s (Bf_read buf) = handle_part (c_set_sync_bf_read_next_chunk s buf (length buf)) (\<lambda>(n, _). int n)"
| "c_call s (Bf_process m) = c_set_sync_bf_process_chunk s m (length m)"
| "c_call s (Get_subtrie buf) = handle_part (c_set_sync_trie_get_subtrie s buf (length buf)) fst"
| "c_call s (Process_subtrie m) = handle_part (c_set_sync_trie_process_subtrie s m (length m)) id"
| "c_call s Output_avail = handle_part (c_set_sync_trie_subtrie_output_avail s) id"
| "c_call s (Read_acks buf number) = handle_part (c_set_sync_trie_read_acks buf (length buf) number) fst"
| "c_call s (Process_acks m number) = c_set_sync_trie_process_acks s m (length m) number"
| "c_call s Acks_avail = handle_part c_set_sync_trie_acks_avail id"
| "c_call s Is_done = handle_part c_set_sync_done id"

fun c_call_all :: "(SET \<times> sync_call) list \<Rightarrow> (SET_SYNC_HANDLE \<times> calls, int list) prog" where
  "c_call_all [] = ret []"
| "c_call_all ((s, x) # xs) = bindE (c_call s x) (\<lambda>r. bindE (c_call_all xs) (\<lambda>rs. ret (r # rs)))"

section \<open>The type of a process\<close>

text \<open>\<open>Z\<close> are the states of the set at the calls, with the trees in their tries.\<close>

type_synonym set_states = "(set_state \<times> ptree option) set"

definition set_states_ok :: "nat \<Rightarrow> set_states \<Rightarrow> bool" where
  "set_states_ok n Z \<longleftrightarrow> (\<forall>(x, ot) \<in> Z. set_ok x ot \<and> set_hs x = n)"

definition own_hashes :: "set_states \<Rightarrow> bytes set" where
  "own_hashes Z = (\<Union>(x, ot) \<in> Z. hs_of x ` \<Union> (set ` subs ` set_option ot))"

definition own_keys :: "set_states \<Rightarrow> bytes set" where
  "own_keys Z = (\<Union>(x, ot) \<in> Z. set (tree_keys ot))"

definition sync_typed :: "set_states \<Rightarrow> sync \<Rightarrow> bool" where
  "sync_typed Z sy \<longleftrightarrow> set (sy_sentHashes sy) \<subseteq> own_hashes Z \<and> set (sy_pendingSubtries sy) \<subseteq> own_hashes Z"

definition calls_typed :: "nat \<Rightarrow> set_states \<Rightarrow> calls \<Rightarrow> bool" where
  "calls_typed m Z cs \<longleftrightarrow> list_all (\<lambda>(k, n, e). k \<in> own_keys Z \<and> n = m \<and> e) cs"

lemma own_hashI: "(x, Some t) \<in> Z \<Longrightarrow> u \<in> set (subs t) \<Longrightarrow> hs_of x u \<in> own_hashes Z"
  by (force simp: own_hashes_def)

lemma own_keyI: "(x, ot) \<in> Z \<Longrightarrow> k \<in> set (tree_keys ot) \<Longrightarrow> k \<in> own_keys Z"
  by (auto simp: own_keys_def)

lemma sync_typed_simps [simp]:
  "sync_typed Z (sy\<lparr>sy_stat := st\<rparr>) = sync_typed Z sy"
  "sync_typed Z (sy\<lparr>sy_sentBytes := n\<rparr>) = sync_typed Z sy"
  "sync_typed Z (sy\<lparr>sy_receivedBytes := n\<rparr>) = sync_typed Z sy"
  "sync_typed Z (sy\<lparr>sy_pendingAcks := as\<rparr>) = sync_typed Z sy"
  "sync_typed Z (sy\<lparr>sy_bfOut_pos := n\<rparr>) = sync_typed Z sy"
  "sync_typed Z (sy\<lparr>sy_bfIn_pos := n\<rparr>) = sync_typed Z sy"
  "sync_typed Z (sy\<lparr>sy_bfOutIsFinished := b\<rparr>) = sync_typed Z sy"
  by (simp_all add: sync_typed_def)

lemma set_ok_trie:
  assumes "set_ok x ot"
  shows "trie_hash (set_env x)" "trie_ok (set_env x) (set_trie x) ot" "getRootHash x = map_option (hs_of x) ot"
    "kvc_ok (set_bf x) (set (tree_keys ot))" "k \<in> set (tree_keys ot) \<Longrightarrow> length k = set_hs x"
  using assms trie_hash.getRoot_tree [of "set_env x" "set_trie x" ot]
  by (auto simp: set_ok_def set_inv_def getRootHash_def keys_ok_def)

lemma set_states_okD: "set_states_ok n Z \<Longrightarrow> (x, ot) \<in> Z \<Longrightarrow> set_ok x ot \<and> set_hs x = n"
  by (auto simp: set_states_ok_def)

lemma own_hash_length:
  assumes "set_states_ok n Z" "h \<in> own_hashes Z"
  shows "length h = n"
proof -
  obtain x t u where u: "(x, Some t) \<in> Z" "u \<in> set (subs t)" "h = hs_of x u"
    using assms(2) by (auto simp: own_hashes_def)
  note x = set_states_okD [OF assms(1) u(1)] and ok = set_ok_trie [OF conjunct1 [OF set_states_okD [OF assms(1) u(1)]]]
  have "wf_tree (te_size (set_env x)) u" using trie_hash.trie_ok_wf [OF ok(1,2)] u(2) subs_wf by auto
  from crypto_hash.length_thash [OF trie_hash.axioms(1) [OF ok(1)] this] show ?thesis using x u(3) by simp
qed

lemma root_own: "set_states_ok n Z \<Longrightarrow> (x, ot) \<in> Z \<Longrightarrow> getRootHash x = Some h \<Longrightarrow> h \<in> own_hashes Z"
  using set_ok_trie(3) [of x ot] subs_self own_hashI set_states_okD by (cases ot) fastforce+

lemma typed_output_available:
  assumes "set_states_ok n Z" "(x, ot) \<in> Z" "sync_typed Z sy" "isSubtrieOutputAvailable x sy = (av, sy')"
  shows "sync_typed Z sy'"
  using assms(3,4) root_own [OF assms(1,2)]
  by (auto simp: isSubtrieOutputAvailable_def Let_def sync_typed_def split: if_splits option.splits)

text \<open>A hash that is no longer in the trie is not found, and its subtrie is dropped.\<close>

lemma getSubTrie_missing:
  assumes "contains env ts h = NOT_FOUND" "2 \<le> n div te_size env"
  shows "getSubTrie env ts h buf n = Inl TrieNodeNotFoundException"
  using assms by (auto simp: getSubTrie_def contains_def load_node_def bindE_def Let_def split: option.splits if_splits)

lemma contains_none:
  assumes "set_ok x ot" "length h = set_hs x" "h \<notin> own_hashes {(x, ot)}"
  shows "contains (set_env x) (set_trie x) h = NOT_FOUND"
proof (cases ot)
  case None
  then show ?thesis using trie_hash.contains_empty [OF set_ok_trie(1) [OF assms(1)]] set_ok_trie(2) [OF assms(1)] assms(2) by simp
next
  case (Some t)
  then have "h \<notin> node_hashes (set_env x) t" using assms(3) by (auto simp: own_hashes_def node_hashes_def)
  moreover have "h \<notin> keys t" using assms(3) Some by (force simp: own_hashes_def key_Tip_subs)
  ultimately show ?thesis
    using trie_hash.contains_tree [OF set_ok_trie(1) [OF assms(1)]] set_ok_trie(2) [OF assms(1)] Some assms(2) by simp
qed

lemma typed_getSubTrie:
  assumes Z: "set_states_ok n Z" "(x, ot) \<in> Z"
  shows "sync_typed Z sy \<Longrightarrow> \<exists>sz buf' sy'. sync_getSubTrie x buf (length buf) sy = Inr (sz, buf', sy') \<and> sync_typed Z sy'"
proof (induction "sy_pendingSubtries sy" arbitrary: sy)
  case Nil
  then show ?case by (simp add: sync_getSubTrie.simps split: list.split)
next
  case (Cons front rest)
  have ok: "set_ok x ot" "set_hs x = n" using set_states_okD [OF Z] by simp_all
  note st = set_ok_trie [OF ok(1)]
  have front: "front \<in> own_hashes Z" using Cons.hyps(2) Cons.prems unfolding sync_typed_def by (metis list.set_intros(1) subsetD)
  have rest: "sync_typed Z (sy\<lparr>sy_pendingSubtries := rest\<rparr>)"
    using Cons.hyps(2) [symmetric] Cons.prems by (simp add: sync_typed_def)
  have drop: ?case if "getSubTrie (set_env x) (set_trie x) front buf (length buf) = Inl e" "e \<noteq> OutOfFuel" for e
    using that Cons.hyps(1) [OF _ rest] Cons.hyps(2) [symmetric]
    by (simp add: sync_getSubTrie.simps [of x buf "length buf" sy])
  show ?case
  proof (cases "length buf div set_hs x < 2")
    case True
    then show ?thesis by (intro drop [of "CString ''buffer is too small!''"]) (simp_all add: getSubTrie_def)
  next
    case False
    then have m: "2 \<le> length buf div te_size (set_env x)" by simp
    show ?thesis
    proof (cases "front \<in> own_hashes {(x, ot)}")
      case gone: False
      have "contains (set_env x) (set_trie x) front = NOT_FOUND"
        using contains_none [OF ok(1) _ gone] own_hash_length [OF Z(1) front] ok(2) by simp
      then show ?thesis using drop [OF getSubTrie_missing [OF _ m]] by simp
    next
      case True
      then obtain t u where t: "ot = Some t" "u \<in> set (subs t)" "front = hs_of x u" by (auto simp: own_hashes_def)
      obtain vs where vs: "getSubTrie (set_env x) (set_trie x) front buf (length buf) =
          Inr (length vs * set_hs x, memcpy_at buf 0 (concat (map (hs_of x) vs)))"
        "set vs \<subseteq> set (subs t)" "length vs \<le> length buf div set_hs x"
        using trie_hash.getSubTrie_run [OF st(1) st(2) [unfolded t(1)] t(2) m, of buf] unfolding t(3) te_size_env by blast
      have own: "hs_of x v \<in> own_hashes Z" if "v \<in> set vs" for v using own_hashI [OF Z(2) [unfolded t(1)]] vs(2) that by blast
      then have l: "list_all (\<lambda>x'. length x' = set_hs x) (map (hs_of x) vs)"
        using own_hash_length [OF Z(1)] ok(2) by (auto simp: list_all_iff)
      have pos: "0 < set_hs x" using trie_hash.size_pos [OF st(1)] by simp
      have "map (\<lambda>i. slice (i * set_hs x) (set_hs x) (memcpy_at buf 0 (concat (map (hs_of x) vs)))) [0..<length vs] = map (hs_of x) vs"
        using hashes_split [OF l] by (simp add: memcpy_at_def)
      then show ?thesis using vs(1) own pos Cons.prems rest Cons.hyps(2) [symmetric]
        by (auto simp: sync_getSubTrie.simps [of x buf "length buf" sy] Let_def sync_typed_def)
    qed
  qed
qed

lemma calls_typed_handle:
  assumes "set_states_ok n Z" "(x, ot) \<in> Z" "k \<in> set (tree_keys ot)" "calls_typed n Z cs"
  shows "\<exists>cs'. handle k (set_hs x) True (C_DiffHandler cs) = C_DiffHandler cs' \<and> calls_typed n Z cs'"
  using assms(3,4) own_keyI [OF assms(2,3)] set_ok_trie(5) [of x ot k] set_states_okD [OF assms(1,2)]
  by (simp add: c_handle_def calls_typed_def)

lemma typed_process_ack:
  assumes Z: "set_states_ok n Z" "(x, ot) \<in> Z" and sy: "sync_typed Z sy" and ne: "sy_sentHashes sy \<noteq> []" and cs: "calls_typed n Z cs"
  shows "\<exists>sy' cs'. process_ack x m i (sy, C_DiffHandler cs) = (sy', C_DiffHandler cs') \<and> sync_typed Z sy' \<and>
    calls_typed n Z cs' \<and> length (sy_sentHashes sy') = length (sy_sentHashes sy) - 1"
proof -
  have ok: "set_ok x ot" "set_hs x = n" using set_states_okD [OF Z] by simp_all
  obtain front rest where fr: "sy_sentHashes sy = front # rest" using ne by (cases "sy_sentHashes sy") auto
  then have "length front = te_size (set_env x)" using sy own_hash_length [OF Z(1), of front] ok(2) by (simp add: sync_typed_def)
  then have leaf: "contains (set_env x) (set_trie x) front = LEAF_NODE \<longleftrightarrow> front \<in> set (tree_keys ot)"
    by (rule contains_leaf [OF set_ok_trie(1,2) [OF ok(1)]])
  show ?thesis
  proof (cases "contains (set_env x) (set_trie x) front = LEAF_NODE")
    case True
    then obtain cs' where "handle front (set_hs x) True (C_DiffHandler cs) = C_DiffHandler cs'" "calls_typed n Z cs'"
      using calls_typed_handle [OF Z _ cs, of front] leaf by auto
    then show ?thesis using fr sy cs True by (auto simp: process_ack_def Let_def sync_typed_def)
  next
    case False
    then show ?thesis using fr sy cs root_own [OF Z]
      by (auto simp: process_ack_def Let_def sync_typed_def split: TrieNodeType.split option.split)
  qed
qed

lemma typed_process_acks:
  assumes Z: "set_states_ok n Z" "(x, ot) \<in> Z" and sy: "sync_typed Z sy" and cs: "calls_typed n Z cs"
  shows "\<exists>r sy' cs'. processAcks x m len number (sy, C_DiffHandler cs) = (r, (sy', C_DiffHandler cs')) \<and>
    (r = Inr () \<or> r = Inl (CString ''illegal input length'')) \<and> sync_typed Z sy' \<and> calls_typed n Z cs'"
proof -
  have "\<exists>sy' cs'. fold (process_ack x m) [j..<j + l] (sy, C_DiffHandler cs) = (sy', C_DiffHandler cs') \<and>
      sync_typed Z sy' \<and> calls_typed n Z cs'" if "l \<le> length (sy_sentHashes sy)" for j l
    using that sy cs
  proof (induction l arbitrary: j sy cs)
    case (Suc l)
    have "sy_sentHashes sy \<noteq> []" using Suc.prems(1) by auto
    from typed_process_ack [OF Z Suc.prems(2) this Suc.prems(3), of m j]
    obtain sy1 cs1 where 1: "process_ack x m j (sy, C_DiffHandler cs) = (sy1, C_DiffHandler cs1)" "sync_typed Z sy1"
      "calls_typed n Z cs1" "l \<le> length (sy_sentHashes sy1)" using Suc.prems(1) by fastforce
    have "[j..<j + Suc l] = j # [Suc j..<Suc j + l]" by (simp add: upt_rec)
    then show ?case using Suc.IH [OF 1(4,2,3), of "Suc j"] 1(1) by simp
  qed simp
  from this [of number 0] show ?thesis using sy cs by (auto simp: processAcks_def)
qed

lemma typed_bf:
  assumes Z: "set_states_ok n Z" "(x, ot) \<in> Z" and sy: "sync_typed Z sy" and cs: "calls_typed n Z cs"
  shows "\<exists>r sy' cs'. processBloomFilterChunk x m (length m) (sy, C_DiffHandler cs) = (r, (sy', C_DiffHandler cs')) \<and>
    (r = Inr () \<or> r = Inl (CString '''')) \<and> sync_typed Z sy' \<and> calls_typed n Z cs'"
proof (cases "kvc_diff (set_bf x) m (length m) (sy_bfIn_pos sy)")
  case (Inl e)
  then have "e = CString ''''" by (auto simp: kvc_diff_def split: if_splits)
  then show ?thesis using Inl sy cs by (auto simp: processBloomFilterChunk_def)
next
  case (Inr hs)
  note st = set_ok_trie [OF conjunct1 [OF set_states_okD [OF Z]]]
  have rd: "kvc_reads (set_bf x) (set (tree_keys ot))" using kvc_ok_reads [OF st(4)] .
  then have "fs_ok (kb_bf (set_bf x))" by (simp add: kvc_reads_def)
  then have "length m + sy_bfIn_pos sy \<le> length (bitArray (kb_bf (set_bf x)))"
    using Inr fs_bytes [of "kb_bf (set_bf x)"] by (simp add: kvc_diff_def split: if_splits)
  from kvc_diff_run [OF rd order_refl this] have hs: "set hs \<subseteq> set (tree_keys ot)" using Inr by auto
  have "\<exists>cs'. fold (\<lambda>h. handler_call h (set_hs x) True) hs (C_DiffHandler cs) = C_DiffHandler cs' \<and> calls_typed n Z cs'"
    using hs cs
  proof (induction hs arbitrary: cs)
    case (Cons h hs)
    obtain cs1 where "handle h (set_hs x) True (C_DiffHandler cs) = C_DiffHandler cs1" "calls_typed n Z cs1"
      using calls_typed_handle [OF Z _ Cons.prems(2), of h] Cons.prems(1) by auto
    then show ?case using Cons.IH [of cs1] Cons.prems(1) by (simp add: handler_call_def)
  qed simp
  then show ?thesis using Inr sy by (auto simp: processBloomFilterChunk_def)
qed

section \<open>Every call keeps the type\<close>

definition handle_typed :: "nat \<Rightarrow> set_states \<Rightarrow> SET_SYNC_HANDLE \<times> calls \<Rightarrow> bool" where
  "handle_typed n Z = (\<lambda>(h, cs). h_error h \<in> {Null, Msg ''unknown error''} \<and>
     (\<exists>sy. h_process h = Some sy \<and> sync_typed Z sy) \<and> calls_typed n Z cs)"

text \<open>The functions that cannot throw.\<close>

lemma on_process_typed:
  assumes "c_set a = Some x" "handle_typed n Z (h, cs)"
    and "\<And>sy. sync_typed Z sy \<Longrightarrow> \<exists>v sy'. m x sy = (Inr v, sy') \<and> sync_typed Z sy'"
  shows "\<exists>v h'. handle_catch e (on_process a m) h = (Inr v, h') \<and> handle_typed n Z (h', cs)"
proof -
  obtain sy where sy: "h_process h = Some sy" "sync_typed Z sy" using assms(2) by (auto simp: handle_typed_def)
  obtain v sy' where "m x sy = (Inr v, sy')" "sync_typed Z sy'" using assms(3) [OF sy(2)] by blast
  then show ?thesis using sy assms(1,2) by (auto simp: catch_all_def on_process_def handle_typed_def)
qed

lemma handle_part_typed:
  "\<exists>v h'. m h = (Inr v, h') \<and> handle_typed n Z (h', cs) \<Longrightarrow>
   \<exists>c s'. handle_part m f (h, cs) = (Inr c, s') \<and> handle_typed n Z s'"
  by (auto simp: handle_part_def)

text \<open>The functions with a callback: what they throw is caught.\<close>

lemma with_callback_typed:
  assumes "c_set a = Some x" "handle_typed n Z (h, cs)"
    and "\<And>sy. sync_typed Z sy \<Longrightarrow> \<exists>r sy' cs'. m x (sy, C_DiffHandler cs) = (r, (sy', C_DiffHandler cs')) \<and>
      (r = Inr () \<or> r = Inl (CString msg)) \<and> sync_typed Z sy' \<and> calls_typed n Z cs'"
  shows "\<exists>c s'. callback_catch (with_callback m a) (h, cs) = (Inr c, s') \<and> handle_typed n Z s'"
proof -
  obtain sy where sy: "h_process h = Some sy" "sync_typed Z sy" using assms(2) by (auto simp: handle_typed_def)
  obtain r sy' cs' where "m x (sy, C_DiffHandler cs) = (r, (sy', C_DiffHandler cs'))" "r = Inr () \<or> r = Inl (CString msg)"
    "sync_typed Z sy'" "calls_typed n Z cs'" using assms(3) [OF sy(2)] by blast
  then show ?thesis using sy assms(1,2)
    by (auto simp: catch_all_def with_callback_def handle_typed_def is_exception_def record_error_def error_text_def)
qed

lemma c_call_typed:
  assumes x: "c_set a = Some x" "set_states_ok n Z" "(x, ot) \<in> Z" and h: "handle_typed n Z (h, cs)"
  shows "\<exists>c s'. c_call a call (h, cs) = (Inr c, s') \<and> handle_typed n Z s'"
proof (cases call)
  case (Get_root_hash buf)
  show ?thesis unfolding Get_root_hash c_call.simps c_set_sync_get_root_hash_def
    by (intro handle_part_typed on_process_typed [OF x(1) h]) (simp add: ret_def split: option.split)
next
  case (Is_equal hash)
  show ?thesis unfolding Is_equal c_call.simps c_set_sync_is_equal_to_hash_def
    by (intro handle_part_typed on_process_typed [OF x(1) h]) (auto simp: isEqual_def split: option.split)
next
  case (Bf_read buf)
  show ?thesis unfolding Bf_read c_call.simps c_set_sync_bf_read_next_chunk_def
    by (intro handle_part_typed on_process_typed [OF x(1) h]) (simp add: readNextBloomFilterChunk_def Let_def)
next
  case (Bf_process m)
  show ?thesis unfolding Bf_process c_call.simps c_set_sync_bf_process_chunk_def
    by (rule with_callback_typed [OF x(1) h]) (rule typed_bf [OF x(2,3)], use h in \<open>simp_all add: handle_typed_def\<close>)
next
  case (Get_subtrie buf)
  show ?thesis unfolding Get_subtrie c_call.simps c_set_sync_trie_get_subtrie_def
  proof (intro handle_part_typed on_process_typed [OF x(1) h])
    fix sy assume sy: "sync_typed Z sy"
    obtain av sy1 where 1: "isSubtrieOutputAvailable x sy = (av, sy1)" "sync_typed Z sy1"
      using typed_output_available [OF x(2,3) sy] by (cases "isSubtrieOutputAvailable x sy") auto
    then show "\<exists>v sy'. (case isSubtrieOutputAvailable x sy of (avail, sy) \<Rightarrow>
        if avail then (case sync_getSubTrie x buf (length buf) sy of Inl e \<Rightarrow> (Inl e, sy)
          | Inr (subtriesize, buf, sy) \<Rightarrow> (Inr (int subtriesize, buf), sy))
        else (Inr (0, buf), sy)) = (Inr v, sy') \<and> sync_typed Z sy'"
      using typed_getSubTrie [OF x(2,3) 1(2), of buf] by (cases av) auto
  qed
next
  case (Process_subtrie m)
  show ?thesis unfolding Process_subtrie c_call.simps c_set_sync_trie_process_subtrie_def
    by (intro handle_part_typed on_process_typed [OF x(1) h]) (simp add: processSubTrie_def Let_def)
next
  case Output_avail
  show ?thesis unfolding Output_avail c_call.simps c_set_sync_trie_subtrie_output_avail_def
    by (intro handle_part_typed on_process_typed [OF x(1) h])
      (use typed_output_available [OF x(2,3)] in \<open>auto split: prod.split\<close>)
next
  case (Read_acks buf number)
  show ?thesis using h unfolding Read_acks
    by (auto simp: handle_part_def c_set_sync_trie_read_acks_def catch_all_def readSomeTrieAcks_def Let_def handle_typed_def)
next
  case (Process_acks m number)
  show ?thesis unfolding Process_acks c_call.simps c_set_sync_trie_process_acks_def
    by (rule with_callback_typed [OF x(1) h]) (rule typed_process_acks [OF x(2,3)], use h in \<open>simp_all add: handle_typed_def\<close>)
next
  case Acks_avail
  show ?thesis using h unfolding Acks_avail
    by (auto simp: handle_part_def c_set_sync_trie_acks_avail_def catch_all_def ask_process_def handle_typed_def)
next
  case Is_done
  show ?thesis using h unfolding Is_done
    by (auto simp: handle_part_def c_set_sync_done_def ask_process_def handle_typed_def)
qed

lemma c_call_all_typed:
  assumes "set_states_ok n Z"
  shows "\<forall>(a, _) \<in> set steps. \<exists>x ot. c_set a = Some x \<and> (x, ot) \<in> Z \<Longrightarrow> handle_typed n Z s \<Longrightarrow>
    \<exists>codes s'. c_call_all steps s = (Inr codes, s') \<and> length codes = length steps \<and> handle_typed n Z s'"
proof (induction steps arbitrary: s)
  case (Cons step steps)
  obtain h cs a call where s: "s = (h, cs)" "step = (a, call)" by (cases s; cases step)
  then obtain x ot where x: "c_set a = Some x" "(x, ot) \<in> Z" using Cons.prems(1) by auto
  from c_call_typed [OF x(1) assms x(2) Cons.prems(2) [unfolded s], of call]
  obtain c s1 where 1: "c_call a call s = (Inr c, s1)" "handle_typed n Z s1" unfolding s by blast
  then show ?case using Cons.IH [OF _ 1(2)] Cons.prems(1) s(2) by (auto simp: bindE_def ret_def)
qed (simp add: ret_def)

end
