(* ===== verification/SyncBloom.thy ===== *)
theory SyncBloom
  imports SyncModel SetRuns CountingDiff
begin

text \<open>
  The synchronisation of the Bloom filters: one process reads its filter in chunks of any
  lengths, the other compares them with its own filter at the same position.
\<close>

fun bloom_sync :: "set_state \<Rightarrow> set_state \<Rightarrow> nat list \<Rightarrow> sync \<Rightarrow> (sync \<times> diff_handler, sync) prog" where
  "bloom_sync a b [] sa = ret sa"
| "bloom_sync a b (n # ns) sa =
     (if isBloomFilterOutputAvail sa
      then case readNextBloomFilterChunk a n sa of
        (chunk, sa) \<Rightarrow> bindE (processBloomFilterChunk b chunk (length chunk)) (\<lambda>_. bloom_sync a b ns sa)
      else ret sa)"

definition report_all :: "set_state \<Rightarrow> bytes list \<Rightarrow> diff_handler \<Rightarrow> diff_handler" where
  "report_all s ks h = fold (\<lambda>k. handler_call k (set_hs s) True) ks h"

lemma fs_size: "fs_ok bf \<Longrightarrow> unat (bf_size bf) = length (bitArray bf)"
proof -
  assume ok: "fs_ok bf"
  have "unat (mmapLength bf) < 2 ^ LENGTH(32)" by (rule unsigned_less)
  then have small: "(unat (filterSize bf) + 7) div 8 < 2 ^ 32" using ok by (simp add: fs_ok_def)
  then have "unat (filterSize bf) + 7 < 2 ^ 64" by simp
  then have "unat (filterSize bf + 7) = unat (filterSize bf) + 7" by (simp add: unat_word_ariths)
  then show ?thesis using ok by (simp add: bf_size_def unat_div_distrib fs_ok_def bloom_ok_def)
qed

text \<open>The chunk at a position, and what it makes the other side report.\<close>

lemma getChunk_run:
  assumes "fs_ok (kb_bf kb)" "P \<le> length (bitArray (kb_bf kb))"
  shows "kvc_getChunk kb n P = slice P (min n (length (bitArray (kb_bf kb)) - P)) (bitArray (kb_bf kb))"
  using assms by (auto simp: kvc_getChunk_def fs_size Let_def slice_def)

lemma BITTEST_slice: "j < 8 * n \<Longrightarrow> off + n \<le> length a \<Longrightarrow> BITTEST (slice off n a) j = BITTEST a (8 * off + j)"
  by (simp add: BITTEST_bit slice_def less_mult_imp_div_less)

lemma bloom_sync_finished: "sy_bfOutIsFinished sa \<Longrightarrow> bloom_sync a b ns sa x = (Inr sa, x)"
  by (cases ns) (simp_all add: isBloomFilterOutputAvail_def ret_run)

lemma bloom_sync_run:
  assumes b: "kvc_reads (set_bf b) K" and a: "fs_ok (kb_bf (set_bf a))"
    and len: "length (bitArray (kb_bf (set_bf b))) = length (bitArray (kb_bf (set_bf a)))"
  shows "\<not> sy_bfOutIsFinished sa \<Longrightarrow> sy_bfOut_pos sa = P \<Longrightarrow> sy_bfIn_pos sb = P \<Longrightarrow>
    P \<le> length (bitArray (kb_bf (set_bf a))) \<Longrightarrow>
    \<exists>sa' sb' ds P'. bloom_sync a b ns sa (sb, h) = (Inr sa', (sb', report_all b ds h)) \<and>
      P \<le> P' \<and> P' \<le> length (bitArray (kb_bf (set_bf a))) \<and>
      set ds = {k \<in> K. \<exists>p \<in> bf_pos (kb_bf (set_bf b)) k. 8 * P \<le> p \<and> p < 8 * P' \<and> \<not> BITTEST (bitArray (kb_bf (set_bf a))) p} \<and>
      (sy_bfOutIsFinished sa' \<longrightarrow> P' = length (bitArray (kb_bf (set_bf a)))) \<and>
      (length (bitArray (kb_bf (set_bf a))) < P + sum_list ns \<longrightarrow> sy_bfOutIsFinished sa')"
proof (induction ns arbitrary: sa sb P h)
  case Nil
  then show ?case by (intro exI [of _ sa] exI [of _ sb] exI [of _ "[]"] exI [of _ P]) (auto simp: ret_run report_all_def)
next
  case (Cons n ns)
  let ?A = "bitArray (kb_bf (set_bf a))"
  let ?w = "min n (length ?A - P)"
  let ?c = "slice P ?w ?A"
  have lc: "length ?c = ?w" using Cons.prems(4) by simp
  let ?sa = "(if ?w < n then sa\<lparr>sy_bfOut_pos := P + ?w, sy_bfOutIsFinished := True\<rparr> else sa\<lparr>sy_bfOut_pos := P + ?w\<rparr>)"
  let ?sa1 = "?sa\<lparr>sy_sentBytes := sy_sentBytes ?sa + ?w\<rparr>"
  have read: "readNextBloomFilterChunk a n sa = (?c, ?sa1)"
    unfolding readNextBloomFilterChunk_def Let_def Cons.prems(2) getChunk_run [OF a Cons.prems(4)] lc by simp
  have fit: "?w \<le> length ?c" "?w + P \<le> length (bitArray (kb_bf (set_bf b)))"
    unfolding lc len using Cons.prems(4) by linarith+
  obtain ds where ds: "kvc_diff (set_bf b) ?c ?w P = Inr ds"
    "set ds = {k \<in> K. \<exists>p \<in> bf_pos (kb_bf (set_bf b)) k. 8 * P \<le> p \<and> p < 8 * (P + ?w) \<and> \<not> BITTEST ?c (p - 8 * P)}"
    using kvc_diff_run [OF b fit] by blast
  have "BITTEST ?c (p - 8 * P) = BITTEST ?A p" if "8 * P \<le> p" "p < 8 * (P + ?w)" for p
    using BITTEST_slice [of "p - 8 * P" ?w P ?A] that Cons.prems(4) by auto
  then have rep: "set ds = {k \<in> K. \<exists>p \<in> bf_pos (kb_bf (set_bf b)) k. 8 * P \<le> p \<and> p < 8 * (P + ?w) \<and> \<not> BITTEST ?A p}"
    unfolding ds(2) by blast
  let ?sb = "sb\<lparr>sy_bfIn_pos := P + ?w, sy_receivedBytes := sy_receivedBytes sb + ?w\<rparr>"
  have proc: "processBloomFilterChunk b ?c (length ?c) (sb, h) = (Inr (), (?sb, report_all b ds h))"
    unfolding lc using ds(1) Cons.prems(3) by (simp add: processBloomFilterChunk_def report_all_def)
  have one: "bloom_sync a b (n # ns) sa (sb, h) = bloom_sync a b ns ?sa1 (?sb, report_all b ds h)"
    using Cons.prems(1) proc by (simp add: read isBloomFilterOutputAvail_def bindE_def)
  show ?case
  proof (cases "?w < n")
    case True
    then have all: "P + ?w = length ?A" using Cons.prems(4) by linarith
    have fin: "sy_bfOutIsFinished ?sa1" unfolding if_P [OF True] by simp
    moreover have "bloom_sync a b ns ?sa1 (?sb, report_all b ds h) = (Inr ?sa1, (?sb, report_all b ds h))"
      by (rule bloom_sync_finished [OF fin])
    ultimately show ?thesis using Cons.prems(4) rep [unfolded all] fin unfolding one
      by (intro exI [of _ ?sa1] exI [of _ ?sb] exI [of _ ds] exI [of _ "length ?A"]) (simp del: bloom_sync.simps)
  next
    case False
    then have w: "?w = n" by simp
    have P': "P + n \<le> length ?A" using w Cons.prems(4) by linarith
    have pre: "\<not> sy_bfOutIsFinished ?sa1" "sy_bfOut_pos ?sa1 = P + n" "sy_bfIn_pos ?sb = P + n"
      using Cons.prems(1) w by simp_all
    obtain sa' sb' ds' P2 where r: "bloom_sync a b ns ?sa1 (?sb, report_all b ds h) = (Inr sa', (sb', report_all b ds' (report_all b ds h)))"
      "P + n \<le> P2" "P2 \<le> length ?A"
      "set ds' = {k \<in> K. \<exists>p \<in> bf_pos (kb_bf (set_bf b)) k. 8 * (P + n) \<le> p \<and> p < 8 * P2 \<and> \<not> BITTEST ?A p}"
      "sy_bfOutIsFinished sa' \<longrightarrow> P2 = length ?A" "length ?A < P + n + sum_list ns \<longrightarrow> sy_bfOutIsFinished sa'"
      using Cons.IH [OF pre P', of "report_all b ds h"] by blast
    have join: "(8 * P \<le> p \<and> p < 8 * P2) \<longleftrightarrow> (8 * P \<le> p \<and> p < 8 * (P + n)) \<or> (8 * (P + n) \<le> p \<and> p < 8 * P2)" for p
      using r(2) by auto
    have "set (ds @ ds') = {k \<in> K. \<exists>p \<in> bf_pos (kb_bf (set_bf b)) k. 8 * P \<le> p \<and> p < 8 * P2 \<and> \<not> BITTEST ?A p}"
      unfolding set_append rep r(4) w using join by blast
    moreover have "report_all b ds' (report_all b ds h) = report_all b (ds @ ds') h" by (simp add: report_all_def)
    ultimately show ?thesis using r(1-3,5,6) unfolding one
      by (intro exI [of _ sa'] exI [of _ sb'] exI [of _ "ds @ ds'"] exI [of _ P2]) (simp add: add.assoc)
  qed
qed

end
