(* ===== verification/SyncProps.thy ===== *)
theory SyncProps
  imports SyncRuns SyncBloom SetProps
begin

text \<open>
  The properties of the synchronisation: what an exchange of subtrees or of filters reports,
  that it ends, and the two cases in which it does not do what it is for.
\<close>

section \<open>Two sets to run\<close>

text \<open>
  The left set has two keys, the right one the second of them.  The hash of the left set's inner
  node is computed, to know that it is none of the keys.
\<close>

definition left_keys :: "bytes list" where
  "left_keys = [replicate 16 0, replicate 16 1]"

definition right_keys :: "bytes list" where
  "right_keys = [replicate 16 1]"

definition left_tree :: ptree where
  "left_tree = Bin 0 (Tip (replicate 16 0)) (Tip (replicate 16 1))"

definition right_tree :: ptree where
  "right_tree = Tip (replicate 16 1)"

lemma md5_toy: "md5 (replicate 16 0 @ replicate 16 1) \<notin> {replicate 16 0, replicate 16 1}"
  by code_simp

lemma te_hash_md5: "te_hash (hash_env \<lparr>ch_name = ''md5'', digit = md5_info, ch_size = 16\<rparr> junk) = md5"
  by (simp add: hash_env_def hash_data_def md_def md5_info_def fun_eq_iff)

lemma toy_collision_free: "collision_free md5 [left_tree, left_tree, right_tree]"
  using md5_toy by (simp add: collision_free_def no_clash_def left_tree_def right_tree_def)

lemma collision_free_sub:
  "collision_free H ts \<Longrightarrow> set us \<subseteq> set ts \<Longrightarrow> collision_free H us"
  unfolding collision_free_def by (erule no_clash_mono) auto

lemma toy_tree: "pt_insert 16 (replicate 16 1) (Tip (replicate 16 0)) = left_tree"
  by code_simp

lemma toy_runs:
  "cf_run md5 16 None (map Add left_keys)" "cf_run md5 16 None (map Add right_keys)"
  "fold (tree_step 16) (map Add left_keys) None = Some left_tree"
  "fold (tree_step 16) (map Add right_keys) None = Some right_tree"
proof -
  have "cf_step md5 None (Some (Tip k))" for k by (simp add: cf_step_def collision_free_def no_clash_def)
  moreover have "cf_step md5 (Some (Tip (replicate 16 0))) (Some left_tree)"
    using md5_toy by (simp add: cf_step_def collision_free_def no_clash_def left_tree_def)
  ultimately show "cf_run md5 16 None (map Add left_keys)" "cf_run md5 16 None (map Add right_keys)"
    by (simp_all add: left_keys_def right_keys_def toy_tree del: pt_insert.simps)
qed (simp_all add: left_keys_def right_keys_def toy_tree right_tree_def del: pt_insert.simps)

lemma set_inserts_hash: "set_hash (snd (set_inserts ks s)) = set_hash s"
proof (induction ks arbitrary: s)
  case (Cons k ks)
  have "set_hash (snd (set_insert k s)) = set_hash s"
    by (auto simp: set_insert_def on_trie_def on_kvc_def bindE_def ret_def split: prod.splits sum.splits)
  then show ?case using Cons [of "snd (set_insert k s)"]
    by (auto simp: set_inserts_def bindE_def ret_def split: prod.splits sum.splits)
qed (simp add: set_inserts_def ret_def)

lemma toy_sets:
  obtains s l r where "Set_init (toy_world 1) (toy_config False 100) new_files = Inr s"
    "set_inserts left_keys s = (Inr (), l)" "set_inserts right_keys s = (Inr (), r)" "two_sets l r left_tree right_tree"
    "set_hs l = 16" "set_ok l (Some left_tree)" "set_ok r (Some right_tree)" "in_trie s None"
    "filterSize (kb_bf (set_bf l)) = filterSize (kb_bf (set_bf r))"
    "functionCount (kb_bf (set_bf l)) = functionCount (kb_bf (set_bf r))"
    "te_hash (set_env l) = md5" "filterSize (kb_bf (set_bf r)) = 20"
    "functionCount (kb_bf (set_bf r)) = 1" "\<not> set_hardMaximum l" "\<not> set_hardMaximum r"
proof -
  obtain s where s: "Set_init (toy_world 1) (toy_config False 100) new_files = Inr s" "set_ok s None" "set_hs s = 16"
    "\<not> set_hardMaximum s" "set_hash s = \<lparr>ch_name = ''md5'', digit = md5_info, ch_size = 16\<rparr>"
    "functionCount (kb_bf (set_bf s)) = 1" "filterSize (kb_bf (set_bf s)) = 20"
    by (rule toy_set [of 1 False 100]) simp_all
  have H: "te_hash (set_env s) = md5" by (simp add: set_env_def s(5) te_hash_md5)
  have sp: "spread (kb_bf (set_bf s)) k" for k using s(6) by (rule spread_one)
  have k: "\<forall>k \<in> set left_keys. length k = set_hs s \<and> spread (kb_bf (set_bf s)) k"
    "\<forall>k \<in> set right_keys. length k = set_hs s \<and> spread (kb_bf (set_bf s)) k"
    using sp by (simp_all add: left_keys_def right_keys_def s(3))
  obtain l where l: "set_inserts left_keys s = (Inr (), l)" "set_ok l (Some left_tree)" "set_env l = set_env s"
    "filterSize (kb_bf (set_bf l)) = filterSize (kb_bf (set_bf s))"
    "functionCount (kb_bf (set_bf l)) = functionCount (kb_bf (set_bf s))" "\<not> set_hardMaximum l"
    using set_inserts_run [OF s(2) k(1)] toy_runs(1,3) s(3,4) H by (auto simp: left_keys_def)
  obtain r where r: "set_inserts right_keys s = (Inr (), r)" "set_ok r (Some right_tree)" "set_env r = set_env s"
    "filterSize (kb_bf (set_bf r)) = filterSize (kb_bf (set_bf s))"
    "functionCount (kb_bf (set_bf r)) = functionCount (kb_bf (set_bf s))" "\<not> set_hardMaximum r"
    using set_inserts_run [OF s(2) k(2)] toy_runs(2,4) s(3,4) H by (auto simp: right_keys_def)
  have h: "set_hash l = set_hash s" "set_hash r = set_hash s"
    using set_inserts_hash [of left_keys s] set_inserts_hash [of right_keys s] l(1) r(1) by simp_all
  have inv: "in_trie l (Some left_tree)" "in_trie r (Some right_tree)" "in_trie s None"
    using l(2) r(2) s(2) by (simp_all add: set_ok_def set_inv_def in_trie_def)
  have "two_sets l r left_tree right_tree"
    using inv h l(3) H collision_free_sub [OF toy_collision_free, of "[left_tree, right_tree]"] by (simp add: two_sets_def)
  then show thesis using that [OF s(1) l(1) r(1)] inv s(3,6,7) h(1) H l r by (simp add: set_hs_def)
qed

lemma toy_keys: "keys left_tree = {replicate 16 0, replicate 16 1}" "keys right_tree = {replicate 16 1}"
  by (auto simp: left_tree_def right_tree_def)

section \<open>Messages\<close>

text \<open>C9: the message for a subtree, with room for at least two hashes, holds the hashes of
  subtrees that partition its keys and fits into the buffer; unless the subtree is a leaf, there
  are at least two of them, all of less weight together than the subtree itself.\<close>

theorem getSubTrie_partitions:
  assumes "in_trie s (Some t)" "u \<in> set (subs t)" "2 * set_hs s \<le> n"
  shows "\<exists>vs. getSubTrie (set_env s) (set_trie s) (hs_of s u) buf n =
      Inr (length vs * set_hs s, memcpy_at buf 0 (concat (map (hs_of s) vs))) \<and>
    set vs \<subseteq> set (subs t) \<and> length vs * set_hs s \<le> n \<and> mset (concat (map key_list vs)) = mset (key_list u) \<and>
    (if is_bin u then 2 \<le> length vs \<and> weight vs < length (subs u) else vs = [u])"
proof -
  have h: "trie_hash (set_env s)" "trie_ok (set_env s) (set_trie s) (Some t)" using assms(1) by (simp_all add: in_trie_def)
  have pos: "0 < set_hs s" using trie_hash.size_pos [OF h(1)] by (simp add: te_size_set)
  then have n: "2 \<le> n div te_size (set_env s)" using assms(3) by (simp add: te_size_set less_eq_div_iff_mult_less_eq)
  show ?thesis using trie_hash.getSubTrie_run [OF h assms(2) n, of buf] pos
    unfolding te_size_set below_def less_eq_div_iff_mult_less_eq [OF pos] by blast
qed

theorem getSubTrie_partitions_witness:
  "\<exists>s l. Set_init (toy_world 1) (toy_config False 100) new_files = Inr s \<and> set_inserts left_keys s = (Inr (), l) \<and>
    (\<exists>vs. getSubTrie (set_env l) (set_trie l) (hs_of l left_tree) (replicate 40 0) 40 =
        Inr (length vs * 16, memcpy_at (replicate 40 0) 0 (concat (map (hs_of l) vs))) \<and>
      2 \<le> length vs \<and> length vs * 16 \<le> 40 \<and> mset (concat (map key_list vs)) = {#replicate 16 0, replicate 16 1#})"
proof -
  obtain s l r where s: "Set_init (toy_world 1) (toy_config False 100) new_files = Inr s"
    "set_inserts left_keys s = (Inr (), l)" "two_sets l r left_tree right_tree" "set_hs l = 16" by (rule toy_sets)
  have i: "in_trie l (Some left_tree)" using s(3) by (simp add: two_sets_def)
  show ?thesis using getSubTrie_partitions [OF i subs_self, of 40 "replicate 40 0"] s(1,2,4)
    by (auto simp: left_tree_def)
qed

section \<open>Sessions\<close>

text \<open>However the steps of the two sides interleave, and whatever the buffers, each handler
  has only been given keys that the other set lacks, each once; and when a side is done, its
  handler got all of them.\<close>

theorem trie_sync_exact:
  assumes "two_sets l r t1 t2" "(two_way l r)\<^sup>*\<^sup>* (session_init hl hr) s"
  shows "(\<exists>ks. distinct ks \<and> set ks \<subseteq> keys t1 - keys t2 \<and> se_hl s = report l ks hl \<and>
      (sync_done (se_l s) \<longrightarrow> set ks = keys t1 - keys t2)) \<and>
    (\<exists>ks. distinct ks \<and> set ks \<subseteq> keys t2 - keys t1 \<and> se_hr s = report r ks hr \<and>
      (sync_done (se_r s) \<longrightarrow> set ks = keys t2 - keys t1))"
proof -
  obtain gl gr where inv: "session_inv l r t1 t2 hl hr s gl gr" using session_reach [OF assms] .
  note p = two_sets_pairs [OF assms(1)]
  have c: "chan_at l r t1 (keys t2) hl (chan_l s) gl" "chan_at r l t2 (keys t1) hr (chan_r s) gr"
    using inv by (simp_all add: session_inv_def)
  have f: "ch_from (chan_l s) = se_l s" "ch_handler (chan_l s) = se_hl s" "ch_from (chan_r s) = se_r s"
    "ch_handler (chan_r s) = se_hr s" by (simp_all add: chan_l_def chan_r_def)
  show ?thesis
    using reported_part [OF p(1) c(1)] one_way_result [OF p(1) c(1)] done_no_trees [OF c(1)]
      reported_part [OF p(2) c(2)] one_way_result [OF p(2) c(2)] done_no_trees [OF c(2)] unfolding f by blast
qed

text \<open>The session ends: its steps are bounded by the sizes of the sets, and as long as a side
  is not done, some step is possible.\<close>

definition sync_bound :: "nat \<Rightarrow> nat" where
  "sync_bound n = (2 * n - 1) * (8 * n - 3) + 4"

lemma work_start: "work t (start_trees t) \<le> sync_bound (card (keys t))" if "wf_tree h t"
proof -
  have n: "length (subs t) + 1 = 2 * card (keys t)" using length_subs [of t] length_key_list [OF that] by simp
  then have "0 < card (keys t)" "length (subs t) = 2 * card (keys t) - 1" "4 * length (subs t) + 1 = 8 * card (keys t) - 3"
    by (cases "card (keys t)"; simp)+
  then show ?thesis by (simp add: work_def start_trees_def all_trees_def stages_def sync_bound_def)
qed


theorem trie_sync_exact_witness:
  "\<exists>l r s. two_sets l r left_tree right_tree \<and>
    (two_way l r)\<^sup>*\<^sup>* (session_init (ListDiffHandler []) (ListDiffHandler [])) s \<and> sync_done (se_l s) \<and> sync_done (se_r s) \<and>
    se_hl s = ListDiffHandler [(replicate 16 0, True)] \<and> se_hr s = ListDiffHandler []"
proof -
  let ?h = "ListDiffHandler []"
  obtain l r where two: "two_sets l r left_tree right_tree" "set_hs l = 16" using toy_sets by metis
  obtain s where s: "(two_way l r)\<^sup>*\<^sup>* (session_init ?h ?h) s" "sync_done (se_l s)" "sync_done (se_r s)"
    using session_completes [OF two(1) rtranclp.rtrancl_refl] by blast
  obtain ks ks' where k: "distinct ks" "set ks = keys left_tree - keys right_tree" "se_hl s = report l ks ?h"
    "set ks' = keys right_tree - keys left_tree" "se_hr s = report r ks' ?h"
    using trie_sync_exact [OF two(1) s(1)] s(2,3) by blast
  have "{a, b} - {b} = {a}" if "a \<noteq> b" for a b :: bytes using that by auto
  from this [of "replicate 16 0" "replicate 16 1"] have "set ks = {replicate 16 0}" using k(2) by (simp add: toy_keys)
  then have "ks = [replicate 16 0]" using singleton_list [OF k(1)] by blast
  moreover have "ks' = []" using k(4) by (auto simp: toy_keys)
  ultimately have "se_hl s = ListDiffHandler [(replicate 16 0, True)]" "se_hr s = ListDiffHandler []"
    using k(3,5) two(2) by (simp_all add: report_def list_handle_def)
  then show ?thesis using two(1) s by blast
qed


section \<open>What goes wrong\<close>

text \<open>C11: a buffer with room for less than two hashes, which \<^verbatim>\<open>getSubTrie\<close> of the trie refuses with
  an exception, makes the process drop everything it still had to send: the first call on a new
  process returns no hashes, and the process is done.\<close>

theorem small_buffer_ends_sync:
  assumes "in_trie s (Some t)" "n < 2 * set_hs s"
  shows "\<exists>sy sy'. isSubtrieOutputAvailable s createSyncProcess = (True, sy) \<and> \<not> sync_done sy \<and>
    sync_getSubTrie s buf n sy = Inr (0, buf, sy') \<and> sync_done sy'"
proof -
  have h: "trie_hash (set_env s)" "trie_ok (set_env s) (set_trie s) (Some t)" using assms(1) by (simp_all add: in_trie_def)
  have "0 < set_hs s" using trie_hash.size_pos [OF h(1)] by (simp add: te_size_set)
  then have "n div te_size (set_env s) < 2" using assms(2) by (simp add: te_size_set div_less_iff_less_mult)
  then have "getSubTrie (set_env s) (set_trie s) k buf n = Inl (CString ''buffer is too small!'')" for k
    by (simp add: getSubTrie_def)
  moreover have "getRootHash s = Some (hs_of s t)" using trie_hash.getRoot_tree [OF h] by (simp add: getRootHash_def)
  ultimately show ?thesis
    by (simp add: isSubtrieOutputAvailable_def createSyncProcess_def sync_done_def sync_getSubTrie.simps Let_def)
qed

theorem small_buffer_ends_sync_witness:
  "\<exists>s l sy sy'. Set_init (toy_world 1) (toy_config False 100) new_files = Inr s \<and> set_inserts left_keys s = (Inr (), l) \<and>
    isSubtrieOutputAvailable l createSyncProcess = (True, sy) \<and>
    sync_getSubTrie l (replicate 31 0) 31 sy = Inr (0, replicate 31 0, sy') \<and> sync_done sy'"
proof -
  obtain s l r where s: "Set_init (toy_world 1) (toy_config False 100) new_files = Inr s"
    "set_inserts left_keys s = (Inr (), l)" "two_sets l r left_tree right_tree" "set_hs l = 16" by (rule toy_sets)
  have i: "in_trie l (Some left_tree)" using s(3) by (simp add: two_sets_def)
  have n: "31 < 2 * set_hs l" using s(4) by simp
  show ?thesis using small_buffer_ends_sync [OF i n, of "replicate 31 0"] s(1,2) by blast
qed

text \<open>C12: the process of an empty set is never done, whatever the other side does.\<close>

theorem empty_set_never_done:
  assumes "in_trie l None" "(two_way l r)\<^sup>*\<^sup>* (session_init hl hr) s"
  shows "\<not> sync_done (se_l s)"
proof -
  have "getRootHash l = None" using assms(1) trie_hash.getRoot_tree [of "set_env l" "set_trie l" None]
    by (simp add: in_trie_def getRootHash_def)
  note root = this
  have "from_fields (se_l s) = (START, [], []) \<and> se_lr s = [] \<and> sy_pendingAcks (se_r s) = [] \<and> se_acks_l s = []"
    using assms(2)
  proof (induction rule: rtranclp_induct)
    case base
    then show ?case by (simp add: session_init_def createSyncProcess_def from_fields_def)
  next
    case (step s s')
    from step(2) show ?case
    proof cases
      case (left c)
      from left(2) show ?thesis using step.IH root
        by cases (auto simp: chan_l_def from_fields_def isSubtrieOutputAvailable_def isAckOutputAvailable_def)
    next
      case (right c)
      then show ?thesis using step.IH one_way_frame [OF right(2)] by (simp add: put_r_def chan_r_def)
    qed
  qed
  then show ?thesis by (simp add: from_fields_def sync_done_def)
qed

theorem empty_set_never_done_witness:
  "\<exists>s l s'. Set_init (toy_world 1) (toy_config False 100) new_files = Inr s \<and> set_inserts left_keys s = (Inr (), l) \<and>
    (two_way s l)\<^sup>*\<^sup>* (session_init (ListDiffHandler []) (ListDiffHandler [])) s' \<and> \<not> sync_done (se_l s')"
proof -
  obtain s l r where s: "Set_init (toy_world 1) (toy_config False 100) new_files = Inr s"
    "set_inserts left_keys s = (Inr (), l)" "in_trie s None" by (rule toy_sets)
  show ?thesis using empty_set_never_done [OF s(3) rtranclp.rtrancl_refl] s(1,2) by blast
qed

section \<open>Comparison by the root hash\<close>

text \<open>C10: a set finds itself equal to another that is not empty, from the root hash the other
  sends, exactly when they hold the same keys; its process is then done, and otherwise as it was.\<close>

theorem isEqual_same_keys:
  assumes "in_trie l ot" "in_trie r (Some t)" "set_hash l = set_hash r"
    and "collision_free (te_hash (set_env l)) (opt_list ot @ [t])"
  shows "\<exists>h sy. getRootHashForSending r createSyncProcess = (Some h, sy) \<and>
    isEqual l h createSyncProcess = (set (tree_keys ot) = keys t,
      if set (tree_keys ot) = keys t then createSyncProcess\<lparr>sy_stat := EQUAL\<rparr> else createSyncProcess) \<and>
    (set (tree_keys ot) = keys t \<longrightarrow> sync_done (snd (isEqual l h createSyncProcess)))"
proof -
  have i: "trie_hash (set_env l)" "trie_ok (set_env l) (set_trie l) ot" "trie_hash (set_env r)"
    "trie_ok (set_env r) (set_trie r) (Some t)" using assms(1,2) by (simp_all add: in_trie_def)
  have e: "te_hash (set_env r) = te_hash (set_env l)" "set_hs r = set_hs l"
    using assms(3) by (simp_all add: set_env_def set_hs_def hash_env_def)
  have root: "getRootHash r = Some (hs_of l t)" "getRoot (set_env l) (set_trie l) = map_option (hs_of l) ot"
    using trie_hash.getRoot_tree [OF i(3,4)] trie_hash.getRoot_tree [OF i(1,2)] e(1) by (simp_all add: getRootHash_def)
  have wf: "wf_tree (set_hs l) t" using trie_hash.trie_ok_wf [OF i(3,4)] e(2) by (simp add: te_size_set)
  have ch: "crypto_hash (te_hash (set_env l)) (set_hs l)" using i(1) by (simp add: trie_hash_def te_size_set)
  have len: "length (hs_of l t) = set_hs l" using crypto_hash.length_thash [OF ch wf] .
  have same: "map_option (hs_of l) ot = Some (hs_of l t) \<longleftrightarrow> set (tree_keys ot) = keys t"
  proof (cases ot)
    case None
    have "keys t \<noteq> {}" by simp
    then show ?thesis using None by (metis list.set(1) option.map(1) option.distinct(1) tree_keys.simps(1))
  next
    case (Some t')
    have wf': "wf_tree (set_hs l) t'" using trie_hash.trie_ok_wf [OF i(1,2)] Some by (simp add: te_size_set)
    have "hs_of l t' = hs_of l t \<longleftrightarrow> t' = t"
      using crypto_hash.thash_inj_subs [OF ch assms(4) _ _ wf' wf subs_self subs_self] Some by auto
    then show ?thesis using wf_tree_unique [OF wf' wf] Some by auto
  qed
  then have "isEqual l (hs_of l t) createSyncProcess = (set (tree_keys ot) = keys t,
      if set (tree_keys ot) = keys t then createSyncProcess\<lparr>sy_stat := EQUAL\<rparr> else createSyncProcess)"
    using root(2) len by (cases ot) (auto simp: isEqual_def createSyncProcess_def)
  then show ?thesis using root(1) by (simp add: getRootHashForSending_def sync_done_def)
qed

theorem isEqual_same_keys_witness:
  "\<exists>l r h sy. two_sets l r left_tree right_tree \<and> getRootHashForSending r createSyncProcess = (Some h, sy) \<and>
    isEqual l h createSyncProcess = (False, createSyncProcess) \<and>
    (\<exists>h sy. getRootHashForSending l createSyncProcess = (Some h, sy) \<and> fst (isEqual l h createSyncProcess))"
proof -
  obtain l r where two: "two_sets l r left_tree right_tree" and H: "te_hash (set_env l) = md5" by (rule toy_sets)
  have i: "in_trie l (Some left_tree)" "in_trie r (Some right_tree)" "set_hash l = set_hash r"
    using two by (simp_all add: two_sets_def)
  have c: "collision_free (te_hash (set_env l)) (opt_list (Some left_tree) @ [right_tree])"
    "collision_free (te_hash (set_env l)) (opt_list (Some left_tree) @ [left_tree])"
    using collision_free_sub [OF toy_collision_free] H by simp_all
  have "replicate 16 (0 :: byte) \<noteq> replicate 16 1" by simp
  then have ne: "(set (tree_keys (Some left_tree)) = keys right_tree) = False" by (auto simp: toy_keys)
  obtain h sy where h: "getRootHashForSending r createSyncProcess = (Some h, sy)"
    "isEqual l h createSyncProcess = (False, createSyncProcess)"
    using isEqual_same_keys [OF i c(1)] unfolding ne if_False by blast
  obtain h' sy' where h': "getRootHashForSending l createSyncProcess = (Some h', sy')" "fst (isEqual l h' createSyncProcess)"
    using isEqual_same_keys [OF i(1,1) refl c(2)] unfolding tree_keys.simps by (auto simp only: fst_conv simp_thms if_True)
  show ?thesis using h h' two by blast
qed

section \<open>The Bloom filters\<close>

text \<open>C8: reading the filter of one set in chunks of any lengths that reach beyond its end, and
  comparing each with the filter of the other set, reports the keys of the other set that do not
  have all their bits in the first one's filter; none of them is in the first set.\<close>

theorem bloom_sync_reports:
  assumes "set_ok a oa" "set_ok b ob" "filterSize (kb_bf (set_bf a)) = filterSize (kb_bf (set_bf b))"
    and "functionCount (kb_bf (set_bf a)) = functionCount (kb_bf (set_bf b))"
    and "unat (set_getBFSize a) < sum_list ns"
  shows "\<exists>sa sb ds. bloom_sync a b ns createSyncProcess (createSyncProcess, h) = (Inr sa, (sb, report_all b ds h)) \<and>
    \<not> isBloomFilterOutputAvail sa \<and>
    set ds = {k \<in> set (tree_keys ob). fs_contains (kb_bf (set_bf a)) k = Inr False} \<and>
    set ds \<inter> set (tree_keys oa) = {}"
proof -
  let ?A = "kb_bf (set_bf a)" and ?B = "kb_bf (set_bf b)"
  have ok: "kvc_ok (set_bf a) (set (tree_keys oa))" "kvc_ok (set_bf b) (set (tree_keys ob))"
    using assms(1,2) by (simp_all add: set_ok_def)
  then have fs: "fs_ok ?A" "fs_ok ?B" by (simp_all add: kvc_ok_def)
  have len: "length (bitArray ?B) = length (bitArray ?A)" using fs assms(3) by (simp add: fs_ok_def bloom_ok_def)
  have pos: "bf_pos ?B = bf_pos ?A" using assms(3,4) by (intro bf_pos_cong) simp_all
  have size: "unat (set_getBFSize a) = length (bitArray ?A)" using fs_size [OF fs(1)] by (simp add: set_getBFSize_def)
  obtain sa sb ds P where r: "bloom_sync a b ns createSyncProcess (createSyncProcess, h) = (Inr sa, (sb, report_all b ds h))"
    "set ds = {k \<in> set (tree_keys ob). \<exists>p \<in> bf_pos ?B k. 8 * 0 \<le> p \<and> p < 8 * P \<and> \<not> BITTEST (bitArray ?A) p}"
    "sy_bfOutIsFinished sa \<longrightarrow> P = length (bitArray ?A)" "length (bitArray ?A) < 0 + sum_list ns \<longrightarrow> sy_bfOutIsFinished sa"
    using bloom_sync_run [OF kvc_ok_reads [OF ok(2)] fs(1) len, of createSyncProcess 0 createSyncProcess ns h]
    by (auto simp: createSyncProcess_def)
  have P: "sy_bfOutIsFinished sa" "P = length (bitArray ?A)" using r(3,4) assms(5) size by simp_all
  have lt: "p < 8 * length (bitArray ?A) \<and> p < unat (filterSize ?A)" if "p \<in> bf_pos ?A k" for p k
    using pos_less_size [OF fs(1) that] fs(1) by (auto simp: fs_ok_def bloom_ok_def)
  have "set ds = {k \<in> set (tree_keys ob). \<not> bf_pos ?A k \<subseteq> bf_bits ?A}"
    unfolding r(2) P(2) pos using lt by (auto simp: bf_bits_def)
  moreover have "bf_pos ?A k \<subseteq> bf_bits ?A" if "k \<in> set (tree_keys oa)" for k using ok(1) that by (auto simp: kvc_ok_def)
  ultimately show ?thesis using r(1) P(1) fs_contains_bits [OF fs(1)] by (auto simp: isBloomFilterOutputAvail_def)
qed

theorem bloom_sync_reports_witness:
  "\<exists>l r sa sb ds. two_sets l r left_tree right_tree \<and>
    bloom_sync r l [2, 1, 5] createSyncProcess (createSyncProcess, ListDiffHandler []) =
      (Inr sa, (sb, report_all l ds (ListDiffHandler []))) \<and>
    set ds = {k \<in> keys left_tree. fs_contains (kb_bf (set_bf r)) k = Inr False}"
proof -
  obtain l r where t: "two_sets l r left_tree right_tree" "set_ok l (Some left_tree)" "set_ok r (Some right_tree)"
    "filterSize (kb_bf (set_bf l)) = filterSize (kb_bf (set_bf r))"
    "functionCount (kb_bf (set_bf l)) = functionCount (kb_bf (set_bf r))" "filterSize (kb_bf (set_bf r)) = 20" by (rule toy_sets)
  have "unat (set_getBFSize r) < sum_list [2, 1, 5]" using t(6) by (simp add: set_getBFSize_def bf_size_def)
  then show ?thesis
    using bloom_sync_reports [OF t(3,2) t(4,5) [symmetric], of "[2, 1, 5]" "ListDiffHandler []"] t(1) unfolding tree_keys.simps by blast
qed

end
