(* ===== verification/CProps.thy ===== *)
theory CProps
  imports CInterface SetProps
begin

text \<open>
  The properties of the C interface: errors in creating a set, the set of strings it gives, and
  the program that uses it.
\<close>

section \<open>Errors\<close>

lemma c_str_idem [simp]: "c_str (c_str m) = c_str m"
  by (simp add: c_str_def)

lemma error_text_c_str: "c_str (error_text e) = error_text e"
proof -
  have "c_str ''std::exception'' = ''std::exception''" "c_str ''unknown error'' = ''unknown error''"
    "c_str ''basic_ios::clear'' = ''basic_ios::clear''" by code_simp+
  then show ?thesis by (cases e) (simp_all add: error_text_def)
qed

text \<open>Whatever the constructor throws is caught, if mapping the filter's file does not fail.\<close>

lemma Set_init_throws:
  assumes "Set_init w config files = Inl e" "sw_mmap_ok w"
  shows "is_exception e"
proof -
  have c: "CryptoHash_init n = Inl e' \<Longrightarrow> is_exception e'" for n e'
    by (auto simp: CryptoHash_init_def is_exception_def split: option.splits)
  have o: "open_storages w config files = Inl e' \<Longrightarrow> is_exception e'" for e'
    by (auto simp: open_storages_def is_exception_def split: StorageType.splits if_splits)
  have f: "fs_init b fz fu h n j z f1 f2 True = Inl e' \<Longrightarrow> is_exception e'" for b fz fu h n j z f1 f2 e'
    by (auto simp: fs_init_def is_exception_def Let_def split: option.splits if_splits)
  show ?thesis using assms c o f by (auto simp: Set_init_def Let_def split: sum.splits)
qed

text \<open>C17: when a set cannot be created, \<^verbatim>\<open>set_init\<close> returns -1 whatever the \<^verbatim>\<open>SET\<close> held before, and
  the last error is the text of the exception; \<^verbatim>\<open>set_init_with_path\<close> does not reset the error
  pointer and uses it uninitialised.\<close>

theorem c_init_errors:
  assumes "Set_init w (Configuration_of_C junk (sw_leveldb w) (sw_bdb w) config) files = Inl e"
    and "Set_init w (setPath path (Configuration_of_C junk (sw_leveldb w) (sw_bdb w) config)) files = Inl e'"
    and "sw_mmap_ok w" "c_error s = Uninit"
  shows "\<exists>s'. c_set_init w junk files config s = (Inr (- 1), s') \<and> c_set s' = c_set s \<and>
      c_set_last_error_to_string s' = (Inr (Some (error_text e)), s') \<and>
      c_set_init_with_path w junk files config path s' = (Inr (- 1), s'\<lparr>c_error := Msg (error_text e')\<rparr>) \<and>
      c_set_init_with_path w junk files config path s = (Inl UndefinedBehaviour, s)"
proof -
  have x: "is_exception e" "is_exception e'" using Set_init_throws assms by blast+
  then show ?thesis using assms
    by (simp add: c_set_init_def c_set_init_with_path_def catch_all_def bindE_def liftE_def record_error_def
        c_set_last_error_to_string_def error_text_c_str Let_def)
qed

text \<open>A world in which the database environment opens or not, as main configures its set.\<close>

definition c_world :: "bool \<Rightarrow> set_world" where
  "c_world ok = (toy_world 1)\<lparr>sw_junk_node := replicate 20 0, sw_env_open := ok\<rparr>"

abbreviation main_conf :: "bool \<Rightarrow> Configuration" where
  "main_conf ok \<equiv> Configuration_of_C NORMAL (sw_leveldb (c_world ok)) (sw_bdb (c_world ok)) (main_config (c_world ok))"

lemma main_conf_fields:
  "getHashFunction (Configuration_of_C junk l b (main_config w)) = ''sha1''"
  "getHashFunction (setPath p (Configuration_of_C junk l b (main_config w))) = ''sha1''"
  "sc_type (co_storage (Configuration_of_C junk l True (main_config w))) = BERKELEY_DB"
  "sc_type (co_storage (setPath p (Configuration_of_C junk l True (main_config w)))) = BERKELEY_DB"
  "cf_bf_hard_max (main_config w) = 0"
  using init_sha1
  by (simp_all add: getHashFunction_def setPath_def Configuration_of_C_def main_config_def set_create_config_def)

lemma c_world_fields [simp]:
  "sw_bdb (c_world ok)" "sw_env_open (c_world ok) = ok" "sw_bad_rate (c_world ok) = None" "sw_filterSize (c_world ok) = 20"
  "sw_functions (c_world ok) = 1" "sw_junk_node (c_world ok) = replicate 20 0"
  "sw_file_ok (c_world ok)" "sw_write_ok (c_world ok)" "sw_mmap_ok (c_world ok)"
  by (simp_all add: c_world_def)

theorem c_init_errors_witness:
  "\<exists>s'. c_set_init (c_world False) NORMAL new_files (main_config (c_world False)) \<lparr>c_set = None, c_error = Uninit\<rparr> =
      (Inr (- 1), s') \<and> c_set_last_error_to_string s' = (Inr (Some ''unknown error''), s')"
proof -
  have f: "Set_init (c_world False) (main_conf False) new_files = Inl (CString ''Failed to open berkeley db database env'')"
    "Set_init (c_world False) (setPath ''/tmp'' (main_conf False)) new_files =
      Inl (CString ''Failed to open berkeley db database env'')"
    unfolding Set_init_def main_conf_fields init_sha1 by (simp_all add: open_storages_def main_conf_fields Let_def)
  show ?thesis using c_init_errors [OF f, of "\<lparr>c_set = None, c_error = Uninit\<rparr>"] by (auto simp: error_text_def)
qed

section \<open>A set of strings\<close>

text \<open>Insertions of strings, with the list of their results.\<close>

fun c_inserts :: "string list \<Rightarrow> (SET, int list) prog" where
  "c_inserts [] = ret []"
| "c_inserts (str # strs) =
     bindE (c_set_insert_string str) (\<lambda>r. bindE (c_inserts strs) (\<lambda>rs. ret (r # rs)))"

text \<open>What they are to be: 1 for a key not seen before.\<close>

fun codes :: "bytes set \<Rightarrow> bytes list \<Rightarrow> int list" where
  "codes seen [] = []"
| "codes seen (k # ks) = int_of_bool (k \<notin> seen) # codes (insert k seen) ks"

lemma codes_new: "distinct ks \<Longrightarrow> set ks \<inter> seen = {} \<Longrightarrow> 0 \<notin> set (codes seen ks)"
  by (induction ks arbitrary: seen) (auto simp: int_of_bool_def)

lemma str_key_cong: "set_env x = set_env y \<Longrightarrow> str_key x = str_key y"
  by (simp add: str_key_def fun_eq_iff)

text \<open>Insertions of keys: those of strings are the insertions of their hashes.\<close>

lemma set_insert_env: "set_env (snd (set_insert k s)) = set_env s"
  by (auto simp: set_insert_def on_trie_def on_kvc_def bindE_def ret_def set_env_def set_hs_def
      split: prod.splits sum.splits)

fun c_insert_keys :: "bytes list \<Rightarrow> (SET, int list) prog" where
  "c_insert_keys [] = ret []"
| "c_insert_keys (k # ks) = bindE (c_set_insert k) (\<lambda>r. bindE (c_insert_keys ks) (\<lambda>rs. ret (r # rs)))"

lemma c_insert_keys_run:
  assumes "c_set s = Some x" "set_ok x ot" "\<forall>k \<in> set ks. length k = set_hs x \<and> spread (kb_bf (set_bf x)) k"
    "cf_run (te_hash (set_env x)) (set_hs x) ot (map Add ks)" "\<not> set_hardMaximum x"
    "length (tree_keys ot) + length ks < 2 ^ 64 - 1"
  shows "\<exists>s' x'. c_insert_keys ks s = (Inr (codes (set (tree_keys ot)) ks), s') \<and>
    c_set s' = Some x' \<and> set_ok x' (fold (tree_step (set_hs x)) (map Add ks) ot) \<and>
    set_env x' = set_env x \<and> set_hs x' = set_hs x \<and> c_error s' = c_error s"
  using assms
proof (induction ks arbitrary: s x ot)
  case Nil
  then show ?case by (simp add: ret_def)
next
  case (Cons k ks)
  obtain x1 where x1: "set_insert k x = (Inr (k \<notin> set (tree_keys ot)), x1)" "set_ok x1 (opt_insert (set_hs x) k ot)"
    "set_env x1 = set_env x" "set_hs x1 = set_hs x" "spread (kb_bf (set_bf x1)) = spread (kb_bf (set_bf x))" "\<not> set_hardMaximum x1"
    "length (tree_keys (opt_insert (set_hs x) k ot)) \<le> length (tree_keys ot) + 1"
    "set (tree_keys (opt_insert (set_hs x) k ot)) = insert k (set (tree_keys ot))"
    by (rule set_insert_next [OF Cons.prems(2), of k]) (use Cons.prems(3-6) in auto)
  then show ?case
    using Cons.IH [of "s\<lparr>c_set := Some x1\<rparr>" x1, OF _ x1(2)] Cons.prems(1,3,4,6)
    by (auto simp: c_set_insert_def on_set_def bindE_def ret_def)
qed

lemma c_inserts_keys: "c_set s = Some x \<Longrightarrow> c_inserts strs s = c_insert_keys (map (str_key x) strs) s"
proof (induction strs arbitrary: s x)
  case (Cons str strs)
  obtain r x1 where r: "set_insert (str_key x str) x = (r, x1)" by fastforce
  have "str_key x1 = str_key x" using set_insert_env [of "str_key x str" x] r by (intro str_key_cong) simp
  then have "c_inserts strs (s\<lparr>c_set := Some x1\<rparr>) = c_insert_keys (map (str_key x) strs) (s\<lparr>c_set := Some x1\<rparr>)"
    using Cons.IH [of "s\<lparr>c_set := Some x1\<rparr>" x1] by simp
  then show ?case using Cons.prems r
    by (cases r) (simp_all add: c_set_insert_string_def c_set_insert_def on_set_def set_insert_str_def bindE_def ret_def)
qed simp

lemma c_inserts_run:
  assumes "c_set s = Some x" "set_ok x ot" "\<forall>k \<in> str_key x ` set strs. length k = set_hs x \<and> spread (kb_bf (set_bf x)) k"
    "cf_run (te_hash (set_env x)) (set_hs x) ot (map Add (map (str_key x) strs))" "\<not> set_hardMaximum x"
    "length (tree_keys ot) + length strs < 2 ^ 64 - 1"
  shows "\<exists>s' x'. c_inserts strs s = (Inr (codes (set (tree_keys ot)) (map (str_key x) strs)), s') \<and>
    c_set s' = Some x' \<and> set_ok x' (fold (tree_step (set_hs x)) (map Add (map (str_key x) strs)) ot) \<and>
    set_env x' = set_env x \<and> set_hs x' = set_hs x \<and> c_error s' = c_error s"
  using c_insert_keys_run [of s x ot "map (str_key x) strs"] c_inserts_keys [OF assms(1)] assms by simp


section \<open>The program\<close>

text \<open>The loop of \<^verbatim>\<open>main\<close> runs through when no insertion returns 0.\<close>

lemma main_loop_run:
  assumes "c_inserts (map test_string [i..<i + n]) s = (Inr rs, s')" "0 \<notin> set rs"
  shows "main_loop i n (s, out) = (Inr None, (s', out))"
  using assms
proof (induction n arbitrary: i s rs)
  case (Suc n)
  have up: "[i..<i + Suc n] = i # [Suc i..<Suc i + n]" by (simp add: upt_conv_Cons del: upt_Suc)
  obtain r s1 where r: "c_set_insert_string (test_string i) s = (Inr r, s1)"
    using Suc.prems(1) unfolding up by (auto simp: bindE_def split: prod.splits sum.splits)
  obtain rs1 where rs1: "c_inserts (map test_string [Suc i..<Suc i + n]) s1 = (Inr rs1, s')" "rs = r # rs1"
    using Suc.prems(1) r unfolding up by (auto simp: bindE_def ret_def split: prod.splits sum.splits)
  show ?case using Suc.IH [OF rs1(1)] Suc.prems(2) rs1(2) r by (simp add: in_main_def bindE_def)
qed (simp add: ret_def)


lemma c_set_opens:
  obtains x where "Set_init (c_world True) (main_conf True) new_files = Inr x" "env_usable (c_world True) (main_conf True)"
    "\<And>k. spread (kb_bf (set_bf x)) k"
proof -
  obtain x where x: "Set_init (c_world True) (main_conf True) new_files = Inr x"
    unfolding Set_init_def main_conf_fields init_sha1 by (simp add: open_storages_def main_conf_fields Let_def fs_init_def)
  have e: "env_usable (c_world True) (main_conf True)"
    unfolding env_usable_def main_conf_fields using init_sha1 by (simp add: getHashSize_def)
  obtain bf files' where b: "open_storages (c_world True) (main_conf True) new_files = Inr files'"
    "functionCount bf = 1" "set_bf x = kvc_open bf (sf_bf files')"
    by (rule Set_init_cases [OF x e]) simp
  have "sf_bf files' = new_storage True" using b(1) by (auto simp: open_storages_def new_files_def main_conf_fields)
  then have "kb_bf (set_bf x) = bf" using b(3) by (simp add: kvc_open_def storage_keys_def new_storage_def)
  then show thesis using that [OF x e] spread_one b(2) by blast
qed



end
