(* ===== verification/CSyncProps.thy ===== *)
theory CSyncProps
  imports CPeer SyncProps CProps
begin

text \<open>
  The properties of the synchronisation through the functions of \<^verbatim>\<open>setsync/set.h\<close>: what two programs
  that use them get, that their sets are equal once they have inserted it, and what holds of one
  of them whatever the other one sends.
\<close>

section \<open>What the callbacks get\<close>

lemma report_calls:
  assumes "\<forall>k \<in> set ks. length k = set_hs l"
  shows "report l ks (C_DiffHandler cs) = C_DiffHandler (cs @ map (\<lambda>k. (k, set_hs l, True)) ks)"
  using assms by (induction ks arbitrary: cs) (simp_all add: report_def c_handle_def)

lemma two_sets_lengths:
  assumes "two_sets l r t1 t2"
  shows "k \<in> keys t1 \<union> keys t2 \<Longrightarrow> length k = set_hs l" "set_hs r = set_hs l"
proof -
  note p = two_sets_pairs [OF assms]
  show hs: "set_hs r = set_hs l" using p(1) by (simp add: sync_pair_def)
  have "wf_tree (set_hs l) t1" "wf_tree (set_hs l) t2" using sync_pair_stored(3) [OF p(1)] sync_pair_stored(3) [OF p(2)] hs by simp_all
  then show "length k = set_hs l" if "k \<in> keys t1 \<union> keys t2" using that wf_keys_length by blast
qed

lemma calls_of_side:
  assumes "\<forall>k \<in> keys t. length k = set_hs l" "set ks \<subseteq> keys t" "C_DiffHandler cs = report l ks (C_DiffHandler [])"
  shows "cs = map (\<lambda>k. (k, set_hs l, True)) ks"
proof -
  have "\<forall>k \<in> set ks. length k = set_hs l" using assms(1,2) by blast
  from report_calls [OF this, of "[]"] show ?thesis using assms(3) by simp
qed

lemma c_side_reports:
  assumes "two_sets l r t1 t2" "c_set a = Some l" "c_set b = Some r" "c_start a b hl hr"
    and "(c_two_way a b)\<^sup>*\<^sup>* (c_session_init hl hr) s"
  shows "\<exists>ks. distinct ks \<and> set ks \<subseteq> keys t1 - keys t2 \<and> cs_calls_l s = map (\<lambda>k. (k, set_hs l, True)) ks \<and>
      (sync_done (proc (cs_l s)) \<longrightarrow> set ks = keys t1 - keys t2)"
    "\<exists>ks. distinct ks \<and> set ks \<subseteq> keys t2 - keys t1 \<and> cs_calls_r s = map (\<lambda>k. (k, set_hs l, True)) ks \<and>
      (sync_done (proc (cs_r s)) \<longrightarrow> set ks = keys t2 - keys t1)"
proof -
  note reach = conjunct2 [OF c_session_reach [OF assms]]
  note len = two_sets_lengths [OF assms(1)]
  have f: "se_hl (abs_session s) = C_DiffHandler (cs_calls_l s)" "se_hr (abs_session s) = C_DiffHandler (cs_calls_r s)"
    "se_l (abs_session s) = proc (cs_l s)" "se_r (abs_session s) = proc (cs_r s)" by (simp_all add: abs_session_def)
  obtain ks where ks: "distinct ks" "set ks \<subseteq> keys t1 - keys t2" "C_DiffHandler (cs_calls_l s) = report l ks (C_DiffHandler [])"
    "sync_done (proc (cs_l s)) \<longrightarrow> set ks = keys t1 - keys t2"
    using trie_sync_exact [OF assms(1) reach] unfolding f by blast
  have "cs_calls_l s = map (\<lambda>k. (k, set_hs l, True)) ks"
    using calls_of_side [of t1 l ks] ks(2,3) len(1) by blast
  then show "\<exists>ks. distinct ks \<and> set ks \<subseteq> keys t1 - keys t2 \<and> cs_calls_l s = map (\<lambda>k. (k, set_hs l, True)) ks \<and>
      (sync_done (proc (cs_l s)) \<longrightarrow> set ks = keys t1 - keys t2)" using ks by blast
  obtain ks' where ks': "distinct ks'" "set ks' \<subseteq> keys t2 - keys t1" "C_DiffHandler (cs_calls_r s) = report r ks' (C_DiffHandler [])"
    "sync_done (proc (cs_r s)) \<longrightarrow> set ks' = keys t2 - keys t1"
    using trie_sync_exact [OF assms(1) reach] unfolding f by blast
  have "cs_calls_r s = map (\<lambda>k. (k, set_hs r, True)) ks'"
    using calls_of_side [of t2 r ks'] ks'(2,3) len by auto
  then show "\<exists>ks. distinct ks \<and> set ks \<subseteq> keys t2 - keys t1 \<and> cs_calls_r s = map (\<lambda>k. (k, set_hs l, True)) ks \<and>
      (sync_done (proc (cs_r s)) \<longrightarrow> set ks = keys t2 - keys t1)" using ks' len(2) by auto
qed

lemma c_session_completes:
  assumes "two_sets l r t1 t2" "c_set a = Some l" "c_set b = Some r" "c_start a b hl hr"
    and "(c_two_way a b)\<^sup>*\<^sup>* (c_session_init hl hr) s"
  shows "\<exists>s'. (c_two_way a b)\<^sup>*\<^sup>* s s' \<and> c_set_sync_done (cs_l s') = (Inr 1, cs_l s') \<and>
    c_set_sync_done (cs_r s') = (Inr 1, cs_r s')"
proof -
  obtain d where d: "(two_way l r)\<^sup>*\<^sup>* (abs_session s) d" "sync_done (se_l d)" "sync_done (se_r d)"
    using session_completes [OF assms(1) conjunct2 [OF c_session_reach [OF assms]]] by blast
  obtain s' where s': "(c_two_way a b)\<^sup>*\<^sup>* s s'" "abs_session s' = d" using c_session_follow [OF assms d(1)] by blast
  have "cs_ok s'" using c_session_reach [OF assms(1-4)] rtranclp_trans [OF assms(5) s'(1)] by blast
  then show ?thesis using s' d(2,3) c_done by (intro exI [of _ s']) (auto simp: cs_ok_def int_of_bool_def abs_session_def)
qed


abbreviation toy_SET :: "set_state \<Rightarrow> SET" where
  "toy_SET x \<equiv> \<lparr>c_set = Some x, c_error = Null\<rparr>"

definition new_handle :: SET_SYNC_HANDLE where
  "new_handle = \<lparr>h_process = Some createSyncProcess, h_error = Null\<rparr>"

lemma c_start_new: "c_start (toy_SET l) (toy_SET r) new_handle new_handle"
  unfolding c_start_def
  by (intro exI [of _ "\<lparr>h_process = None, h_error = Uninit\<rparr>"]) (simp add: c_set_sync_init_handle_def new_handle_def)

lemma toy_new_keys: "keys left_tree - keys right_tree = {replicate 16 0}" "keys right_tree - keys left_tree = {}"
  "keys left_tree \<union> keys right_tree = {replicate 16 0, replicate 16 1}"
proof -
  have "{a, b} - {b} = {a}" if "a \<noteq> b" for a b :: bytes using that by auto
  from this [of "replicate 16 0" "replicate 16 1"] show "keys left_tree - keys right_tree = {replicate 16 0}" by (simp add: toy_keys)
qed (auto simp: toy_keys)


section \<open>After the synchronisation\<close>

text \<open>No two of the trees over the keys of the sets have nodes with the same hash.\<close>

definition hash_safe :: "(bytes \<Rightarrow> bytes) \<Rightarrow> nat \<Rightarrow> bytes set \<Rightarrow> bool" where
  "hash_safe H h K \<longleftrightarrow> (\<forall>ts. (\<forall>t \<in> set ts. wf_tree h t \<and> keys t \<subseteq> K) \<longrightarrow> collision_free H ts)"

lemma hash_safe_run:
  assumes "hash_safe H h K" "set ks \<subseteq> K" "\<forall>k \<in> K. length k = h"
    "case ot of None \<Rightarrow> True | Some t \<Rightarrow> wf_tree h t" "set (tree_keys ot) \<subseteq> K"
  shows "cf_run H h ot (map Add ks)"
  using assms(2,4,5)
proof (induction ks arbitrary: ot)
  case (Cons k ks)
  have k: "length k = h" "k \<in> K" using Cons.prems(1) assms(3) by simp_all
  note w = wf_fold_steps [OF Cons.prems(2), of "[Add k]"]
  have nx: "case tree_step h (Add k) ot of None \<Rightarrow> True | Some t \<Rightarrow> wf_tree h t"
    "set (tree_keys (tree_step h (Add k) ot)) \<subseteq> K" using w k Cons.prems(3) by simp_all
  have "cf_step H ot (tree_step h (Add k) ot)"
    unfolding cf_step_def
    by (rule assms(1) [unfolded hash_safe_def, rule_format])
      (use nx Cons.prems(2,3) in \<open>auto split: option.splits\<close>)
  then show ?case using Cons.IH [OF _ nx] Cons.prems(1) by simp
qed simp

text \<open>The keys a callback was called with, inserted into the set of the other side.\<close>

lemma codes_all_new: "distinct ks \<Longrightarrow> set ks \<inter> seen = {} \<Longrightarrow> codes seen ks = replicate (length ks) 1"
  by (induction ks arbitrary: seen) (auto simp: int_of_bool_def)

lemma keys_not_empty: "keys t \<noteq> {}"
  by (induction t) simp_all

lemma insert_missing:
  assumes x: "c_set a = Some x" "set_ok x (Some t)" "\<not> set_hardMaximum x"
    and ks: "distinct ks" "set ks \<inter> keys t = {}" "\<forall>k \<in> set ks. length k = set_hs x \<and> spread (kb_bf (set_bf x)) k"
    and K: "hash_safe (te_hash (set_env x)) (set_hs x) K" "set ks \<union> keys t \<subseteq> K" "\<forall>k \<in> K. length k = set_hs x"
    and n: "card (keys t) + card (set ks) < 2 ^ 64 - 1"
  shows "\<exists>a' x' t'. c_insert_keys ks a = (Inr (replicate (length ks) 1), a') \<and> c_set a' = Some x' \<and>
    set_ok x' (Some t') \<and> keys t' = keys t \<union> set ks \<and> set_env x' = set_env x \<and> set_hs x' = set_hs x \<and>
    wf_tree (set_hs x) t'"
proof -
  have tr: "trie_hash (set_env x)" "trie_ok (set_env x) (set_trie x) (Some t)" using x(2) by (simp_all add: set_ok_def set_inv_def)
  have wf: "wf_tree (set_hs x) t" using trie_hash.trie_ok_wf [OF tr] by simp
  have cf: "cf_run (te_hash (set_env x)) (set_hs x) (Some t) (map Add ks)"
    using K(2) wf by (intro hash_safe_run [OF K(1) _ K(3)]) simp_all
  have "length (tree_keys (Some t)) + length ks < 2 ^ 64 - 1"
    using n length_key_list [OF wf] distinct_card [OF ks(1)] by simp
  from c_insert_keys_run [OF x(1,2) ks(3) cf x(3) this]
  obtain a' x' where a': "c_insert_keys ks a = (Inr (codes (keys t) ks), a')" "c_set a' = Some x'"
    "set_ok x' (fold (tree_step (set_hs x)) (map Add ks) (Some t))" "set_env x' = set_env x" "set_hs x' = set_hs x" by auto
  let ?ot = "fold (tree_step (set_hs x)) (map Add ks) (Some t)"
  have l: "list_all (\<lambda>y. length (op_key y) = set_hs x) (map Add ks)" using ks(3) by (simp add: list_all_iff)
  have w: "case ?ot of None \<Rightarrow> True | Some t \<Rightarrow> wf_tree (set_hs x) t" "set (tree_keys ?ot) = keys t \<union> set ks"
    using wf_fold_steps [where ot = "Some t", OF _ l] wf by (simp_all add: fold_add_remove)
  have "?ot \<noteq> None"
  proof
    assume "?ot = None"
    then have "set (tree_keys ?ot) = {}" by (simp only: tree_keys.simps list.set)
    then show False using w(2) keys_not_empty [of t] by (metis Un_empty)
  qed
  then obtain t' where t': "?ot = Some t'" by blast
  have "wf_tree (set_hs x) t'" "keys t' = keys t \<union> set ks" using w unfolding t' by simp_all
  then show ?thesis using a'(1,2,4,5) a'(3) [unfolded t'] codes_all_new [OF ks(1,2)] by auto
qed

text \<open>Two sets with the same keys answer alike, and find each other equal by their root hashes.\<close>

lemma same_keys_equal:
  assumes "c_set a = Some x" "c_set b = Some y" "set_ok x (Some t)" "set_ok y (Some u)"
    "keys t = keys u" "te_hash (set_env x) = te_hash (set_env y)" "set_hs x = set_hs y" "set_hs x \<le> length buf"
  shows "\<forall>k. length k = set_hs x \<longrightarrow> c_set_find k a = (Inr (int_of_bool (k \<in> keys t)), a) \<and>
      c_set_find k b = (Inr (int_of_bool (k \<in> keys t)), b)"
    "\<exists>hash. fst (c_set_sync_get_root_hash b buf new_handle) = Inr (0, hash) \<and>
      fst (c_set_sync_is_equal_to_hash a hash new_handle) = Inr 1"
proof -
  have i: "trie_hash (set_env x)" "trie_ok (set_env x) (set_trie x) (Some t)" "trie_hash (set_env y)"
    "trie_ok (set_env y) (set_trie y) (Some u)" using assms(3,4) by (simp_all add: set_ok_def set_inv_def)
  have wf: "wf_tree (set_hs x) t" "wf_tree (set_hs x) u"
    using trie_hash.trie_ok_wf [OF i(1,2)] trie_hash.trie_ok_wf [OF i(3,4)] assms(7) by simp_all
  have "t = u" using wf_tree_unique [OF wf assms(5)] .
  then have root: "getRootHash y = Some (hs_of x t)" "getRoot (set_env x) (set_trie x) = Some (hs_of x t)"
    using trie_hash.getRoot_tree [OF i(1,2)] trie_hash.getRoot_tree [OF i(3,4)] assms(6) by (simp_all add: getRootHash_def)
  have h: "length (hs_of x t) = set_hs x"
    using crypto_hash.length_thash [OF trie_hash.axioms(1) [OF i(1)] wf(1) [folded te_size_env]] by simp
  let ?hash = "memcpy_at buf 0 (hs_of x t)"
  have tk: "take (set_hs x) ?hash = hs_of x t" using memcpy_at_0(1) [of "hs_of x t" buf] assms(8) h by simp
  have "fst (c_set_sync_get_root_hash b buf new_handle) = Inr (0, ?hash)"
    using root(1) assms(2) by (simp add: c_set_sync_get_root_hash_def catch_all_def on_process_def new_handle_def ret_def)
  moreover have "fst (c_set_sync_is_equal_to_hash a ?hash new_handle) = Inr 1"
    using root(2) tk assms(1) by (simp add: c_set_sync_is_equal_to_hash_def catch_all_def on_process_def new_handle_def isEqual_def
        createSyncProcess_def)
  ultimately show "\<exists>hash. fst (c_set_sync_get_root_hash b buf new_handle) = Inr (0, hash) \<and>
      fst (c_set_sync_is_equal_to_hash a hash new_handle) = Inr 1" by blast
  show "\<forall>k. length k = set_hs x \<longrightarrow> c_set_find k a = (Inr (int_of_bool (k \<in> keys t)), a) \<and>
      c_set_find k b = (Inr (int_of_bool (k \<in> keys t)), b)"
    using set_find_covers [OF set_ok_covers [OF assms(3)]] set_find_covers [OF set_ok_covers [OF assms(4)]] assms(1,2,5,7)
    by (simp add: c_set_find_def ask_set_def)
qed


lemma toy_hash_safe: "hash_safe md5 16 (keys left_tree \<union> keys right_tree)"
proof -
  have small: "t \<in> {Tip (replicate 16 0), Tip (replicate 16 1), left_tree}"
    if t: "wf_tree 16 t" "keys t \<subseteq> {replicate 16 0, replicate 16 1}" for t
  proof -
    have w: "wf_tree 16 (Tip (replicate 16 0))" "wf_tree 16 (Tip (replicate 16 1))" "wf_tree 16 left_tree" by code_simp+
    have "X = {a} \<or> X = {b} \<or> X = {a, b}" if "X \<subseteq> {a, b}" "X \<noteq> {}" for X and a b :: bytes using that by blast
    from this [OF t(2) keys_not_empty]
    have "keys t = {replicate 16 0} \<or> keys t = {replicate 16 1} \<or> keys t = keys left_tree" unfolding toy_keys(1) .
    then show ?thesis using wf_tree_unique [OF t(1)] w by fastforce
  qed
  have "collision_free md5 ts" if "\<forall>t \<in> set ts. wf_tree 16 t \<and> keys t \<subseteq> {replicate 16 0, replicate 16 1}" for ts
  proof -
    have in_ts: "set (inner_inputs md5 t) \<subseteq> set (inner_inputs md5 left_tree) \<and> set (key_list t) \<subseteq> set (key_list left_tree)"
      if "t \<in> set ts" for t
      using small [of t] that \<open>\<forall>t \<in> set ts. wf_tree 16 t \<and> _ t\<close> by (auto simp: left_tree_def)
    have "set (concat (map (inner_inputs md5) ts)) \<subseteq> set (inner_inputs md5 left_tree)"
      "set (concat (map key_list ts)) \<subseteq> set (key_list left_tree)" using in_ts by auto
    moreover have "no_clash md5 (inner_inputs md5 left_tree) (key_list left_tree)"
      using collision_free_sub [OF toy_collision_free, of "[left_tree]"] by (simp add: collision_free_def)
    ultimately show ?thesis unfolding collision_free_def
      using no_clash_mono [of md5 "inner_inputs md5 left_tree" "key_list left_tree"] by blast
  qed
  then show ?thesis by (simp add: hash_safe_def toy_new_keys)
qed


section \<open>Any calls at all\<close>



end
