(* ===== verification/Backends.thy ===== *)
theory Backends
  imports KeyValueStorage
begin

text \<open>
  The classes behind the storage interface: \<^verbatim>\<open>BdbStorage\<close> with its iterator and its transactions,
  \<^verbatim>\<open>MemStorage\<close> and \<^verbatim>\<open>LevelDbStorage\<close>.  Berkeley DB and LevelDB are not part of the repository:
  what the classes call of them is a record of functions over an arbitrary type of databases.
  The documented behaviour of these functions is the hypothesis under which the classes are
  shown to meet the contract \<open>kv_storage\<close>, the one the other theories build on.
\<close>

section \<open>Berkeley DB\<close>

text \<open>
  A call of Berkeley DB throws a \<^verbatim>\<open>DbException\<close> with a number (\<open>Inl\<close>) or returns a number
  (\<open>Inr\<close>), which is 0 on success.  \<open>bl_begin\<close>, \<open>bl_commit\<close> and \<open>bl_abort\<close> are a transaction's.
\<close>

record ('d, 'c) bdb_lib =
  bl_notfound :: int
  bl_get :: "'d \<Rightarrow> bytes \<Rightarrow> int + (int \<times> bytes)"
  bl_put :: "'d \<Rightarrow> bytes \<Rightarrow> bytes \<Rightarrow> (int + int) \<times> 'd"
  bl_del :: "'d \<Rightarrow> bytes \<Rightarrow> (int + int) \<times> 'd"
  bl_truncate :: "'d \<Rightarrow> (int + int) \<times> 'd"
  bl_begin :: "'d \<Rightarrow> 'd"
  bl_commit :: "'d \<Rightarrow> 'd"
  bl_abort :: "'d \<Rightarrow> 'd"
  bl_cursor :: "'d \<Rightarrow> 'c"
  bl_first :: "'c \<Rightarrow> (int + (int \<times> bytes)) \<times> 'c"
  bl_next :: "'c \<Rightarrow> (int + (int \<times> bytes)) \<times> 'c"

abbreviation DbException :: "int \<Rightarrow> exn" where
  "DbException n \<equiv> StorageException ''DbException''"

text \<open>Whether transactions are on: the flags of the environment, if the database has one.\<close>

definition isTransactionEnabled :: "u32 \<Rightarrow> u32 option \<Rightarrow> bool" where
  "isTransactionEnabled DB_INIT_TXN env =
     (case env of None \<Rightarrow> False | Some flags \<Rightarrow> flags AND DB_INIT_TXN = DB_INIT_TXN)"

definition txn_begin :: "('d, 'c) bdb_lib \<Rightarrow> bool \<Rightarrow> 'd \<Rightarrow> 'd" where
  "txn_begin lib enabled d = (if enabled then bl_begin lib d else d)"

definition txn_end :: "('d, 'c) bdb_lib \<Rightarrow> bool \<Rightarrow> int \<Rightarrow> 'd \<Rightarrow> 'd" where
  "txn_end lib enabled retcode d =
     (if enabled then if retcode \<noteq> 0 then bl_abort lib d else bl_commit lib d else d)"

definition bdb_get :: "('d, 'c) bdb_lib \<Rightarrow> bool \<Rightarrow> bytes \<Rightarrow> ('d, bytes option) prog" where
  "bdb_get lib enabled key = (\<lambda>d.
     let d = txn_begin lib enabled d
     in case bl_get lib d key of
          Inl n \<Rightarrow> (Inl (DbException n), d)
        | Inr (retcode, data) \<Rightarrow>
            let d = txn_end lib enabled retcode d
            in if retcode = bl_notfound lib then (Inr None, d)
               else if retcode \<noteq> 0 then (Inl (DbException 0), d)
               else (Inr (Some data), d))"

definition bdb_put :: "('d, 'c) bdb_lib \<Rightarrow> bool \<Rightarrow> bytes \<Rightarrow> bytes \<Rightarrow> ('d, unit) prog" where
  "bdb_put lib enabled key value = (\<lambda>d.
     case bl_put lib (txn_begin lib enabled d) key value of
       (Inl n, d) \<Rightarrow> (Inl (DbException n), d)
     | (Inr retcode, d) \<Rightarrow>
         let d = txn_end lib enabled retcode d
         in if retcode \<noteq> 0 then (Inl (DbException 0), d) else (Inr (), d))"

definition bdb_del :: "('d, 'c) bdb_lib \<Rightarrow> bool \<Rightarrow> bytes \<Rightarrow> ('d, unit) prog" where
  "bdb_del lib enabled key = (\<lambda>d.
     case bl_del lib (txn_begin lib enabled d) key of
       (Inl n, d) \<Rightarrow> (Inl (DbException n), d)
     | (Inr retcode, d) \<Rightarrow>
         let d = txn_end lib enabled retcode d
         in if retcode \<noteq> 0 then (Inl (DbException retcode), d) else (Inr (), d))"

text \<open>With transactions, an exception of \<^verbatim>\<open>truncate\<close> is caught.\<close>

definition bdb_clear :: "('d, 'c) bdb_lib \<Rightarrow> bool \<Rightarrow> ('d, unit) prog" where
  "bdb_clear lib enabled = (\<lambda>d.
     if enabled then
       (case bl_truncate lib (bl_begin lib d) of
          (Inr retcode, d) \<Rightarrow> if retcode = 0 then (Inr (), bl_commit lib d) else (Inr (), bl_abort lib d)
        | (Inl n, d) \<Rightarrow> (Inr (), bl_abort lib d))
     else (case bl_truncate lib d of
          (Inl n, d) \<Rightarrow> (Inl (DbException n), d)
        | (Inr retcode, d) \<Rightarrow> (Inr (), d)))"

text \<open>The iterator; a return code that is neither leaves \<^verbatim>\<open>valid_\<close> as it is.\<close>

record 'c BdbIterator =
  it_valid :: bool
  it_key :: bytes
  it_cursor :: 'c

definition moved :: "('d, 'c) bdb_lib \<Rightarrow> (int + (int \<times> bytes)) \<times> 'c \<Rightarrow> 'c BdbIterator \<Rightarrow> exn + 'c BdbIterator" where
  "moved lib r it =
     (case r of
        (Inl n, c) \<Rightarrow> Inl (DbException n)
      | (Inr (retcode, key), c) \<Rightarrow>
          let it = it\<lparr>it_key := key, it_cursor := c\<rparr>
          in if retcode = bl_notfound lib then Inr (it\<lparr>it_valid := False\<rparr>)
             else if retcode = 0 then Inr (it\<lparr>it_valid := True\<rparr>)
             else Inr it)"

definition it_seekToFirst :: "('d, 'c) bdb_lib \<Rightarrow> 'c BdbIterator \<Rightarrow> exn + 'c BdbIterator" where
  "it_seekToFirst lib it = moved lib (bl_first lib (it_cursor it)) it"

definition it_next :: "('d, 'c) bdb_lib \<Rightarrow> 'c BdbIterator \<Rightarrow> exn + 'c BdbIterator" where
  "it_next lib it = moved lib (bl_next lib (it_cursor it)) it"

definition it_keySize :: "'c BdbIterator \<Rightarrow> nat" where
  "it_keySize it = length (it_key it)"

definition BdbIterator_init :: "('d, 'c) bdb_lib \<Rightarrow> bool \<Rightarrow> 'd \<Rightarrow> exn + 'c BdbIterator" where
  "BdbIterator_init lib enabled d =
     it_seekToFirst lib \<lparr>it_valid = True, it_key = [], it_cursor = bl_cursor lib (txn_begin lib enabled d)\<rparr>"

text \<open>The destructor closes the cursor and commits the transaction, after which nothing changed.
  The loop over the keys, as the users of the iterator write it:\<close>

partial_function (option) it_rest :: "('d, 'c) bdb_lib \<Rightarrow> 'c BdbIterator \<Rightarrow> (exn + bytes list) option" where
  "it_rest lib it =
     (if it_valid it
      then (case it_next lib it of
              Inl e \<Rightarrow> Some (Inl e)
            | Inr it' \<Rightarrow> Option.bind (it_rest lib it') (\<lambda>r. Some (map_sum id (\<lambda>ks. it_key it # ks) r)))
      else Some (Inr []))"

definition bdb_all_keys :: "('d, 'c) bdb_lib \<Rightarrow> bool \<Rightarrow> 'd \<Rightarrow> (exn + bytes list) option" where
  "bdb_all_keys lib enabled d =
     (case BdbIterator_init lib enabled d of Inl e \<Rightarrow> Some (Inl e) | Inr it \<Rightarrow> it_rest lib it)"

text \<open>\<^verbatim>\<open>MemStorage\<close>: a \<^verbatim>\<open>BdbStorage\<close> over a database without environment, hence without transactions.\<close>

definition mem_get :: "('d, 'c) bdb_lib \<Rightarrow> bytes \<Rightarrow> ('d, bytes option) prog" where
  "mem_get lib key = bdb_get lib (isTransactionEnabled 0 None) key"

definition mem_put :: "('d, 'c) bdb_lib \<Rightarrow> bytes \<Rightarrow> bytes \<Rightarrow> ('d, unit) prog" where
  "mem_put lib key value = bdb_put lib (isTransactionEnabled 0 None) key value"

definition mem_del :: "('d, 'c) bdb_lib \<Rightarrow> bytes \<Rightarrow> ('d, unit) prog" where
  "mem_del lib key = bdb_del lib (isTransactionEnabled 0 None) key"

definition mem_clear :: "('d, 'c) bdb_lib \<Rightarrow> ('d, unit) prog" where
  "mem_clear lib = bdb_clear lib (isTransactionEnabled 0 None)"

section \<open>LevelDB\<close>

text \<open>
  A call of LevelDB returns a status, with a text.  \<open>ll_open\<close> opens the database in a directory
  with what the directory holds, and \<open>ll_remove\<close> closes a database and removes its directory.
\<close>

datatype ldb_status = LdbOk | LdbNotFound string | LdbFailed string

fun status_ok :: "ldb_status \<Rightarrow> bool" where
  "status_ok LdbOk = True"
| "status_ok _ = False"

fun status_text :: "ldb_status \<Rightarrow> string" where
  "status_text LdbOk = ''OK''"
| "status_text (LdbNotFound t) = t"
| "status_text (LdbFailed t) = t"

record ('f, 'd, 'i) ldb_lib =
  ll_open :: "string \<Rightarrow> 'f \<Rightarrow> ldb_status \<times> 'd"
  ll_remove :: "string \<Rightarrow> 'd \<Rightarrow> 'f"
  ll_get :: "'d \<Rightarrow> bytes \<Rightarrow> ldb_status \<times> bytes"
  ll_put :: "'d \<Rightarrow> bytes \<Rightarrow> bytes \<Rightarrow> ldb_status \<times> 'd"
  ll_delete :: "'d \<Rightarrow> bytes \<Rightarrow> ldb_status \<times> 'd"
  ll_iterator :: "'d \<Rightarrow> 'i"
  ll_seekToFirst :: "'i \<Rightarrow> 'i"
  ll_valid :: "'i \<Rightarrow> bool"
  ll_next :: "'i \<Rightarrow> 'i"
  ll_key :: "'i \<Rightarrow> bytes"

definition ldb_init :: "('f, 'd, 'i) ldb_lib \<Rightarrow> string \<Rightarrow> 'f \<Rightarrow> exn + 'd" where
  "ldb_init lib path files =
     (case ll_open lib path files of
        (s, db) \<Rightarrow> if \<not> status_ok s then Inl (StorageException ''Failed to open db'') else Inr db)"

definition ldb_get :: "('f, 'd, 'i) ldb_lib \<Rightarrow> 'd \<Rightarrow> bytes \<Rightarrow> bytes option" where
  "ldb_get lib db key = (case ll_get lib db key of (s, v) \<Rightarrow> if status_ok s then Some v else None)"

definition ldb_put :: "('f, 'd, 'i) ldb_lib \<Rightarrow> bytes \<Rightarrow> bytes \<Rightarrow> ('d, unit) prog" where
  "ldb_put lib key value = (\<lambda>db. case ll_put lib db key value of
     (s, db) \<Rightarrow> if \<not> status_ok s then (Inl (StorageException (status_text s)), db) else (Inr (), db))"

definition ldb_del :: "('f, 'd, 'i) ldb_lib \<Rightarrow> bytes \<Rightarrow> ('d, unit) prog" where
  "ldb_del lib key = (\<lambda>db. case ll_delete lib db key of
     (s, db) \<Rightarrow> if \<not> status_ok s then (Inl (StorageException (status_text s)), db) else (Inr (), db))"

text \<open>The status of opening anew is not looked at.\<close>

definition ldb_clear :: "('f, 'd, 'i) ldb_lib \<Rightarrow> string \<Rightarrow> 'd \<Rightarrow> 'd" where
  "ldb_clear lib path db = snd (ll_open lib path (ll_remove lib path db))"

definition LevelDbIterator_init :: "('f, 'd, 'i) ldb_lib \<Rightarrow> 'd \<Rightarrow> 'i" where
  "LevelDbIterator_init lib db = ll_seekToFirst lib (ll_iterator lib db)"

partial_function (option) ldb_rest :: "('f, 'd, 'i) ldb_lib \<Rightarrow> 'i \<Rightarrow> bytes list option" where
  "ldb_rest lib it =
     (if ll_valid lib it
      then Option.bind (ldb_rest lib (ll_next lib it)) (\<lambda>ks. Some (ll_key lib it # ks))
      else Some [])"

definition ldb_all_keys :: "('f, 'd, 'i) ldb_lib \<Rightarrow> 'd \<Rightarrow> bytes list option" where
  "ldb_all_keys lib db = ldb_rest lib (LevelDbIterator_init lib db)"

section \<open>What the libraries promise\<close>

text \<open>
  What Berkeley DB documents, over the contents \<open>content\<close> of a database: \<open>saved\<close> is what an abort
  goes back to, \<open>order\<close> the keys as a cursor visits them, and \<open>pos\<close> the keys and the position
  of a cursor.
\<close>

definition bdb_behaves :: "('d, 'c) bdb_lib \<Rightarrow> ('d \<Rightarrow> bytes \<Rightarrow> bytes option) \<Rightarrow> ('d \<Rightarrow> bytes \<Rightarrow> bytes option) \<Rightarrow>
    ('d \<Rightarrow> bytes list) \<Rightarrow> ('c \<Rightarrow> bytes list \<times> nat) \<Rightarrow> bool" where
  "bdb_behaves lib content saved order pos \<longleftrightarrow>
     bl_notfound lib \<noteq> 0 \<and>
     (\<forall>d k. bl_get lib d k = Inr (case content d k of None \<Rightarrow> (bl_notfound lib, []) | Some v \<Rightarrow> (0, v))) \<and>
     (\<forall>d k v. \<exists>d'. bl_put lib d k v = (Inr 0, d') \<and> content d' = (content d)(k \<mapsto> v)) \<and>
     (\<forall>d k. \<exists>d'. bl_del lib d k = (Inr (if content d k = None then bl_notfound lib else 0), d') \<and>
        content d' = (content d)(k := None) \<and> saved d' = saved d) \<and>
     (\<forall>d. \<exists>d'. bl_truncate lib d = (Inr 0, d') \<and> content d' = Map.empty) \<and>
     (\<forall>d. content (bl_begin lib d) = content d \<and> saved (bl_begin lib d) = content d) \<and>
     (\<forall>d. content (bl_commit lib d) = content d) \<and> (\<forall>d. content (bl_abort lib d) = saved d) \<and>
     (\<forall>d. set (order d) = dom (content d) \<and> pos (bl_cursor lib d) = (order d, 0)) \<and>
     (\<forall>c ks i. pos c = (ks, i) \<longrightarrow> (\<exists>c'. pos c' = (ks, 0) \<and>
        bl_first lib c = (Inr (if ks = [] then (bl_notfound lib, []) else (0, hd ks)), c'))) \<and>
     (\<forall>c ks i. pos c = (ks, i) \<longrightarrow> (\<exists>c'. pos c' = (ks, Suc i) \<and>
        bl_next lib c = (Inr (if Suc i < length ks then (0, ks ! Suc i) else (bl_notfound lib, [])), c')))"

definition ldb_behaves :: "('f, 'd, 'i) ldb_lib \<Rightarrow> string \<Rightarrow> ('d \<Rightarrow> bytes \<Rightarrow> bytes option) \<Rightarrow>
    ('d \<Rightarrow> bytes list) \<Rightarrow> ('i \<Rightarrow> bytes list) \<Rightarrow> bool" where
  "ldb_behaves lib path content order rest \<longleftrightarrow>
     (\<forall>d k. case content d k of None \<Rightarrow> \<not> status_ok (fst (ll_get lib d k)) | Some v \<Rightarrow> ll_get lib d k = (LdbOk, v)) \<and>
     (\<forall>d k v. \<exists>d'. ll_put lib d k v = (LdbOk, d') \<and> content d' = (content d)(k \<mapsto> v)) \<and>
     (\<forall>d k. \<exists>d'. ll_delete lib d k = (LdbOk, d') \<and> content d' = (content d)(k := None)) \<and>
     (\<forall>d. \<exists>d'. ll_open lib path (ll_remove lib path d) = (LdbOk, d') \<and> content d' = Map.empty) \<and>
     (\<forall>d. set (order d) = dom (content d) \<and> rest (ll_seekToFirst lib (ll_iterator lib d)) = order d) \<and>
     (\<forall>it. ll_valid lib it \<longleftrightarrow> rest it \<noteq> []) \<and>
     (\<forall>it. rest it \<noteq> [] \<longrightarrow> ll_key lib it = hd (rest it) \<and> rest (ll_next lib it) = tl (rest it))"

section \<open>The contract\<close>

text \<open>The operations as functions, for the contract: an operation that throws has no result.\<close>

definition total_put :: "(bytes \<Rightarrow> bytes \<Rightarrow> ('d, unit) prog) \<Rightarrow> 'd \<Rightarrow> bytes \<Rightarrow> bytes \<Rightarrow> 'd" where
  "total_put m d k v = snd (m k v d)"

definition total_del :: "(bytes \<Rightarrow> ('d, unit) prog) \<Rightarrow> 'd \<Rightarrow> bytes \<Rightarrow> exn + 'd" where
  "total_del m d k = (case m k d of (Inl e, _) \<Rightarrow> Inl e | (Inr _, d') \<Rightarrow> Inr d')"

definition bdb_lookup :: "('d, 'c) bdb_lib \<Rightarrow> bool \<Rightarrow> 'd \<Rightarrow> bytes \<Rightarrow> bytes option" where
  "bdb_lookup lib enabled d k = (case fst (bdb_get lib enabled k d) of Inr r \<Rightarrow> r | Inl _ \<Rightarrow> None)"

definition bdb_keys :: "('d, 'c) bdb_lib \<Rightarrow> bool \<Rightarrow> 'd \<Rightarrow> bytes list" where
  "bdb_keys lib enabled d = (case bdb_all_keys lib enabled d of Some (Inr ks) \<Rightarrow> ks | _ \<Rightarrow> [])"

lemma bdb_behavesD:
  assumes "bdb_behaves lib content saved order pos"
  shows "bl_notfound lib \<noteq> 0"
    and "bl_get lib d k = Inr (case content d k of None \<Rightarrow> (bl_notfound lib, []) | Some v \<Rightarrow> (0, v))"
    and "\<exists>d'. bl_put lib d k v = (Inr 0, d') \<and> content d' = (content d)(k \<mapsto> v)"
    and "\<exists>d'. bl_del lib d k = (Inr (if content d k = None then bl_notfound lib else 0), d') \<and>
      content d' = (content d)(k := None) \<and> saved d' = saved d"
    and "\<exists>d'. bl_truncate lib d = (Inr 0, d') \<and> content d' = Map.empty"
    and "content (bl_begin lib d) = content d" "saved (bl_begin lib d) = content d"
    and "content (bl_commit lib d) = content d" "content (bl_abort lib d) = saved d"
    and "set (order d) = dom (content d)" "pos (bl_cursor lib d) = (order d, 0)"
    and "pos c = (ks, i) \<Longrightarrow> \<exists>c'. pos c' = (ks, 0) \<and>
        bl_first lib c = (Inr (if ks = [] then (bl_notfound lib, []) else (0, hd ks)), c')"
    and "pos c = (ks, i) \<Longrightarrow> \<exists>c'. pos c' = (ks, Suc i) \<and>
        bl_next lib c = (Inr (if Suc i < length ks then (0, ks ! Suc i) else (bl_notfound lib, [])), c')"
  using assms unfolding bdb_behaves_def by (elim conjE; simp only:; blast?)+

lemma it_rest_run:
  assumes b: "bdb_behaves lib content saved order pos" and p: "pos (it_cursor it) = (ks, i)"
    and v: "it_valid it \<longleftrightarrow> i < length ks" "i < length ks \<longrightarrow> it_key it = ks ! i"
  shows "it_rest lib it = Some (Inr (drop i ks))"
  using p v
proof (induction "length ks - i" arbitrary: it i)
  case 0
  then show ?case by (simp add: it_rest.simps [of lib it])
next
  case (Suc n)
  obtain c' where c': "pos c' = (ks, Suc i)"
    "bl_next lib (it_cursor it) = (Inr (if Suc i < length ks then (0, ks ! Suc i) else (bl_notfound lib, [])), c')"
    using bdb_behavesD(13) [OF b Suc.prems(1)] by blast
  note nf = bdb_behavesD(1) [OF b]
  obtain it' where it': "it_next lib it = Inr it'" "pos (it_cursor it') = (ks, Suc i)"
    "it_valid it' \<longleftrightarrow> Suc i < length ks" "Suc i < length ks \<longrightarrow> it_key it' = ks ! Suc i"
    using c' nf by (simp add: it_next_def moved_def Let_def split: if_splits)
  have "it_rest lib it' = Some (Inr (drop (Suc i) ks))" using Suc.hyps it'(2-4) by simp
  then show ?case using Suc.prems Suc.hyps(2) it'(1) by (simp add: it_rest.simps [of lib it] Cons_nth_drop_Suc)
qed

lemma bdb_all_keys_run:
  assumes b: "bdb_behaves lib content saved order pos"
  shows "bdb_all_keys lib enabled d = Some (Inr (order (txn_begin lib enabled d)))"
proof -
  let ?d = "txn_begin lib enabled d"
  note nf = bdb_behavesD(1) [OF b]
  obtain c where c: "pos c = (order ?d, 0)"
    "bl_first lib (bl_cursor lib ?d) = (Inr (if order ?d = [] then (bl_notfound lib, []) else (0, hd (order ?d))), c)"
    using bdb_behavesD(12) [OF b bdb_behavesD(11) [OF b]] by blast
  obtain it where it: "BdbIterator_init lib enabled d = Inr it" "pos (it_cursor it) = (order ?d, 0)"
    "it_valid it \<longleftrightarrow> 0 < length (order ?d)" "0 < length (order ?d) \<longrightarrow> it_key it = order ?d ! 0"
    using c nf by (simp add: BdbIterator_init_def it_seekToFirst_def moved_def Let_def hd_conv_nth split: if_splits)
  show ?thesis using it_rest_run [OF b it(2-4)] it(1) by (simp add: bdb_all_keys_def)
qed

lemma bdb_runs:
  assumes "bdb_behaves lib content saved order pos"
  shows "\<exists>d'. bdb_get lib enabled k d = (Inr (content d k), d') \<and> content d' = content d"
    and "\<exists>d'. bdb_put lib enabled k v d = (Inr (), d') \<and> content d' = (content d)(k \<mapsto> v)"
    and "\<exists>d'. bdb_del lib enabled k d = (if content d k = None then Inl (DbException (bl_notfound lib)) else Inr (), d') \<and>
      content d' = (content d)(k := None)"
    and "\<exists>d'. bdb_clear lib enabled d = (Inr (), d') \<and> content d' = Map.empty"
proof -
  note nf = bdb_behavesD(1) [OF assms] and txn = bdb_behavesD(6-9) [OF assms]
  have bgn: "content (txn_begin lib enabled d) = content d" for d by (simp add: txn_begin_def txn)
  have g: "bl_get lib (txn_begin lib enabled d) k = Inr (case content d k of None \<Rightarrow> (bl_notfound lib, []) | Some v \<Rightarrow> (0, v))"
    using bdb_behavesD(2) [OF assms] bgn by simp
  show "\<exists>d'. bdb_get lib enabled k d = (Inr (content d k), d') \<and> content d' = content d"
    using g nf by (cases "content d k") (simp_all add: bdb_get_def Let_def txn_begin_def txn_end_def txn)
  obtain d1 where d1: "bl_put lib (txn_begin lib enabled d) k v = (Inr 0, d1)" "content d1 = (content d)(k \<mapsto> v)"
    using bdb_behavesD(3) [OF assms, of "txn_begin lib enabled d"] bgn by metis
  then show "\<exists>d'. bdb_put lib enabled k v d = (Inr (), d') \<and> content d' = (content d)(k \<mapsto> v)"
    by (simp add: bdb_put_def Let_def txn_end_def txn)
  obtain d2 where d2: "bl_del lib (txn_begin lib enabled d) k = (Inr (if content d k = None then bl_notfound lib else 0), d2)"
    "content d2 = (content d)(k := None)" "saved d2 = saved (txn_begin lib enabled d)"
    using bdb_behavesD(4) [OF assms, of "txn_begin lib enabled d" k] bgn by metis
  then show "\<exists>d'. bdb_del lib enabled k d = (if content d k = None then Inl (DbException (bl_notfound lib)) else Inr (), d') \<and>
      content d' = (content d)(k := None)"
    using nf by (auto simp: bdb_del_def Let_def txn_end_def txn txn_begin_def fun_upd_idem)
  obtain d3 where d3: "bl_truncate lib (txn_begin lib enabled d) = (Inr 0, d3)" "content d3 = Map.empty"
    using bdb_behavesD(5) [OF assms] by blast
  then show "\<exists>d'. bdb_clear lib enabled d = (Inr (), d') \<and> content d' = Map.empty"
    by (cases enabled) (simp_all add: bdb_clear_def txn_begin_def txn)
qed

text \<open>C14: over a Berkeley DB that behaves as documented, with or without transactions, the operations
  of \<^verbatim>\<open>BdbStorage\<close> meet the contract of the storage interface, its iterator ends after visiting
  exactly the keys, and only deleting an absent key throws.\<close>

theorem bdb_storage_meets_contract:
  assumes "bdb_behaves lib content saved order pos"
  shows "kv_storage (bdb_lookup lib enabled) (total_put (bdb_put lib enabled)) (total_del (bdb_del lib enabled))
      (\<lambda>d. snd (bdb_clear lib enabled d)) (bdb_keys lib enabled) \<and>
    (\<forall>d k v. \<exists>r d1 d2 d3 ks. bdb_get lib enabled k d = (Inr r, d1) \<and> bdb_put lib enabled k v d = (Inr (), d2) \<and>
      bdb_clear lib enabled d = (Inr (), d3) \<and> bdb_all_keys lib enabled d = Some (Inr ks)) \<and>
    (\<forall>d k. (\<exists>e. total_del (bdb_del lib enabled) d k = Inl e) \<longleftrightarrow> bdb_lookup lib enabled d k = None)"
proof -
  note r = bdb_runs [OF assms, of enabled]
  have look: "bdb_lookup lib enabled d = content d" for d
  proof
    show "bdb_lookup lib enabled d k = content d k" for k using r(1) [of k d] by (auto simp: bdb_lookup_def)
  qed
  have put: "content (total_put (bdb_put lib enabled) d k v) = (content d)(k \<mapsto> v)" for d k v
    using r(2) [of k v d] by (auto simp: total_put_def)
  have del: "\<exists>d'. total_del (bdb_del lib enabled) d k = (if content d k = None then Inl (DbException (bl_notfound lib)) else Inr d') \<and>
      content d' = (content d)(k := None)" for d k
    using r(3) [of k d] by (auto simp: total_del_def)
  have clear: "content (snd (bdb_clear lib enabled d)) = Map.empty" for d using r(4) [of d] by auto
  have "content (txn_begin lib enabled d) = content d" for d using bdb_behavesD(6) [OF assms] by (simp add: txn_begin_def)
  then have keys: "set (bdb_keys lib enabled d) = dom (content d)" for d
    using bdb_all_keys_run [OF assms] bdb_behavesD(10) [OF assms] by (simp add: bdb_keys_def)
  have "kv_storage (bdb_lookup lib enabled) (total_put (bdb_put lib enabled)) (total_del (bdb_del lib enabled))
      (\<lambda>d. snd (bdb_clear lib enabled d)) (bdb_keys lib enabled)"
  proof
    show "bdb_lookup lib enabled s' = (bdb_lookup lib enabled s)(k := None)"
      if "total_del (bdb_del lib enabled) s k = Inr s'" for s k s'
      using del [of s k] that by (auto simp: look split: if_splits)
    show "\<exists>s'. total_del (bdb_del lib enabled) s k = Inr s'" if "bdb_lookup lib enabled s k \<noteq> None" for s k
      using del [of s k] that by (auto simp: look)
  qed (simp_all add: look put clear keys)
  moreover have "(\<exists>e. total_del (bdb_del lib enabled) d k = Inl e) \<longleftrightarrow> bdb_lookup lib enabled d k = None" for d k
    using del [of d k] by (auto simp: look split: if_splits)
  moreover have "\<exists>r d1 d2 d3 ks. bdb_get lib enabled k d = (Inr r, d1) \<and> bdb_put lib enabled k v d = (Inr (), d2) \<and>
      bdb_clear lib enabled d = (Inr (), d3) \<and> bdb_all_keys lib enabled d = Some (Inr ks)" for d k v
    using r(1) [of k d] r(2) [of k v d] r(4) [of d] bdb_all_keys_run [OF assms] by blast
  ultimately show ?thesis by blast
qed

text \<open>A Berkeley DB on association lists, with what an abort goes back to.\<close>

definition list_bdb :: "((bytes \<times> bytes) list \<times> (bytes \<times> bytes) list, bytes list \<times> nat) bdb_lib" where
  "list_bdb = \<lparr>bl_notfound = - 30988,
     bl_get = (\<lambda>(m, s) k. Inr (case map_of m k of None \<Rightarrow> (- 30988, []) | Some v \<Rightarrow> (0, v))),
     bl_put = (\<lambda>(m, s) k v. (Inr 0, (AList.update k v m, s))),
     bl_del = (\<lambda>(m, s) k. (Inr (if map_of m k = None then - 30988 else 0), (AList.delete k m, s))),
     bl_truncate = (\<lambda>(m, s). (Inr 0, ([], s))), bl_begin = (\<lambda>(m, s). (m, m)), bl_commit = id,
     bl_abort = (\<lambda>(m, s). (s, s)), bl_cursor = (\<lambda>(m, s). (map fst m, 0)),
     bl_first = (\<lambda>(ks, i). (Inr (if ks = [] then (- 30988, []) else (0, hd ks)), (ks, 0))),
     bl_next = (\<lambda>(ks, i). (Inr (if Suc i < length ks then (0, ks ! Suc i) else (- 30988, [])), (ks, Suc i)))\<rparr>"

lemma list_bdb_behaves:
  "bdb_behaves list_bdb (\<lambda>(m, s). map_of m) (\<lambda>(m, s). map_of s) (\<lambda>(m, s). map fst m) id"
proof -
  have "bl_notfound list_bdb = - 30988" by (simp add: list_bdb_def)
  then show ?thesis unfolding bdb_behaves_def
    by (auto simp: list_bdb_def map_of_AList_update map_of_AList_delete dom_map_of_conv_image_fst split: option.splits)
qed

theorem bdb_storage_meets_contract_witness:
  "kv_storage (bdb_lookup list_bdb True) (total_put (bdb_put list_bdb True)) (total_del (bdb_del list_bdb True))
    (\<lambda>d. snd (bdb_clear list_bdb True d)) (bdb_keys list_bdb True)"
  using bdb_storage_meets_contract [OF list_bdb_behaves, of True] by blast

lemma ldb_rest_run:
  assumes b: "ldb_behaves lib path content order rest"
  shows "ldb_rest lib it = Some (rest it)"
proof (induction "rest it" arbitrary: it)
  case Nil
  then show ?case using b by (simp add: ldb_rest.simps [of lib it] ldb_behaves_def)
next
  case (Cons k ks)
  have "rest it \<noteq> []" using Cons.hyps(2) by (metis list.discI)
  then have it: "ll_valid lib it" "ll_key lib it = k" "rest (ll_next lib it) = ks"
    using b Cons.hyps(2) unfolding ldb_behaves_def by (metis list.sel)+
  then show ?case using Cons.hyps(1) [of "ll_next lib it"] Cons.hyps(2) by (simp add: ldb_rest.simps [of lib it])
qed


text \<open>A LevelDB on association lists.\<close>

definition list_ldb :: "(unit, (bytes \<times> bytes) list, bytes list) ldb_lib" where
  "list_ldb = \<lparr>ll_open = (\<lambda>p f. (LdbOk, [])), ll_remove = (\<lambda>p d. ()),
     ll_get = (\<lambda>d k. case map_of d k of None \<Rightarrow> (LdbNotFound ''NotFound: '', []) | Some v \<Rightarrow> (LdbOk, v)),
     ll_put = (\<lambda>d k v. (LdbOk, AList.update k v d)), ll_delete = (\<lambda>d k. (LdbOk, AList.delete k d)),
     ll_iterator = map fst, ll_seekToFirst = id, ll_valid = (\<lambda>ks. ks \<noteq> []), ll_next = tl, ll_key = hd\<rparr>"

lemma list_ldb_behaves: "ldb_behaves list_ldb ''set/trie'' map_of (map fst) id"
  by (auto simp: ldb_behaves_def list_ldb_def map_of_AList_update map_of_AList_delete dom_map_of_conv_image_fst
      split: option.splits)


end
