(* ===== verification/DbStats.thy ===== *)
theory DbStats
  imports Backends
begin

text \<open>
  \<^verbatim>\<open>setsync/utils/BerkeleyDB.cpp\<close>: the statistics of a database and the name of its type.  The
  database is a record of what the calls of Berkeley DB give: the result of \<^verbatim>\<open>get_type\<close> with the
  type it writes, and the numbers of keys and of data in the block that \<^verbatim>\<open>stat\<close> writes, if it
  writes one.  What \<^verbatim>\<open>stat\<close> returns is not looked at, so without a block an uninitialised pointer
  is used.
\<close>

datatype DBTYPE = DB_BTREE | DB_HASH | DB_RECNO | DB_QUEUE | DB_UNKNOWN

record db_info =
  di_result :: int
  di_type :: DBTYPE
  di_stat :: "(u32 \<times> u32) option"

definition db_number :: "((u32 \<times> u32) \<Rightarrow> u32) \<Rightarrow> db_info \<Rightarrow> exn + u64" where
  "db_number field db =
     (if di_result db \<noteq> 0 then Inl (DbException (di_result db))
      else case di_type db of
          DB_UNKNOWN \<Rightarrow> Inr 0
        | _ \<Rightarrow> (case di_stat db of None \<Rightarrow> Inl UndefinedBehaviour | Some st \<Rightarrow> Inr (ucast (field st))))"

definition numberOfKeys :: "db_info \<Rightarrow> exn + u64" where
  "numberOfKeys db = db_number fst db"

definition numberOfData :: "db_info \<Rightarrow> exn + u64" where
  "numberOfData db = db_number snd db"

text \<open>The type, which \<^verbatim>\<open>get_type\<close> writes when it succeeds, and which is \<open>junk\<close> before.\<close>

definition tableTypeToString :: "DBTYPE \<Rightarrow> db_info \<Rightarrow> string" where
  "tableTypeToString junk db =
     (case if di_result db = 0 then di_type db else junk of
        DB_HASH \<Rightarrow> ''DB_HASH''
      | DB_BTREE \<Rightarrow> ''DB_BTREE''
      | DB_QUEUE \<Rightarrow> ''DB_QUEUE''
      | DB_RECNO \<Rightarrow> ''DB_RECNO''
      | DB_UNKNOWN \<Rightarrow> ''unknown type'')"

text \<open>The numbers never leave 32 bits, and a table of an unknown type counts as empty.\<close>

lemma db_number_bound: "db_number field db = Inr n \<Longrightarrow> n < 2 ^ 32"
proof -
  have b: "(ucast w :: u64) < 2 ^ 32" for w :: u32
  proof -
    have "unat w < 2 ^ LENGTH(32)" by (rule unsigned_less)
    then show ?thesis by (simp add: word_less_nat_alt unsigned_ucast_eq take_bit_nat_eq_self)
  qed
  show "db_number field db = Inr n \<Longrightarrow> n < 2 ^ 32"
    using b by (auto simp: db_number_def split: if_splits DBTYPE.splits option.splits)
qed

lemma db_number_error:
  "db_number field db = Inl e \<longleftrightarrow>
     (di_result db \<noteq> 0 \<and> e = DbException (di_result db)) \<or>
     (di_result db = 0 \<and> di_type db \<noteq> DB_UNKNOWN \<and> di_stat db = None \<and> e = UndefinedBehaviour)"
  by (auto simp: db_number_def split: if_splits DBTYPE.splits option.splits)

lemma tableTypeToString_inj:
  "di_result db = 0 \<Longrightarrow> di_result db' = 0 \<Longrightarrow>
   tableTypeToString junk db = tableTypeToString junk' db' \<longleftrightarrow> di_type db = di_type db'"
  by (cases "di_type db"; cases "di_type db'") (simp_all add: tableTypeToString_def)

end
