(* ===== verification/FileSystem.thy ===== *)
theory FileSystem
  imports CryptoHash
begin

text \<open>
  \<^verbatim>\<open>setsync/utils/FileSystem.cpp\<close>.  The directory that a path names is a tree: a directory has
  whether it can be read and whether it can be changed, and the entries that \<^verbatim>\<open>readdir\<close>
  returns, in its order, \<^verbatim>\<open>.\<close> and \<^verbatim>\<open>..\<close> among them; what those two lead to is never looked at.
  An operation returns what is then found at its path, \<open>None\<close> for nothing.  A symbolic link
  would lead out of the tree, and allocations succeed.
\<close>

datatype file_tree =
    Regular nat \<comment> \<open>a file with its size\<close>
  | Special     \<comment> \<open>a device, a pipe or a socket\<close>
  | Unstatable  \<comment> \<open>an entry for which \<^verbatim>\<open>stat\<close> fails, such as a link to nothing\<close>
  | Directory bool bool "(string \<times> file_tree) list"

definition dots :: "string \<Rightarrow> bool" where
  "dots name \<longleftrightarrow> name = ''.'' \<or> name = ''..''"

section \<open>Removal\<close>

text \<open>
  The system calls on the entry of a directory that can be changed or not: \<^verbatim>\<open>unlink\<close> removes
  what is no directory, \<^verbatim>\<open>rmdir\<close> a directory whose only entries are the two.
\<close>

fun is_directory :: "file_tree \<Rightarrow> bool" where
  "is_directory (Directory r w es) = True"
| "is_directory _ = False"

definition unlink :: "bool \<Rightarrow> file_tree \<Rightarrow> int \<times> file_tree option" where
  "unlink writable t = (if writable \<and> \<not> is_directory t then (0, None) else (- 1, Some t))"

definition rmdir :: "bool \<Rightarrow> file_tree \<Rightarrow> int \<times> file_tree option" where
  "rmdir writable t =
     (case t of
        Directory r w es \<Rightarrow> if writable \<and> list_all (\<lambda>(name, _). dots name) es then (0, None) else (- 1, Some t)
      | _ \<Rightarrow> (- 1, Some t))"

text \<open>
  The loop stops at the first failure.  \<open>writable\<close> is of the directory that holds the entry, and
  the entries that are left are the ones before with what failed, and those after it.
\<close>

fun rmDirRecursive :: "bool \<Rightarrow> file_tree \<Rightarrow> int \<times> file_tree option"
  and rm_entries :: "bool \<Rightarrow> (string \<times> file_tree) list \<Rightarrow> int \<times> (string \<times> file_tree) list"
where
  "rmDirRecursive writable (Directory r w es) =
     (if r then
        (case rm_entries w es of (res, es) \<Rightarrow>
           if res = 0 then rmdir writable (Directory r w es) else (res, Some (Directory r w es)))
      else (- 1, Some (Directory r w es)))"
| "rmDirRecursive writable (Regular n) = (- 1, Some (Regular n))"
| "rmDirRecursive writable Special = (- 1, Some Special)"
| "rmDirRecursive writable Unstatable = (- 1, Some Unstatable)"
| "rm_entries writable [] = (0, [])"
| "rm_entries writable ((name, t) # es) =
     (if dots name then (case rm_entries writable es of (res, es) \<Rightarrow> (res, (name, t) # es))
      else
        case (case t of
            Unstatable \<Rightarrow> (- 1, Some t)
          | Directory _ _ _ \<Rightarrow> rmDirRecursive writable t
          | _ \<Rightarrow> unlink writable t) of
          (r2, None) \<Rightarrow> if r2 = 0 then rm_entries writable es else (r2, es)
        | (r2, Some t) \<Rightarrow> if r2 = 0
            then (case rm_entries writable es of (res, es) \<Rightarrow> (res, (name, t) # es))
            else (r2, (name, t) # es))"

section \<open>Sizes\<close>

text \<open>
  \<^verbatim>\<open>fileSize\<close> does not look at what \<^verbatim>\<open>stat\<close> returns: \<open>other\<close> is what the file system says of
  anything but a regular file, and what the variable held when there is nothing.
\<close>

fun fileSize :: "u64 \<Rightarrow> file_tree option \<Rightarrow> u64" where
  "fileSize other (Some (Regular n)) = word_of_nat n"
| "fileSize other _ = other"

fun dirSize :: "file_tree \<Rightarrow> u64" and entries_size :: "(string \<times> file_tree) list \<Rightarrow> u64" where
  "dirSize (Directory r w es) = (if r then entries_size es else 0)"
| "dirSize (Regular n) = 0"
| "dirSize Special = 0"
| "dirSize Unstatable = 0"
| "entries_size [] = 0"
| "entries_size ((name, t) # es) =
     (if dots name then entries_size es
      else (case t of
          Directory _ _ _ \<Rightarrow> dirSize t
        | Regular n \<Rightarrow> fileSize 0 (Some t)
        | _ \<Rightarrow> 0) + entries_size es)"

section \<open>Temporary directories\<close>

text \<open>
  \<^verbatim>\<open>mkdtemp\<close> is an argument: the name it makes of a template, if it makes a directory.  The
  static functions of the file called \<^verbatim>\<open>mkTempDir\<close> end without a return statement.
\<close>

definition temp_template :: "string \<Rightarrow> string" where
  "temp_template prefix = c_str (prefix @ ''XXXXXX'')"

definition mkTempDir :: "(string \<Rightarrow> string option) \<Rightarrow> string \<Rightarrow> exn + string" where
  "mkTempDir mkdtemp prefix =
     (case mkdtemp (temp_template prefix) of
        Some tempdir \<Rightarrow> Inl UndefinedBehaviour
      | None \<Rightarrow> Inl (CString ''couldn't create temporary directory''))"

definition TemporaryDirectory_init :: "(string \<Rightarrow> string option) \<Rightarrow> string \<Rightarrow> exn + string" where
  "TemporaryDirectory_init mkdtemp path =
     (case mkdtemp (temp_template path) of
        Some tempdir \<Rightarrow> Inr tempdir
      | None \<Rightarrow> Inl (CString ''couldn't create temporary directory''))"

definition TemporaryDirectory_free :: "string \<Rightarrow> bool \<Rightarrow> file_tree \<Rightarrow> file_tree option" where
  "TemporaryDirectory_free path writable t = (if 6 < length path then snd (rmDirRecursive writable t) else Some t)"

section \<open>What is removed\<close>

text \<open>The trees that can be removed, and the trees with a part of the entries of another.\<close>

fun removable :: "bool \<Rightarrow> file_tree \<Rightarrow> bool" and entries_removable :: "bool \<Rightarrow> (string \<times> file_tree) list \<Rightarrow> bool" where
  "removable writable (Directory r w es) = (writable \<and> r \<and> entries_removable w es)"
| "removable writable Unstatable = False"
| "removable writable (Regular n) = writable"
| "removable writable Special = writable"
| "entries_removable writable [] = True"
| "entries_removable writable ((name, t) # es) = ((dots name \<or> removable writable t) \<and> entries_removable writable es)"

fun pruned :: "file_tree \<Rightarrow> file_tree \<Rightarrow> bool"
  and entries_pruned :: "(string \<times> file_tree) list \<Rightarrow> (string \<times> file_tree) list \<Rightarrow> bool"
where
  "pruned (Directory r' w' es') (Directory r w es) = (r' = r \<and> w' = w \<and> entries_pruned es' es)"
| "pruned (Directory r' w' es') _ = False"
| "pruned t' t = (t' = t)"
| "entries_pruned [] es = True"
| "entries_pruned (e # es') [] = False"
| "entries_pruned ((name', t') # es') ((name, t) # es) =
     (name' = name \<and> pruned t' t \<and> entries_pruned es' es \<or> entries_pruned ((name', t') # es') es)"

lemma entries_pruned_refl: "(\<And>name t. (name, t) \<in> set es \<Longrightarrow> pruned t t) \<Longrightarrow> entries_pruned es es"
proof (induction es)
  case (Cons e es)
  obtain name t where "e = (name, t)" by fastforce
  moreover have "pruned t t" "entries_pruned es es" using Cons.prems Cons.IH \<open>e = (name, t)\<close> by (auto intro: Cons.IH Cons.prems)
  ultimately show ?case by simp
qed simp

lemma pruned_refl: "pruned t t"
  by (induction t) (auto intro!: entries_pruned_refl)

text \<open>What the removal of a list of entries leaves.\<close>

lemma entries_pruned_drop: "entries_pruned es' es \<Longrightarrow> entries_pruned es' (e # es)"
  by (cases e; cases es') auto

lemma rm_result:
  "case rmDirRecursive writable t of (res, left) \<Rightarrow>
     (is_directory t \<longrightarrow> (res = 0 \<longleftrightarrow> removable writable t)) \<and> (\<not> is_directory t \<longrightarrow> res \<noteq> 0) \<and> res \<in> {0, - 1} \<and>
     (case left of None \<Rightarrow> res = 0 | Some t' \<Rightarrow> res = - 1 \<and> pruned t' t)"
  "case rm_entries writable es of (res, left) \<Rightarrow>
     (res = 0 \<longleftrightarrow> entries_removable writable es) \<and> res \<in> {0, - 1} \<and> entries_pruned left es \<and>
     (res = 0 \<longrightarrow> list_all (\<lambda>(name, _). dots name) left)"
proof (induction writable t and writable es rule: rmDirRecursive_rm_entries.induct)
  case (1 writable r w es)
  then show ?case by (auto simp: rmdir_def pruned_refl split: prod.splits)
next
  case (6 writable name t es)
  show ?case
  proof (cases "dots name")
    case True
    then show ?thesis using 6(1) by (auto simp: pruned_refl split: prod.splits)
  next
    case False
    then show ?thesis using 6 entries_pruned_drop entries_pruned_refl [of es]
      by (cases t) (auto simp: unlink_def pruned_refl split: prod.splits option.splits if_splits)
  qed
qed (simp_all add: pruned_refl)

section \<open>Properties\<close>

text \<open>C40: \<^verbatim>\<open>rmDirRecursive\<close> returns 0 exactly when every directory below the path can be read and
  changed and \<^verbatim>\<open>stat\<close> works on every entry, and then nothing is left at the path; otherwise it
  returns -1 and a part of the tree is left, in which no entry is new or has moved.\<close>

theorem rmDirRecursive_exact:
  "case rmDirRecursive writable (Directory r w es) of (res, left) \<Rightarrow>
     if removable writable (Directory r w es) then res = 0 \<and> left = None
     else res = - 1 \<and> (\<exists>t'. left = Some t' \<and> pruned t' (Directory r w es))"
proof -
  obtain res left where rm: "rmDirRecursive writable (Directory r w es) = (res, left)" by fastforce
  have "(res = 0 \<longleftrightarrow> removable writable (Directory r w es)) \<and> res \<in> {0, - 1} \<and>
      (case left of None \<Rightarrow> res = 0 | Some t' \<Rightarrow> res = - 1 \<and> pruned t' (Directory r w es))"
    using rm_result(1) [where writable = writable and t = "Directory r w es"] unfolding rm prod.case is_directory.simps by blast
  then show ?thesis unfolding rm prod.case by (cases left) auto
qed

text \<open>The size of a directory is the sum of the sizes of the files that can be reached in it.\<close>

fun reachable_size :: "file_tree \<Rightarrow> nat" and entries_reachable_size :: "(string \<times> file_tree) list \<Rightarrow> nat" where
  "reachable_size (Regular n) = n"
| "reachable_size (Directory r w es) = (if r then entries_reachable_size es else 0)"
| "reachable_size _ = 0"
| "entries_reachable_size [] = 0"
| "entries_reachable_size ((name, t) # es) = (if dots name then 0 else reachable_size t) + entries_reachable_size es"

lemma dirSize_reachable:
  "is_directory t \<Longrightarrow> dirSize t = word_of_nat (reachable_size t)"
  "entries_size es = word_of_nat (entries_reachable_size es)"
proof (induction t and es rule: dirSize_entries_size.induct)
  case (6 name t es)
  then show ?case by (cases t) auto
qed simp_all

text \<open>A removal never leaves more behind than there was.\<close>

lemma pruned_size:
  "pruned t' t \<Longrightarrow> reachable_size t' \<le> reachable_size t"
  "entries_pruned es' es \<Longrightarrow> entries_reachable_size es' \<le> entries_reachable_size es"
proof (induction t' t and es' es rule: pruned_entries_pruned.induct)
qed (auto split: if_splits)

text \<open>
  A temporary directory that was made is gone when its object is destroyed; \<^verbatim>\<open>mkdtemp\<close> only
  replaces the last six characters of the template.
\<close>

lemma temporary_directory_gone:
  assumes "TemporaryDirectory_init mkdtemp prefix = Inr path" "prefix \<noteq> []" "CHR 0x00 \<notin> set prefix"
    and "\<And>template path. mkdtemp template = Some path \<Longrightarrow> length path = length template"
    and "removable writable (Directory r w es)"
  shows "TemporaryDirectory_free path writable (Directory r w es) = None"
proof -
  have "c_str (prefix @ ''XXXXXX'') = prefix @ ''XXXXXX''" using assms(3) by (auto simp: c_str_def takeWhile_eq_all_conv)
  then have "length path = length prefix + 6"
    using assms(1,4) by (auto simp: TemporaryDirectory_init_def temp_template_def split: option.splits)
  then have "6 < length path" using assms(2) by simp
  moreover obtain res left where rm: "rmDirRecursive writable (Directory r w es) = (res, left)" by fastforce
  have "res = 0" "left = None"
    using rm_result(1) [where writable = writable and t = "Directory r w es"] assms(5) unfolding rm prod.case
    by (auto split: option.splits)
  ultimately show ?thesis using rm unfolding TemporaryDirectory_free_def by (simp del: rmDirRecursive.simps)
qed

end
