(* ===== verification/Spec2Isabelle.thy ===== *)
theory Spec2Isabelle
  imports TrieProps Trie2Dot CryptoProps DigestFiles StringKeys BloomProps SetProps CSyncProps DbStats FileSystem
begin

text \<open>
  A verification development of libsetsync, a library that keeps sets of hashes and finds the
  differences between two of them over a network.

  \<^bold>\<open>The program.\<close>  A set (class \<^verbatim>\<open>Set\<close>, \<^verbatim>\<open>src/setsync/Set.cpp\<close>) is made of three structures, each
  over a key-value storage: a trie of hashes whose nodes are stored under their own hashes
  (\<^verbatim>\<open>trie/KeyValueTrie.cpp\<close>), so that equal sets have equal roots; a Bloom filter in a mapped file
  with, per bit, the keys that set it (\<^verbatim>\<open>bloom/KeyValueCountingBloomFilter.cpp\<close>), so that keys can
  be removed; and an index of data (\<^verbatim>\<open>index/KeyValueIndex.cpp\<close>).  Hashes come from the PolarSSL
  digests in \<^verbatim>\<open>crypto/\<close>, behind class \<^verbatim>\<open>CryptoHash\<close>.  Two sets are synchronised by two objects of
  class \<^verbatim>\<open>SynchronizationProcess\<close>, which send each other chunks of the filter, hashes of subtrees
  and bits that answer them, and report the keys the other side lacks to a handler
  (\<^verbatim>\<open>DiffHandler.cpp\<close>).  A C interface (\<^verbatim>\<open>set.h\<close>) wraps all of it, and \<^verbatim>\<open>main.c\<close> uses that.

  \<^bold>\<open>Theories and sources.\<close>
  \<^item> \<open>Prelude\<close>: bytes, words, the exceptions and the programs \<open>('s, 'a) prog\<close> (a state to a result or
    an exception, and a state) in which stateful code is written; \<open>BitSet\<close>: \<^verbatim>\<open>utils/bitset.h\<close> and
    \<^verbatim>\<open>utils/OutputFunctions.cpp\<close>.
  \<^item> \<open>KeyValueStorage\<close>: the interface \<^verbatim>\<open>storage/KeyValueStorage.h\<close> as the locale \<open>kv_storage\<close>, and the
    association list in which the other theories meet it; \<open>Backends\<close>: \<^verbatim>\<open>BdbStorage\<close>, \<^verbatim>\<open>MemStorage\<close> and
    \<^verbatim>\<open>LevelDbStorage\<close> over the functions they call, shown to meet the same contract; \<open>DbStats\<close>: \<^verbatim>\<open>utils/BerkeleyDB.cpp\<close>;
    \<open>FileSystem\<close>: \<^verbatim>\<open>utils/FileSystem.cpp\<close>.
  \<^item> \<open>TrieNode\<close>, \<open>TrieOps\<close>, \<open>KeyValueTrie\<close>, \<open>SubTrie\<close>, \<open>TrieDot\<close>: \<^verbatim>\<open>trie/KeyValueTrie.cpp\<close> and
    \<^verbatim>\<open>trie/Trie.cpp\<close>, from the marshalled node through \<^verbatim>\<open>insert\<close> and \<^verbatim>\<open>erase\<close> to \<^verbatim>\<open>add\<close>, \<^verbatim>\<open>remove\<close>,
    \<^verbatim>\<open>contains\<close>, \<^verbatim>\<open>getSubTrie\<close> and \<^verbatim>\<open>toDotString\<close>; \<open>Trie2Dot\<close>: the program \<^verbatim>\<open>tools/Trie2Dot.cpp\<close>.  \<open>MerkleTree\<close> and \<open>MerkleHash\<close> are the
    specification, a binary Patricia tree and the hashes of its nodes; \<open>TrieRep\<close>, \<open>TrieInsert\<close> and
    \<open>TrieErase\<close> relate storage and tree; \<open>TrieProps\<close> has the properties.
  \<^item> \<open>Streaming\<close>, \<open>Md2\<close>, \<open>MdRounds\<close>, \<open>Md4\<close>, \<open>Md5\<close>, \<open>Sha1\<close>, \<open>ShaRounds\<close>, \<open>Sha2\<close>, \<open>Sha4\<close>: the digests of
    \<^verbatim>\<open>crypto/\<close>, each with the text of its standard as a specification; \<open>MdWrap\<close> and \<open>MdInterface\<close>:
    \<^verbatim>\<open>md_wrap.c\<close> and \<^verbatim>\<open>md.c\<close>, in the build without \<^verbatim>\<open>POLARSSL_FS_IO\<close>; \<open>DigestFiles\<close>: the functions
    that digest a file, which only the other build has; \<open>CryptoHash\<close>: \<^verbatim>\<open>CryptoHash.cpp\<close>; \<open>SetHash\<close>: which of the algorithms
    fit the trie; \<open>CryptoProps\<close>: the properties.
  \<^item> \<open>HashFunctions\<close>, \<open>BloomFilter\<close>, \<open>FSBloomFilter\<close>, \<open>CountingBloom\<close>: the files of \<^verbatim>\<open>bloom/\<close>;
    \<open>BloomAlgebra\<close>, \<open>CountingRep\<close>, \<open>CountingDiff\<close>, \<open>CountingRemove\<close>, \<open>CountingSet\<close>, \<open>CountingCovers\<close>:
    what their states mean as sets of keys and bits; \<open>BloomProps\<close>: the properties; \<open>StringKeys\<close>: the
    overloads for strings of the base classes.
  \<^item> \<open>SetIndex\<close>, \<open>Config\<close>, \<open>DiffHandlers\<close>: the index, the configurations and the handlers;
    \<open>SetModel\<close>: class \<^verbatim>\<open>Set\<close>; \<open>SetRep\<close> and \<open>SetRuns\<close>: its invariants and sequences of operations;
    \<open>SetProps\<close>: the properties.
  \<^item> \<open>SyncModel\<close>: class \<^verbatim>\<open>SynchronizationProcess\<close>; \<open>SyncTrie\<close>: one direction of the exchange of
    subtrees as a step relation with its invariant and measure; \<open>SyncRuns\<close>: both directions at
    once; \<open>SyncBloom\<close>: the exchange of filters; \<open>SyncProps\<close>: the properties.
  \<^item> \<open>CInterface\<close>: the C functions and \<^verbatim>\<open>main.c\<close>; \<open>CProps\<close>: the properties of sets made through them;
    \<open>CSession\<close>: two programs that synchronise by these functions, and the simulation between their
    calls and the steps of \<open>SyncRuns\<close>; \<open>CPeer\<close>: one program whose set changes and whose other side
    may send anything; \<open>CSyncProps\<close>: the properties of both.

  \<^bold>\<open>How state corresponds.\<close>  An object is a record of its members.  A method that changes its object
  or throws is a program over it; its result type carries the exception.  A C buffer is a list of
  bytes that is passed in and returned; \<^verbatim>\<open>size_t\<close> and \<^verbatim>\<open>uint64_t\<close> are 64-bit words where code can make
  them wrap (sizes of tries and filters, byte counters of the digests, the 8-bit prefix lengths of
  trie nodes) and numbers where they only count what is in memory.  What is not initialised in
  the source is an argument or a field with \<open>junk\<close> in its name; calls through a pointer that is
  not valid are the value \<open>UndefinedBehaviour\<close>.

  \<^bold>\<open>What is shown.\<close>  For the trie: the operations refine insertion into and deletion from the
  Patricia tree, hence a finite set; the root hash is a function of the set; there is one leaf per
  key and nothing is left behind in the storage.  For the digests: the unrolled and table-driven
  steps are the compression functions of the standards, messages may come in any pieces, and HMAC
  is the one of RFC 2104.  For the filters: membership is decided by bits, the counting filter is a
  set of keys that can be compared with a remote filter in chunks.  For the set: any insertions
  followed by any removals leave exactly the right answers of \<^verbatim>\<open>find\<close>.  For the synchronisation:
  whatever the order of the two sides' calls and the sizes of their buffers, only real differences are
  reported, each once, all of them when the process is done, and it gets done in a bounded number
  of steps.  For the C interface: errors are recorded, results are those of the methods; two programs
  that synchronise through it never see a call fail, and once each has inserted the keys that the
  callback of the other got, their sets are equal; and no message of the other side, however wrong,
  makes a process hold or report anything but hashes of its own set.  For the directories: a
  removal that returns 0 leaves nothing, and one that fails leaves a part of what was there.
  Assumptions on hash functions are explicit: no two inputs that occur have the same hash
  (\<open>collision_free\<close>, \<open>cf_run\<close>), and, for keys in the filter, the hash functions of one key hit
  different bits (\<open>spread\<close>).  Where the code does not do what it means to, the theorem states
  what it does do: 256-bit hashes make the trie forget, keys with colliding filter positions are not
  found, removals wear out a set with a hard maximum, data inserted twice loses its entry, a small
  buffer ends a synchronisation early, an empty set never finishes one.

  \<^bold>\<open>Bounds.\<close>  \<open>loop_fuel\<close> is 257: a descent in the trie lengthens an 8-bit prefix at every node, so a
  path has at most 256 nodes.  \<open>subtrie_fuel\<close> is four times the size of the trie plus four: the
  recursion of \<^verbatim>\<open>getSubTrie\<close> makes at most two calls per node, and there are fewer than twice as many
  nodes as keys.  The theorems show that on a stored tree neither bound is reached.  The loops of
  \<^verbatim>\<open>commonPrefixSize\<close> and of the iterators, which may not end on other data, are partial functions
  with the value \<open>None\<close> for not ending.  Sets have fewer than \<open>2 ^ 64 - 1\<close> keys, filters fewer
  than \<open>2 ^ 35\<close> bits (the length of the mapping is a 32-bit number of bytes).

  \<^bold>\<open>Not modelled.\<close>  The network, and opening and closing of files: that succeeds or fails as an
  argument says.  A directory is a tree without symbolic links, which \<^verbatim>\<open>rmDirRecursive\<close> would follow
  out of it.  Berkeley DB, LevelDB, OpenSSL and the logarithms of the C library are outside the
  repository: they are parameters, and the numbers of bits and functions of a filter are
  arguments.  The self tests of the digests (compiled only with \<^verbatim>\<open>POLARSSL_SELF_TEST\<close>) and the abstract
  class in \<^verbatim>\<open>sync/\<close>, which no class implements, are left out.  Copying a node or a filter is copying a
  value, and memory is not modelled beyond what is read uninitialised.
\<close>

end
